(* ===== verification/MT_Prelude.thy ===== *)
theory MT_Prelude
  imports Main "HOL-Library.Word" "HOL-Library.Monad_Syntax"
begin

text \<open>
  Shared vocabulary of the development: the integer types of the C sources as
  fixed-width words, memory access with its bounds made explicit, and the
  generic lemmas on lists and words that several components use.

  A C operation that indexes or copies memory has a result in \<open>'a option\<close>:
  \<open>None\<close> is an access outside the object (undefined behaviour in C), so that
  a lemma with \<open>Some\<close> on its right-hand side includes memory safety.
  A pointer argument that the code compares with \<open>NULL\<close> is an \<open>option\<close> too.
\<close>

unbundle bit_operations_syntax

type_synonym u8 = "8 word"
type_synonym u16 = "16 word"
type_synonym u32 = "32 word"
type_synonym uintptr = "32 word"

named_theorems mt_defs \<open>definitions unfolded by evaluation proofs\<close>
named_theorems word_nat \<open>transfer of word arithmetic to natural numbers\<close>

definition arr_get :: "'a list \<Rightarrow> nat \<Rightarrow> 'a option" where
  "arr_get xs i = (if i < length xs then Some (xs ! i) else None)"

definition arr_set :: "'a list \<Rightarrow> nat \<Rightarrow> 'a \<Rightarrow> 'a list option" where
  "arr_set xs i v = (if i < length xs then Some (xs[i := v]) else None)"

definition blit :: "'a list \<Rightarrow> nat \<Rightarrow> 'a list \<Rightarrow> 'a list" where
  "blit dst off xs = take off dst @ xs @ drop (off + length xs) dst"

definition mem_copy :: "'a list \<Rightarrow> nat \<Rightarrow> 'a list \<Rightarrow> nat \<Rightarrow> nat \<Rightarrow> 'a list option" where
  "mem_copy dst doff src soff n =
     (if doff + n \<le> length dst \<and> soff + n \<le> length src
      then Some (blit dst doff (take n (drop soff src))) else None)"

lemma arr_get_Some [simp]: "i < length xs \<Longrightarrow> arr_get xs i = Some (xs ! i)"
  by (simp add: arr_get_def)

lemma arr_set_Some [simp]: "i < length xs \<Longrightarrow> arr_set xs i v = Some (xs[i := v])"
  by (simp add: arr_set_def)

lemma arr_get_eq_Some: "arr_get xs i = Some v \<longleftrightarrow> i < length xs \<and> xs ! i = v"
  by (simp add: arr_get_def)

lemma length_blit [simp]:
  "off + length xs \<le> length dst \<Longrightarrow> length (blit dst off xs) = length dst"
  by (simp add: blit_def)

lemma nth_blit:
  assumes "off + length xs \<le> length dst" "j < length dst"
  shows "blit dst off xs ! j = (if off \<le> j \<and> j < off + length xs then xs ! (j - off) else dst ! j)"
  using assms by (auto simp: blit_def nth_append min_def)

lemma mem_copy_Some [simp]:
  "doff + n \<le> length dst \<Longrightarrow> soff + n \<le> length src \<Longrightarrow>
   mem_copy dst doff src soff n = Some (blit dst doff (take n (drop soff src)))"
  by (simp add: mem_copy_def)

lemma mem_copy_length: "mem_copy dst doff src soff n = Some d \<Longrightarrow> length d = length dst"
  by (auto simp: mem_copy_def split: if_splits)

subsection \<open>Powers of two and masks on 16-bit words\<close>

definition pow2_u16 :: "u16 \<Rightarrow> bool" where
  "pow2_u16 n \<longleftrightarrow> n \<noteq> 0 \<and> n AND (n - 1) = 0"

lemma ex_high_bit_nat: "0 < m \<Longrightarrow> \<exists>k. 2 ^ k \<le> m \<and> m < 2 ^ Suc k" for m :: nat
  using ex_power_ivl1 [of 2 m] by simp

lemma bit_between_pow2: "2 ^ k \<le> m \<Longrightarrow> m < 2 ^ Suc k \<Longrightarrow> bit m k" for m :: nat
proof -
  assume "2 ^ k \<le> m" "m < 2 ^ Suc k"
  then have "m div 2 ^ k = 1" by (simp add: div_nat_eqI)
  then show "bit m k" by (simp add: bit_iff_odd)
qed

lemma pow2_u16_cases:
  assumes "pow2_u16 n"
  obtains k where "k < 16" "unat n = 2 ^ k"
proof -
  have pos: "0 < unat n" using assms by (simp add: pow2_u16_def unat_gt_0)
  then obtain k where k: "2 ^ k \<le> unat n" "unat n < 2 ^ Suc k" using ex_high_bit_nat by blast
  have m1: "unat (n - 1) = unat n - 1"
    using pos by (simp add: unat_minus_one unat_gt_0)
  have "unat n = 2 ^ k"
  proof (rule ccontr)
    assume "unat n \<noteq> 2 ^ k"
    with k have "2 ^ k \<le> unat n - 1" "unat n - 1 < 2 ^ Suc k" by auto
    then have "bit (unat (n - 1)) k" unfolding m1 by (rule bit_between_pow2)
    moreover have "bit (unat n) k" using k by (rule bit_between_pow2)
    ultimately have "bit (n AND (n - 1)) k" by (simp add: bit_and_iff bit_unsigned_iff)
    then show False using assms by (simp add: pow2_u16_def)
  qed
  moreover have "k < 16"
  proof (rule ccontr)
    assume "\<not> k < 16"
    then have "(2::nat) ^ 16 \<le> 2 ^ k" by (intro power_increasing) auto
    then show False using k unsigned_less [of n, where ?'a = nat] by simp
  qed
  ultimately show ?thesis using that by blast
qed

lemma pow2_u16_dvd: "pow2_u16 n \<Longrightarrow> unat n dvd 65536"
  by (erule pow2_u16_cases) (use le_imp_power_dvd [of _ 16 "2::nat"] in simp)

lemma pow2_u16_pos: "pow2_u16 n \<Longrightarrow> 0 < unat n"
  by (simp add: pow2_u16_def unat_gt_0)

text \<open>Masking with \<open>size - 1\<close> is reduction modulo the size.\<close>

lemma unat_and_pow2_mask:
  assumes "pow2_u16 n"
  shows "unat (p AND (n - 1)) = unat p mod unat n"
proof -
  obtain k where k: "k < 16" "unat n = 2 ^ k" using assms by (rule pow2_u16_cases)
  have "n = word_of_nat (unat n)" by simp
  also have "\<dots> = 2 ^ k" unfolding k(2) by simp
  finally have "n = 2 ^ k" .
  then have "p AND (n - 1) = take_bit k p" by (simp add: take_bit_eq_mask mask_eq_decr_exp)
  moreover have "unat (take_bit k p) = take_bit k (unat p)" by (simp add: unsigned_take_bit_eq)
  ultimately show ?thesis using k by (simp add: take_bit_eq_mod)
qed

text \<open>Reduction modulo a power of two ignores the wrap-around of the 16-bit counters.\<close>

lemma unat_add_mod_pow2:
  "pow2_u16 n \<Longrightarrow> unat (a + b) mod unat n = (unat a + unat b) mod unat n" for a b :: u16
  using pow2_u16_dvd [of n] by (simp add: unat_word_ariths mod_mod_cancel)

lemma unat_add_diff [word_nat]:
  fixes a b c :: "'a::len word"
  assumes "unat (a - b) + unat c < 2 ^ LENGTH('a)"
  shows "unat (a + c - b) = unat (a - b) + unat c"
proof -
  have "a + c - b = (a - b) + c" by simp
  with assms show ?thesis by (metis unat_add_lem)
qed

lemma unat_diff_add [word_nat]:
  fixes a b c :: "'a::len word"
  assumes "unat c \<le> unat (a - b)"
  shows "unat (a - (b + c)) = unat (a - b) - unat c"
proof -
  have "a - (b + c) = (a - b) - c" by simp
  with assms show ?thesis by (metis unat_sub word_le_nat_alt)
qed

lemma unat_add_diff_cancel_mod:
  "pow2_u16 n \<Longrightarrow> (unat r + unat (w - r)) mod unat n = unat w mod unat n" for r w :: u16
  using unat_add_mod_pow2 [of n r "w - r"] by simp

lemma pow2_u16_less: "pow2_u16 n \<Longrightarrow> unat n \<le> 32768"
proof (erule pow2_u16_cases)
  fix k assume k: "k < 16" "unat n = 2 ^ k"
  then have "(2::nat) ^ k \<le> 2 ^ 15" by (intro power_increasing) auto
  with k show ?thesis by simp
qed

text \<open>A product of two 16-bit quantities does not wrap in 32 bits.\<close>

lemma unat_ucast_16_32 [simp]: "unat (ucast (a::u16) :: u32) = unat a"
proof -
  have "unat a < 2 ^ 32" using unsigned_less [of a, where ?'a = nat] by simp
  then show ?thesis by (simp add: unsigned_ucast_eq take_bit_nat_eq_self)
qed

lemma unat_ucast_mult16: "unat (ucast (a::u16) * ucast (b::u16) :: u32) = unat a * unat b"
proof -
  have "unat a * unat b \<le> 65535 * 65535"
    using unsigned_less [of a, where ?'a = nat] unsigned_less [of b, where ?'a = nat]
    by (intro mult_le_mono) simp_all
  then show ?thesis by (simp add: unat_word_ariths)
qed

lemma unat_of_nat_u16: "k < 65536 \<Longrightarrow> unat (of_nat k :: u16) = k"
  by (simp add: unat_of_nat)

lemma unat_add_of_nat: "unat (w :: u16) + k < 65536 \<Longrightarrow> unat (w + of_nat k) = unat w + k"
  using unat_add_lem [of w "of_nat k"] by (simp add: unat_of_nat_u16)

lemma take_blit: "off + length xs \<le> length b \<Longrightarrow> take (off + length xs) (blit b off xs) = take off b @ xs"
  by (simp add: blit_def)

lemma u16_add_le: "unat (w :: u16) + unat k \<le> unat (n :: u16) \<Longrightarrow> unat (w + k) = unat w + unat k"
  using unsigned_less [of n, where ?'a = nat] unat_add_lem [of w k] by simp

subsection \<open>Quantities of type size_t\<close>

text \<open>
  A \<open>size_t\<close> is a natural number below \<open>2 ^ 32\<close>; sums and products wrap. \<open>sz_clear x m\<close> is \<open>x & ~m\<close>.
\<close>

definition sz_add :: "nat \<Rightarrow> nat \<Rightarrow> nat" where "sz_add x y = (x + y) mod 2 ^ 32"
definition sz_mul :: "nat \<Rightarrow> nat \<Rightarrow> nat" where "sz_mul x y = (x * y) mod 2 ^ 32"
definition sz_clear :: "nat \<Rightarrow> nat \<Rightarrow> nat" where "sz_clear x m = x - (x AND m)"

lemma sz_add_eq: "x + y < 2 ^ 32 \<Longrightarrow> sz_add x y = x + y"
  by (simp add: sz_add_def)

lemma sz_mul_eq: "x * y < 2 ^ 32 \<Longrightarrow> sz_mul x y = x * y"
  by (simp add: sz_mul_def)

lemma pow2_nat_cases:
  assumes "0 < n" "n AND (n - 1) = (0 :: nat)"
  obtains k where "n = 2 ^ k"
proof -
  obtain k where k: "2 ^ k \<le> n" "n < 2 ^ Suc k" using ex_high_bit_nat [OF assms(1)] by blast
  have "n = 2 ^ k"
  proof (rule ccontr)
    assume "n \<noteq> 2 ^ k"
    with k have "2 ^ k \<le> n - 1" "n - 1 < 2 ^ Suc k" by auto
    then have "bit (n - 1) k" by (rule bit_between_pow2)
    moreover have "bit n k" using k by (rule bit_between_pow2)
    ultimately have "bit (n AND (n - 1)) k" by (simp only: bit_and_iff)
    then show False using assms(2) by simp
  qed
  then show ?thesis by (rule that)
qed

lemma sz_clear_mod: "0 < a \<Longrightarrow> a AND (a - 1) = (0 :: nat) \<Longrightarrow> sz_clear x (a - 1) = x - x mod a"
proof (erule (1) pow2_nat_cases)
  fix k assume a: "a = 2 ^ k"
  have "x AND (2 ^ k - 1) = take_bit k x" by (simp only: take_bit_eq_mask mask_eq_exp_minus_1)
  then show ?thesis by (simp only: sz_clear_def a take_bit_eq_mod)
qed

text \<open>Rounding up to a multiple.\<close>

lemma round_up:
  assumes "0 < (a :: nat)"
  shows "x \<le> x + (a - 1) - (x + (a - 1)) mod a" "x + (a - 1) - (x + (a - 1)) mod a < x + a"
    "a dvd x + (a - 1) - (x + (a - 1)) mod a"
proof -
  have "(x + (a - 1)) mod a < a" using assms by (rule mod_less_divisor)
  then show "x \<le> x + (a - 1) - (x + (a - 1)) mod a" "x + (a - 1) - (x + (a - 1)) mod a < x + a"
    using assms by linarith+
  show "a dvd x + (a - 1) - (x + (a - 1)) mod a" by (rule dvd_minus_mod)
qed

end
