(* ===== verification/Ring_Buffer.thy ===== *)
theory Ring_Buffer
  imports MT_Prelude
begin

text \<open>
  The mathematics of a ring buffer, shared by the element FIFO and the byte FIFO:
  the contents of a ring as a list, what one write, a block write split in two
  copies and a block read split in two copies do to that list.
  The locale at the end is the interface a client of a FIFO relies on; it is
  interpreted on \<open>fifo_spsc\<close> and on \<open>fifo_uni_spsc\<close>.
\<close>

definition ring_list :: "'a list \<Rightarrow> nat \<Rightarrow> nat \<Rightarrow> nat \<Rightarrow> 'a list" where
  "ring_list buf n r c = map (\<lambda>i. buf ! ((r + i) mod n)) [0..<c]"

definition ring_copy_in :: "'a list \<Rightarrow> nat \<Rightarrow> nat \<Rightarrow> 'a list \<Rightarrow> nat \<Rightarrow> 'a list option" where
  "ring_copy_in buf n p src l =
     (if l \<le> n - p then mem_copy buf p src 0 l
      else do { b \<leftarrow> mem_copy buf p src 0 (n - p); mem_copy b 0 src (n - p) (l - (n - p)) })"

definition ring_copy_out :: "'a list \<Rightarrow> 'a list \<Rightarrow> nat \<Rightarrow> nat \<Rightarrow> nat \<Rightarrow> 'a list option" where
  "ring_copy_out dst buf n p l =
     (if l \<le> n - p then mem_copy dst 0 buf p l
      else do { d \<leftarrow> mem_copy dst 0 buf p (n - p); mem_copy d (n - p) buf 0 (l - (n - p)) })"

datatype 'a fifo_op = Put "'a list" | Get nat

fun fifo_run :: "('q \<Rightarrow> 'a list \<Rightarrow> nat \<times> 'q) \<Rightarrow> ('q \<Rightarrow> nat \<Rightarrow> 'a list \<times> 'q) \<Rightarrow> 'q \<Rightarrow>
    'a fifo_op list \<Rightarrow> 'a list \<times> 'a list \<times> 'q" where
  "fifo_run put get q [] = ([], [], q)"
| "fifo_run put get q (Put xs # ops) =
     (let (n, q') = put q xs; (ins, outs, q'') = fifo_run put get q' ops
      in (take n xs @ ins, outs, q''))"
| "fifo_run put get q (Get n # ops) =
     (let (ys, q') = get q n; (ins, outs, q'') = fifo_run put get q' ops
      in (ins, ys @ outs, q''))"

fun op_bounded :: "nat \<Rightarrow> 'a fifo_op \<Rightarrow> bool" where
  "op_bounded m (Put xs) = (length xs < m)"
| "op_bounded m (Get n) = (n < m)"

lemma length_ring_list [simp]: "length (ring_list buf n r c) = c"
  by (simp add: ring_list_def)

lemma nth_ring_list [simp]: "i < c \<Longrightarrow> ring_list buf n r c ! i = buf ! ((r + i) mod n)"
  by (simp add: ring_list_def)

lemma ring_list_0 [simp]: "ring_list buf n r 0 = []"
  by (simp add: ring_list_def)

lemma ring_list_mod [simp]: "ring_list buf n (r mod n) c = ring_list buf n r c"
  by (simp add: ring_list_def mod_add_left_eq)

lemma ring_list_mod_cong: "r mod n = r' mod n \<Longrightarrow> ring_list buf n r c = ring_list buf n r' c"
  by (metis ring_list_mod)

lemma ring_list_append: "ring_list buf n r (c + d) = ring_list buf n r c @ ring_list buf n (r + c) d"
  by (rule nth_equalityI) (auto simp: nth_append add.assoc)

lemma ring_list_Suc: "ring_list buf n r (Suc c) = buf ! (r mod n) # ring_list buf n (Suc r) c"
  using ring_list_append [of buf n r 1 c] by (simp add: ring_list_def)

lemma take_ring_list: "k \<le> c \<Longrightarrow> take k (ring_list buf n r c) = ring_list buf n r k"
  by (rule nth_equalityI) auto

lemma drop_ring_list: "k \<le> c \<Longrightarrow> drop k (ring_list buf n r c) = ring_list buf n (r + k) (c - k)"
  by (rule nth_equalityI) (auto simp: add.assoc)

text \<open>Two offsets below the size name the same cell only when they are equal.\<close>

lemma add_mod_inj:
  fixes i j :: nat
  assumes "(r + i) mod n = (r + j) mod n" "i < n" "j < n"
  shows "i = j"
proof -
  have le: "a = b" if "(r + a) mod n = (r + b) mod n" "b < n" "a \<le> b" for a b
  proof -
    have "n dvd (r + b) - (r + a)" using that by (intro mod_eq_dvd_iff_nat [THEN iffD1]) auto
    then have "n dvd b - a" by simp
    with that show ?thesis by (auto dest: dvd_imp_le)
  qed
  show ?thesis using le [of i j] le [of j i] assms by (cases "i \<le> j") auto
qed

lemma add_mod_cell: "p < n \<Longrightarrow> i < n \<Longrightarrow> (p + i) mod n = (if p + i < n then p + i else p + i - n)"
  for p :: nat
  by (auto simp: mod_if)

lemma ring_list_write:
  assumes "c < n" "n \<le> length buf"
  shows "ring_list (buf[(r + c) mod n := x]) n r (Suc c) = ring_list buf n r c @ [x]"
proof (rule nth_equalityI)
  fix i assume "i < length (ring_list (buf[(r + c) mod n := x]) n r (Suc c))"
  then have i: "i \<le> c" by simp
  have "(r + c) mod n < n" using assms by (intro mod_less_divisor) simp
  then have "(r + c) mod n < length buf" using assms(2) by (rule less_le_trans)
  moreover have "i \<noteq> c \<Longrightarrow> (r + i) mod n \<noteq> (r + c) mod n"
    using add_mod_inj [of r i n c] assms i by auto
  ultimately show "ring_list (buf[(r + c) mod n := x]) n r (Suc c) ! i =
      (ring_list buf n r c @ [x]) ! i"
    using i by (auto simp: nth_append nth_list_update)
qed simp

text \<open>A block copied into the ring in one or two pieces lands on consecutive cells.\<close>

lemma ring_copy_in_cells:
  assumes p: "p < n" and n: "n \<le> length buf" and l: "l \<le> n" "l \<le> length src"
  obtains b where "ring_copy_in buf n p src l = Some b" "length b = length buf"
    "\<And>i. i < l \<Longrightarrow> b ! ((p + i) mod n) = src ! i"
    "\<And>j. j < length buf \<Longrightarrow> (\<And>i. i < l \<Longrightarrow> j \<noteq> (p + i) mod n) \<Longrightarrow> b ! j = buf ! j"
proof (cases "l \<le> n - p")
  case True
  let ?b = "blit buf p (take l src)"
  show ?thesis
  proof (rule that [of ?b])
    show "ring_copy_in buf n p src l = Some ?b"
      using True assms by (simp add: ring_copy_in_def)
    show "length ?b = length buf" using True assms by simp
    show "?b ! ((p + i) mod n) = src ! i" if "i < l" for i
      using that True assms by (simp add: add_mod_cell nth_blit)
    show "?b ! j = buf ! j" if "j < length buf" "\<And>i. i < l \<Longrightarrow> j \<noteq> (p + i) mod n" for j
    proof -
      have "\<not> (p \<le> j \<and> j < p + l)" 
      proof
        assume a: "p \<le> j \<and> j < p + l"
        then have "j - p < l" by auto
        from that(2) [OF this] show False using a True p by auto
      qed
      with that(1) True assms show ?thesis by (auto simp: nth_blit)
    qed
  qed
next
  case False
  let ?k = "n - p"
  let ?b1 = "blit buf p (take ?k src)"
  let ?b = "blit ?b1 0 (take (l - ?k) (drop ?k src))"
  have len1: "length ?b1 = length buf" using assms False by simp
  show ?thesis
  proof (rule that [of ?b])
    show "ring_copy_in buf n p src l = Some ?b"
      using False assms len1 by (simp add: ring_copy_in_def)
    show "length ?b = length buf" using False assms len1 by simp
    show "?b ! ((p + i) mod n) = src ! i" if "i < l" for i
      using that False assms len1 by (auto simp: add_mod_cell nth_blit)
    show "?b ! j = buf ! j" if j: "j < length buf" "\<And>i. i < l \<Longrightarrow> j \<noteq> (p + i) mod n" for j
    proof -
      have imp: "i < l \<longrightarrow> j \<noteq> (p + i) mod n" for i using j(2) by blast
      have "\<not> (p \<le> j \<and> j < n)" using imp [of "j - p"] False by auto
      moreover have "\<not> j < l - ?k" using imp [of "j + ?k"] False assms by (auto simp: add_mod_cell)
      ultimately show ?thesis using j(1) False assms len1 by (auto simp: nth_blit)
    qed
  qed
qed

lemma ring_list_copy_in:
  assumes "c + l \<le> n" "0 < n" "n \<le> length buf" "l \<le> length src"
  obtains b where "ring_copy_in buf n ((r + c) mod n) src l = Some b" "length b = length buf"
    "ring_list b n r (c + l) = ring_list buf n r c @ take l src"
proof -
  let ?p = "(r + c) mod n"
  obtain b where b: "ring_copy_in buf n ?p src l = Some b" "length b = length buf"
    and new: "\<And>i. i < l \<Longrightarrow> b ! ((?p + i) mod n) = src ! i"
    and old: "\<And>j. j < length buf \<Longrightarrow> (\<And>i. i < l \<Longrightarrow> j \<noteq> (?p + i) mod n) \<Longrightarrow> b ! j = buf ! j"
    using assms ring_copy_in_cells [of ?p n buf l src] by auto
  have "ring_list b n r (c + l) = ring_list buf n r c @ take l src"
  proof (rule nth_equalityI)
    fix i assume "i < length (ring_list b n r (c + l))"
    then have i: "i < c + l" by simp
    show "ring_list b n r (c + l) ! i = (ring_list buf n r c @ take l src) ! i"
    proof (cases "i < c")
      case True
      have "b ! ((r + i) mod n) = buf ! ((r + i) mod n)"
      proof (rule old)
        show "(r + i) mod n < length buf" using assms by (meson less_le_trans mod_less_divisor)
        show "(r + i) mod n \<noteq> (?p + k) mod n" if "k < l" for k
          using add_mod_inj [of r i n "c + k"] that True assms(1)
          by (auto simp: mod_add_left_eq add.assoc)
      qed
      with True show ?thesis by (simp add: nth_append)
    next
      case False
      then obtain k where k: "i = c + k" "k < l" using i by (metis add_less_cancel_left le_Suc_ex not_less)
      with new [of k] show ?thesis by (simp add: nth_append mod_add_left_eq add.assoc)
    qed
  qed (use assms in simp)
  with b show ?thesis by (rule that)
qed

lemma ring_copy_out_Some:
  assumes p: "p < n" and n: "n \<le> length buf" and l: "l \<le> n" "l \<le> length dst"
  shows "ring_copy_out dst buf n p l = Some (ring_list buf n p l @ drop l dst)"
proof (cases "l \<le> n - p")
  case True
  have "take l (drop p buf) = ring_list buf n p l"
    using True assms by (intro nth_equalityI) (auto simp: add_mod_cell)
  with True assms show ?thesis by (simp add: ring_copy_out_def blit_def)
next
  case False
  let ?k = "n - p"
  have split: "ring_list buf n p l = take ?k (drop p buf) @ take (l - ?k) buf"
    using False assms by (intro nth_equalityI) (auto simp: add_mod_cell nth_append add.commute)
  have len: "length (take ?k (drop p buf)) = ?k" using assms by simp
  show ?thesis using False assms len
    by (simp add: ring_copy_out_def blit_def split mem_copy_def)
qed

subsection \<open>The interfaces of a queue of blocks\<close>

text \<open>
  \<open>fifo_channel\<close> is what every buffer promises its client: a put appends a prefix of the block, a
  get removes a prefix of the contents. \<open>bounded_fifo\<close> adds that as much as possible is moved.
\<close>

locale fifo_channel =
  fixes qinv :: "'q \<Rightarrow> bool" and qlist :: "'q \<Rightarrow> 'a list"
    and put :: "'q \<Rightarrow> 'a list \<Rightarrow> nat \<times> 'q" and get :: "'q \<Rightarrow> nat \<Rightarrow> 'a list \<times> 'q"
    and maxblk :: nat
  assumes chan_put: "qinv q \<Longrightarrow> length xs < maxblk \<Longrightarrow> put q xs = (n, q') \<Longrightarrow>
      qinv q' \<and> n \<le> length xs \<and> qlist q' = qlist q @ take n xs"
    and chan_get: "qinv q \<Longrightarrow> k < maxblk \<Longrightarrow> get q k = (ys, q') \<Longrightarrow>
      qinv q' \<and> length ys \<le> k \<and> qlist q = ys @ qlist q'"
begin

lemma run_fifo:
  assumes "qinv q" "list_all (op_bounded maxblk) ops" "fifo_run put get q ops = (ins, outs, q')"
  shows "qinv q' \<and> outs @ qlist q' = qlist q @ ins"
  using assms
proof (induction ops arbitrary: q ins outs q')
  case Nil
  then show ?case by simp
next
  case (Cons op ops)
  show ?case
  proof (cases op)
    case (Put xs)
    obtain n q1 where p: "put q xs = (n, q1)" by fastforce
    obtain i1 o1 q2 where f: "fifo_run put get q1 ops = (i1, o1, q2)" by (metis prod_cases3)
    have q1: "qinv q1 \<and> qlist q1 = qlist q @ take n xs"
      using chan_put [OF Cons.prems(1) _ p] Cons.prems(2) Put by auto
    then have "qinv q2 \<and> o1 @ qlist q2 = qlist q1 @ i1"
      using Cons.IH [OF _ _ f] Cons.prems(2) by auto
    with q1 Cons.prems(3) Put p f show ?thesis by auto
  next
    case (Get k)
    obtain ys q1 where g: "get q k = (ys, q1)" by fastforce
    obtain i1 o1 q2 where f: "fifo_run put get q1 ops = (i1, o1, q2)" by (metis prod_cases3)
    have q1: "qinv q1 \<and> qlist q = ys @ qlist q1"
      using chan_get [OF Cons.prems(1) _ g] Cons.prems(2) Get by auto
    then have "qinv q2 \<and> o1 @ qlist q2 = qlist q1 @ i1"
      using Cons.IH [OF _ _ f] Cons.prems(2) by auto
    with q1 Cons.prems(3) Get g f show ?thesis by auto
  qed
qed

end

locale bounded_fifo =
  fixes qinv :: "'q \<Rightarrow> bool" and qlist :: "'q \<Rightarrow> 'a list" and qcap :: "'q \<Rightarrow> nat"
    and put :: "'q \<Rightarrow> 'a list \<Rightarrow> nat \<times> 'q" and get :: "'q \<Rightarrow> nat \<Rightarrow> 'a list \<times> 'q"
    and maxblk :: nat
  assumes bounded: "qinv q \<Longrightarrow> length (qlist q) \<le> qcap q"
    and put_law: "qinv q \<Longrightarrow> length xs < maxblk \<Longrightarrow> put q xs = (n, q') \<Longrightarrow>
      qinv q' \<and> qcap q' = qcap q \<and> n = min (length xs) (qcap q - length (qlist q)) \<and>
      qlist q' = qlist q @ take n xs"
    and get_law: "qinv q \<Longrightarrow> k < maxblk \<Longrightarrow> get q k = (ys, q') \<Longrightarrow>
      qinv q' \<and> qcap q' = qcap q \<and> ys = take k (qlist q) \<and> qlist q' = drop k (qlist q)"

sublocale bounded_fifo \<subseteq> fifo_channel qinv qlist put get maxblk
  by unfold_locales (auto dest: put_law get_law)

context bounded_fifo
begin

text \<open>A put of at most the free space followed by a get of everything returns everything.\<close>

lemma put_get:
  assumes "qinv q" "length xs < maxblk" "qcap q < maxblk" "length (qlist q) + length xs \<le> qcap q"
  shows "\<exists>q1 q2. put q xs = (length xs, q1) \<and> get q1 (qcap q) = (qlist q @ xs, q2) \<and> qlist q2 = []"
proof -
  obtain n q1 where p: "put q xs = (n, q1)" by fastforce
  obtain ys q2 where g: "get q1 (qcap q) = (ys, q2)" by fastforce
  from put_law [OF assms(1,2) p] assms(4) have q1: "qinv q1" "n = length xs" "qlist q1 = qlist q @ xs"
    by auto
  from get_law [OF q1(1) assms(3) g] q1(3) assms(4) have "ys = qlist q @ xs \<and> qlist q2 = []" by simp
  with p g q1(2) show ?thesis by auto
qed

end

end
