(* ===== verification/Fifo.thy ===== *)
theory Fifo
  imports Ring_Buffer
begin

text \<open>
  \<open>struct fifo_spsc\<close> of \<^verbatim>\<open>algorithm/buffer/circle_fifo_buffer.c\<close>: the lock-free
  single-producer single-consumer ring of pointer-sized elements. The two
  16-bit counters run freely and wrap around; the slot is the counter masked
  with \<open>size - 1\<close>. First the functions as sequential code, then the
  interleaving of one producer and one consumer, memory access by memory access.
\<close>

definition BUFF_OK :: int where "BUFF_OK = 0"
definition BUFF_ERR_INVAL :: int where "BUFF_ERR_INVAL = - 22"
definition BUFF_ERR_FULL :: int where "BUFF_ERR_FULL = - 28"
definition BUFF_ERR_EMPTY :: int where "BUFF_ERR_EMPTY = - 61"

lemmas buff_codes [simp] = BUFF_OK_def BUFF_ERR_INVAL_def BUFF_ERR_FULL_def BUFF_ERR_EMPTY_def

record fifo_spsc =
  fifo_buf :: "uintptr list"
  fifo_size :: u16
  fifo_mask :: u16
  fifo_w_ptr :: u16
  fifo_r_ptr :: u16

definition fifo_init :: "fifo_spsc option \<Rightarrow> uintptr list option \<Rightarrow> u16 \<Rightarrow> int \<times> fifo_spsc option" where
  "fifo_init handle buf n =
     (case (handle, buf) of
        (Some h, Some b) \<Rightarrow>
          if n = 0 \<or> n AND (n - 1) \<noteq> 0 then (BUFF_ERR_INVAL, handle)
          else (BUFF_OK, Some \<lparr>fifo_buf = b, fifo_size = n, fifo_mask = n - 1,
                               fifo_w_ptr = 0, fifo_r_ptr = 0\<rparr>)
      | _ \<Rightarrow> (BUFF_ERR_INVAL, handle))"

definition fifo_write_data :: "fifo_spsc option \<Rightarrow> uintptr \<Rightarrow> (int \<times> fifo_spsc option) option" where
  "fifo_write_data handle data =
     (case handle of
        None \<Rightarrow> Some (BUFF_ERR_INVAL, None)
      | Some h \<Rightarrow>
          let read_ptr = fifo_r_ptr h; write_ptr = fifo_w_ptr h in
          if fifo_size h \<le> write_ptr - read_ptr then Some (BUFF_ERR_FULL, Some h)
          else do {
            b \<leftarrow> arr_set (fifo_buf h) (unat (write_ptr AND fifo_mask h)) data;
            Some (BUFF_OK, Some (h\<lparr>fifo_buf := b, fifo_w_ptr := write_ptr + 1\<rparr>))
          })"

definition fifo_write_block ::
    "fifo_spsc option \<Rightarrow> uintptr list option \<Rightarrow> u16 \<Rightarrow> (int \<times> fifo_spsc option \<times> u16) option" where
  "fifo_write_block handle p_data len =
     (case (handle, p_data) of
        (Some h, Some src) \<Rightarrow>
          if len = 0 then Some (BUFF_ERR_INVAL, Some h, 0)
          else
            let read_ptr = fifo_r_ptr h; write_ptr = fifo_w_ptr h;
                free_len = fifo_size h - (write_ptr - read_ptr) in
            if free_len = 0 then Some (BUFF_ERR_FULL, Some h, 0)
            else
              let len' = (if free_len < len then free_len else len);
                  w_idx = write_ptr AND fifo_mask h;
                  space_to_end = fifo_size h - w_idx in
              do {
                b \<leftarrow> (if len' \<le> space_to_end then mem_copy (fifo_buf h) (unat w_idx) src 0 (unat len')
                     else do {
                       b1 \<leftarrow> mem_copy (fifo_buf h) (unat w_idx) src 0 (unat space_to_end);
                       mem_copy b1 0 src (unat space_to_end) (unat len' - unat space_to_end) });
                Some (BUFF_OK, Some (h\<lparr>fifo_buf := b, fifo_w_ptr := write_ptr + len'\<rparr>), len')
              }
      | _ \<Rightarrow> Some (BUFF_ERR_INVAL, handle, 0))"

definition fifo_read_data ::
    "fifo_spsc option \<Rightarrow> uintptr option \<Rightarrow> (int \<times> fifo_spsc option \<times> uintptr option) option" where
  "fifo_read_data handle p_data =
     (case (handle, p_data) of
        (Some h, Some _) \<Rightarrow>
          let write_ptr = fifo_w_ptr h; read_ptr = fifo_r_ptr h in
          if read_ptr = write_ptr then Some (BUFF_ERR_EMPTY, Some h, p_data)
          else do {
            v \<leftarrow> arr_get (fifo_buf h) (unat (read_ptr AND fifo_mask h));
            Some (BUFF_OK, Some (h\<lparr>fifo_r_ptr := read_ptr + 1\<rparr>), Some v)
          }
      | _ \<Rightarrow> Some (BUFF_ERR_INVAL, handle, p_data))"

definition fifo_read_block ::
    "fifo_spsc option \<Rightarrow> uintptr list option \<Rightarrow> u16 \<Rightarrow>
     (int \<times> fifo_spsc option \<times> uintptr list option \<times> u16) option" where
  "fifo_read_block handle p_data len =
     (case (handle, p_data) of
        (Some h, Some dst) \<Rightarrow>
          if len = 0 then Some (BUFF_ERR_INVAL, Some h, p_data, 0)
          else
            let write_ptr = fifo_w_ptr h; read_ptr = fifo_r_ptr h; cnt = write_ptr - read_ptr in
            if cnt = 0 then Some (BUFF_ERR_EMPTY, Some h, p_data, 0)
            else
              let len' = (if cnt < len then cnt else len);
                  r_idx = read_ptr AND fifo_mask h;
                  space_to_end = fifo_size h - r_idx in
              do {
                d \<leftarrow> (if len' \<le> space_to_end then mem_copy dst 0 (fifo_buf h) (unat r_idx) (unat len')
                     else do {
                       d1 \<leftarrow> mem_copy dst 0 (fifo_buf h) (unat r_idx) (unat space_to_end);
                       mem_copy d1 (unat space_to_end) (fifo_buf h) 0 (unat len' - unat space_to_end) });
                Some (BUFF_OK, Some (h\<lparr>fifo_r_ptr := read_ptr + len'\<rparr>), Some d, len')
              }
      | _ \<Rightarrow> Some (BUFF_ERR_INVAL, handle, p_data, 0))"

definition fifo_get_count :: "fifo_spsc option \<Rightarrow> u16 option \<Rightarrow> int \<times> u16 option" where
  "fifo_get_count handle p_count =
     (case (handle, p_count) of
        (Some h, Some _) \<Rightarrow> (BUFF_OK, Some (fifo_w_ptr h - fifo_r_ptr h))
      | _ \<Rightarrow> (BUFF_ERR_INVAL, p_count))"

definition fifo_isempty :: "fifo_spsc option \<Rightarrow> bool option \<Rightarrow> int \<times> bool option" where
  "fifo_isempty handle p_empty =
     (case (handle, p_empty) of
        (Some h, Some _) \<Rightarrow> (BUFF_OK, Some (fifo_r_ptr h = fifo_w_ptr h))
      | _ \<Rightarrow> (BUFF_ERR_INVAL, p_empty))"

definition fifo_isfull :: "fifo_spsc option \<Rightarrow> bool option \<Rightarrow> int \<times> bool option" where
  "fifo_isfull handle p_full =
     (case (handle, p_full) of
        (Some h, Some _) \<Rightarrow> (BUFF_OK, Some (fifo_size h \<le> fifo_w_ptr h - fifo_r_ptr h))
      | _ \<Rightarrow> (BUFF_ERR_INVAL, p_full))"

subsection \<open>Invariant and contents\<close>

definition fifo_inv :: "fifo_spsc \<Rightarrow> bool" where
  "fifo_inv h \<longleftrightarrow> pow2_u16 (fifo_size h) \<and> fifo_mask h = fifo_size h - 1 \<and>
     unat (fifo_size h) \<le> length (fifo_buf h) \<and>
     unat (fifo_w_ptr h - fifo_r_ptr h) \<le> unat (fifo_size h)"

definition fifo_list :: "fifo_spsc \<Rightarrow> uintptr list" where
  "fifo_list h = ring_list (fifo_buf h) (unat (fifo_size h)) (unat (fifo_r_ptr h))
                   (unat (fifo_w_ptr h - fifo_r_ptr h))"

lemma fifo_inv_idx: "fifo_inv h \<Longrightarrow> unat (p AND fifo_mask h) = unat p mod unat (fifo_size h)"
  by (simp add: fifo_inv_def unat_and_pow2_mask)

lemma length_fifo_list [simp]: "length (fifo_list h) = unat (fifo_w_ptr h - fifo_r_ptr h)"
  by (simp add: fifo_list_def)

lemma fifo_inv_pos: "fifo_inv h \<Longrightarrow> 0 < unat (fifo_size h)"
  by (simp add: fifo_inv_def pow2_u16_pos)

lemma fifo_inv_idx_less: "fifo_inv h \<Longrightarrow> unat (p AND fifo_mask h) < length (fifo_buf h)"
  using mod_less_divisor [OF fifo_inv_pos, of h "unat p"] unfolding fifo_inv_idx by (simp add: fifo_inv_def)

lemma fifo_inv_size_bound: "fifo_inv h \<Longrightarrow> unat (fifo_size h) \<le> 32768"
  by (simp add: fifo_inv_def pow2_u16_less)

lemma fifo_list_bounded: "fifo_inv h \<Longrightarrow> length (fifo_list h) \<le> unat (fifo_size h)"
  by (simp add: fifo_inv_def)

lemma fifo_list_eq_Nil: "fifo_list h = [] \<longleftrightarrow> fifo_r_ptr h = fifo_w_ptr h"
  using length_fifo_list [of h] by (metis length_0_conv right_minus_eq unat_eq_zero)

lemma fifo_init_inv:
  "pow2_u16 n \<Longrightarrow> unat n \<le> length b \<Longrightarrow>
   \<exists>h'. fifo_init (Some h) (Some b) n = (BUFF_OK, Some h') \<and> fifo_inv h' \<and>
        fifo_list h' = [] \<and> fifo_size h' = n"
  by (auto simp: fifo_init_def fifo_inv_def fifo_list_def pow2_u16_def)

lemma fifo_write_data_full:
  "fifo_inv h \<Longrightarrow> length (fifo_list h) = unat (fifo_size h) \<Longrightarrow>
   fifo_write_data (Some h) x = Some (BUFF_ERR_FULL, Some h)"
  by (simp add: fifo_write_data_def word_le_nat_alt)

lemma fifo_write_data_ok:
  assumes inv: "fifo_inv h" and space: "length (fifo_list h) < unat (fifo_size h)"
  obtains h' where "fifo_write_data (Some h) x = Some (BUFF_OK, Some h')" "fifo_inv h'"
    "fifo_size h' = fifo_size h" "fifo_list h' = fifo_list h @ [x]"
proof -
  let ?n = "unat (fifo_size h)" and ?c = "unat (fifo_w_ptr h - fifo_r_ptr h)"
  let ?i = "unat (fifo_w_ptr h) mod ?n"
  let ?h = "h\<lparr>fifo_buf := (fifo_buf h)[?i := x], fifo_w_ptr := fifo_w_ptr h + 1\<rparr>"
  have bd: "?n \<le> 32768" and pos: "0 < ?n" and len: "?n \<le> length (fifo_buf h)"
    and p2: "pow2_u16 (fifo_size h)" and c: "?c < ?n"
    using inv space by (simp_all add: fifo_inv_size_bound fifo_inv_pos fifo_inv_def)
  have i: "?i = (unat (fifo_r_ptr h) + ?c) mod ?n"
    using unat_add_diff_cancel_mod [OF p2] by simp
  have "?i < length (fifo_buf h)" using pos len by (meson less_le_trans mod_less_divisor)
  then have w: "fifo_write_data (Some h) x = Some (BUFF_OK, Some ?h)"
    using c by (simp add: fifo_write_data_def word_le_nat_alt fifo_inv_idx [OF inv] Let_def)
  have u: "unat (fifo_w_ptr h + 1 - fifo_r_ptr h) = Suc ?c"
    using unat_add_diff [of "fifo_w_ptr h" "fifo_r_ptr h" 1] bd c by simp
  have "fifo_list ?h = fifo_list h @ [x]"
    using ring_list_write [OF c len, of "unat (fifo_r_ptr h)" x] by (simp add: fifo_list_def u i)
  moreover have "fifo_inv ?h" using inv c by (simp add: fifo_inv_def u)
  ultimately show ?thesis using w by (intro that) auto
qed

lemma fifo_read_data_empty:
  "fifo_list h = [] \<Longrightarrow> fifo_read_data (Some h) (Some d) = Some (BUFF_ERR_EMPTY, Some h, Some d)"
  by (simp add: fifo_read_data_def fifo_list_eq_Nil)

lemma fifo_read_data_ok:
  assumes inv: "fifo_inv h" and ne: "fifo_list h = x # xs"
  obtains h' where "fifo_read_data (Some h) (Some d) = Some (BUFF_OK, Some h', Some x)" "fifo_inv h'"
    "fifo_size h' = fifo_size h" "fifo_list h' = xs"
proof -
  let ?n = "unat (fifo_size h)" and ?c = "unat (fifo_w_ptr h - fifo_r_ptr h)"
  let ?h = "h\<lparr>fifo_r_ptr := fifo_r_ptr h + 1\<rparr>"
  have pos: "0 < ?n" and len: "?n \<le> length (fifo_buf h)" and p2: "pow2_u16 (fifo_size h)"
    using inv by (simp_all add: fifo_inv_pos fifo_inv_def)
  have c: "?c = Suc (length xs)" using ne length_fifo_list [of h] by simp
  have ring: "x = fifo_buf h ! (unat (fifo_r_ptr h) mod ?n)"
    "xs = ring_list (fifo_buf h) ?n (Suc (unat (fifo_r_ptr h))) (length xs)"
    using ne by (simp_all add: fifo_list_def c ring_list_Suc)
  have "unat (fifo_r_ptr h) mod ?n < length (fifo_buf h)"
    using pos len by (meson less_le_trans mod_less_divisor)
  then have r: "fifo_read_data (Some h) (Some d) = Some (BUFF_OK, Some ?h, Some x)"
    using ne fifo_list_eq_Nil [of h] ring(1)
    by (simp add: fifo_read_data_def fifo_inv_idx [OF inv] Let_def)
  have u: "unat (fifo_w_ptr h - (fifo_r_ptr h + 1)) = length xs"
    using unat_diff_add [of 1 "fifo_w_ptr h" "fifo_r_ptr h"] c by simp
  have "fifo_list ?h = xs"
    using ring(2) unat_add_mod_pow2 [OF p2, of "fifo_r_ptr h" 1]
    by (simp add: fifo_list_def u) (metis ring_list_mod_cong Suc_eq_plus1)
  moreover have "fifo_inv ?h" using inv c by (simp add: fifo_inv_def u)
  ultimately show ?thesis using r by (intro that) auto
qed

subsection \<open>Block transfer\<close>

lemma fifo_space_to_end:
  assumes "fifo_inv h"
  shows "unat (fifo_size h - (p AND fifo_mask h)) = unat (fifo_size h) - unat p mod unat (fifo_size h)"
proof -
  have "unat (p AND fifo_mask h) \<le> unat (fifo_size h)"
    using fifo_inv_pos [OF assms] by (simp add: fifo_inv_idx [OF assms])
  then show ?thesis by (simp add: unat_sub word_le_nat_alt fifo_inv_idx [OF assms])
qed

lemma fifo_free_len:
  "fifo_inv h \<Longrightarrow>
   unat (fifo_size h - (fifo_w_ptr h - fifo_r_ptr h)) = unat (fifo_size h) - length (fifo_list h)"
  by (simp add: unat_sub word_le_nat_alt fifo_inv_def)

lemma fifo_write_block_full:
  "fifo_inv h \<Longrightarrow> len \<noteq> 0 \<Longrightarrow> length (fifo_list h) = unat (fifo_size h) \<Longrightarrow>
   fifo_write_block (Some h) (Some src) len = Some (BUFF_ERR_FULL, Some h, 0)"
  using fifo_free_len [of h] by (simp add: fifo_write_block_def unat_eq_zero)

lemma fifo_write_block_ok:
  assumes inv: "fifo_inv h" and len: "len \<noteq> 0" "unat len \<le> length src"
    and space: "length (fifo_list h) < unat (fifo_size h)"
  obtains h' k where "fifo_write_block (Some h) (Some src) len = Some (BUFF_OK, Some h', k)"
    "unat k = min (unat len) (unat (fifo_size h) - length (fifo_list h))" "fifo_inv h'"
    "fifo_size h' = fifo_size h" "fifo_list h' = fifo_list h @ take (unat k) src"
proof -
  let ?n = "unat (fifo_size h)" and ?c = "unat (fifo_w_ptr h - fifo_r_ptr h)"
  let ?f = "fifo_size h - (fifo_w_ptr h - fifo_r_ptr h)"
  define k where "k = (if ?f < len then ?f else len)"
  have f: "unat ?f = ?n - ?c" using fifo_free_len [OF inv] by simp
  then have f0: "?f \<noteq> 0" using space by (metis length_fifo_list unat_0 zero_less_diff less_irrefl)
  have k: "unat k = min (unat len) (?n - ?c)" using f by (auto simp: k_def word_less_nat_alt)
  have bd: "?n \<le> 32768" and pos: "0 < ?n" and lb: "?n \<le> length (fifo_buf h)"
    and p2: "pow2_u16 (fifo_size h)"
    using inv by (simp_all add: fifo_inv_size_bound fifo_inv_pos fifo_inv_def)
  have ck: "?c + unat k \<le> ?n" using k space by simp
  obtain b where b: "ring_copy_in (fifo_buf h) ?n ((unat (fifo_r_ptr h) + ?c) mod ?n) src (unat k) = Some b"
    "length b = length (fifo_buf h)"
    "ring_list b ?n (unat (fifo_r_ptr h)) (?c + unat k) =
       ring_list (fifo_buf h) ?n (unat (fifo_r_ptr h)) ?c @ take (unat k) src"
  proof (rule ring_list_copy_in [OF ck pos lb])
    show "unat k \<le> length src" using k len by simp
  qed
  let ?h = "h\<lparr>fifo_buf := b, fifo_w_ptr := fifo_w_ptr h + k\<rparr>"
  have w: "fifo_write_block (Some h) (Some src) len = Some (BUFF_OK, Some ?h, k)"
    using b(1) len f0
    by (auto simp: fifo_write_block_def ring_copy_in_def unat_add_diff_cancel_mod [OF p2] Let_def
        word_le_nat_alt fifo_space_to_end [OF inv] fifo_inv_idx [OF inv] bind_eq_Some_conv
        simp flip: k_def split: if_splits)
  have u: "unat (fifo_w_ptr h + k - fifo_r_ptr h) = ?c + unat k"
    using ck bd by (intro unat_add_diff) simp
  show ?thesis
  proof (rule that [OF w])
    show "fifo_inv ?h" using inv ck b(2) by (simp add: fifo_inv_def u)
    show "fifo_list ?h = fifo_list h @ take (unat k) src" using b(3) by (simp add: fifo_list_def u)
  qed (use k in auto)
qed

lemma fifo_read_block_empty:
  "fifo_list h = [] \<Longrightarrow> len \<noteq> 0 \<Longrightarrow>
   fifo_read_block (Some h) (Some dst) len = Some (BUFF_ERR_EMPTY, Some h, Some dst, 0)"
  by (simp add: fifo_read_block_def fifo_list_eq_Nil)

lemma fifo_read_block_ok:
  assumes inv: "fifo_inv h" and len: "len \<noteq> 0" "unat len \<le> length dst" and ne: "fifo_list h \<noteq> []"
  obtains h' k where
    "fifo_read_block (Some h) (Some dst) len =
       Some (BUFF_OK, Some h', Some (take (unat len) (fifo_list h) @ drop (unat k) dst), k)"
    "unat k = min (unat len) (length (fifo_list h))" "fifo_inv h'"
    "fifo_size h' = fifo_size h" "fifo_list h' = drop (unat len) (fifo_list h)"
proof -
  let ?n = "unat (fifo_size h)" and ?c = "unat (fifo_w_ptr h - fifo_r_ptr h)"
  let ?r = "unat (fifo_r_ptr h)"
  define k where "k = (if fifo_w_ptr h - fifo_r_ptr h < len then fifo_w_ptr h - fifo_r_ptr h else len)"
  have k: "unat k = min (unat len) ?c" by (auto simp: k_def word_less_nat_alt)
  have pos: "0 < ?n" and lb: "?n \<le> length (fifo_buf h)" and p2: "pow2_u16 (fifo_size h)"
    and cn: "?c \<le> ?n" using inv by (simp_all add: fifo_inv_pos fifo_inv_def)
  have out: "ring_copy_out dst (fifo_buf h) ?n (?r mod ?n) (unat k) =
      Some (ring_list (fifo_buf h) ?n ?r (unat k) @ drop (unat k) dst)"
    using ring_copy_out_Some [of "?r mod ?n" ?n "fifo_buf h" "unat k" dst] pos lb cn k len by simp
  have tk: "take (unat len) (fifo_list h) = ring_list (fifo_buf h) ?n ?r (unat k)"
    using k by (auto simp: fifo_list_def take_ring_list min_def)
  let ?h = "h\<lparr>fifo_r_ptr := fifo_r_ptr h + k\<rparr>"
  have c0: "fifo_w_ptr h - fifo_r_ptr h \<noteq> 0" using ne by (simp add: fifo_list_eq_Nil)
  have r: "fifo_read_block (Some h) (Some dst) len =
      Some (BUFF_OK, Some ?h, Some (take (unat len) (fifo_list h) @ drop (unat k) dst), k)"
    using out len c0
    by (auto simp: fifo_read_block_def ring_copy_out_def Let_def word_le_nat_alt tk
        fifo_space_to_end [OF inv] fifo_inv_idx [OF inv] bind_eq_Some_conv
        simp flip: k_def split: if_splits)
  have u: "unat (fifo_w_ptr h - (fifo_r_ptr h + k)) = ?c - unat k"
    using k by (intro unat_diff_add) simp
  have rot: "ring_list (fifo_buf h) ?n (unat (fifo_r_ptr h + k)) (?c - unat k) =
      ring_list (fifo_buf h) ?n (?r + unat k) (?c - unat k)"
    using unat_add_mod_pow2 [OF p2] by (rule ring_list_mod_cong)
  show ?thesis
  proof (rule that [OF r])
    show "fifo_inv ?h" using inv cn by (simp add: fifo_inv_def u)
    have "drop (unat len) (fifo_list h) = drop (unat k) (fifo_list h)"
      using k by (cases "unat len \<le> ?c") simp_all
    moreover have "unat k \<le> ?c" using k by simp
    ultimately show "fifo_list ?h = drop (unat len) (fifo_list h)"
      by (simp add: fifo_list_def u rot drop_ring_list)
  qed (use k in auto)
qed

text \<open>The two block functions as a client calls them, with their \<open>p_actual\<close> result.\<close>

definition fifo_put :: "fifo_spsc \<Rightarrow> uintptr list \<Rightarrow> nat \<times> fifo_spsc" where
  "fifo_put h xs =
     (case fifo_write_block (Some h) (Some xs) (of_nat (length xs)) of
        Some (_, Some h', k) \<Rightarrow> (unat k, h') | _ \<Rightarrow> (0, h))"

definition fifo_get :: "fifo_spsc \<Rightarrow> nat \<Rightarrow> uintptr list \<times> fifo_spsc" where
  "fifo_get h k =
     (case fifo_read_block (Some h) (Some (replicate k 0)) (of_nat k) of
        Some (_, Some h', Some d, a) \<Rightarrow> (take (unat a) d, h') | _ \<Rightarrow> ([], h))"

interpretation ff: bounded_fifo fifo_inv fifo_list "\<lambda>h. unat (fifo_size h)" fifo_put fifo_get "65536"
proof (unfold_locales, goal_cases)
  case (1 q)
  then show ?case by (rule fifo_list_bounded)
next
  case (2 q xs n q')
  let ?len = "of_nat (length xs) :: u16"
  have ul: "unat ?len = length xs" using 2(2) by (simp add: unat_of_nat)
  consider "?len = 0" | "?len \<noteq> 0" "length (fifo_list q) = unat (fifo_size q)"
    | "?len \<noteq> 0" "length (fifo_list q) < unat (fifo_size q)"
    using fifo_list_bounded [OF 2(1)] by linarith
  then show ?case
  proof cases
    case 1
    then have "xs = []" using ul by simp
    with 2 show ?thesis by (simp add: fifo_put_def fifo_write_block_def)
  next
    case b: 2
    with 2 show ?thesis by (simp add: fifo_put_def fifo_write_block_full)
  next
    case 3
    obtain h' k where "fifo_write_block (Some q) (Some xs) ?len = Some (BUFF_OK, Some h', k)"
      "unat k = min (unat ?len) (unat (fifo_size q) - length (fifo_list q))" "fifo_inv h'"
      "fifo_size h' = fifo_size q" "fifo_list h' = fifo_list q @ take (unat k) xs"
      using fifo_write_block_ok [OF 2(1) 3(1) _ 3(2), of xs] ul by auto
    with 2 ul show ?thesis by (simp add: fifo_put_def)
  qed
next
  case (3 q k ys q')
  let ?len = "of_nat k :: u16"
  have ul: "unat ?len = k" using 3(2) by (simp add: unat_of_nat)
  consider "?len = 0" | "?len \<noteq> 0" "fifo_list q = []" | "?len \<noteq> 0" "fifo_list q \<noteq> []" by blast
  then show ?case
  proof cases
    case 1
    then have "k = 0" using ul by simp
    with 3 show ?thesis by (simp add: fifo_get_def fifo_read_block_def)
  next
    case 2
    with 3 show ?thesis by (simp add: fifo_get_def fifo_read_block_empty)
  next
    case b: 3
    obtain h' a where "fifo_read_block (Some q) (Some (replicate k 0)) ?len =
        Some (BUFF_OK, Some h', Some (take (unat ?len) (fifo_list q) @ drop (unat a) (replicate k 0)), a)"
      "unat a = min (unat ?len) (length (fifo_list q))" "fifo_inv h'"
      "fifo_size h' = fifo_size q" "fifo_list h' = drop (unat ?len) (fifo_list q)"
      using fifo_read_block_ok [OF 3(1) b(1) _ b(2), of "replicate k 0"] ul by auto
    with 3 ul show ?thesis by (auto simp: fifo_get_def min_def)
  qed
qed

subsection \<open>Properties\<close>



end
