(* ===== verification/Fifo_SPSC.thy ===== *)
theory Fifo_SPSC
  imports Fifo
begin

text \<open>
  One producer running \<open>fifo_write_data\<close> and one consumer running \<open>fifo_read_data\<close>
  on the same \<open>fifo_spsc\<close>, interleaved at every access to the shared memory:
  the load of each counter, the access to the slot and the store that publishes
  the counter are steps of their own, so the values a side works with may be
  stale. The accesses interleave sequentially consistently, which is what the
  acquire/release pairs of the code give for these two counters.
\<close>

datatype prod_pc =
    P_idle
  | P_call uintptr
  | P_r uintptr u16
  | P_rw uintptr u16 u16
  | P_stored uintptr u16

datatype cons_pc =
    C_idle
  | C_w u16
  | C_wr u16 u16
  | C_val uintptr u16

record spsc =
  sp_fifo :: fifo_spsc
  sp_prod :: prod_pc
  sp_cons :: cons_pc
  sp_written :: "uintptr list"
  sp_consumed :: "uintptr list"

definition spsc_init :: "fifo_spsc \<Rightarrow> spsc" where
  "spsc_init h = \<lparr>sp_fifo = h, sp_prod = P_idle, sp_cons = C_idle, sp_written = [], sp_consumed = []\<rparr>"

inductive spsc_step :: "spsc \<Rightarrow> spsc \<Rightarrow> bool" where
  p_call: "sp_prod s = P_idle \<Longrightarrow> spsc_step s (s\<lparr>sp_prod := P_call d\<rparr>)"
| p_load_r: "sp_prod s = P_call d \<Longrightarrow> spsc_step s (s\<lparr>sp_prod := P_r d (fifo_r_ptr (sp_fifo s))\<rparr>)"
| p_load_w: "sp_prod s = P_r d r \<Longrightarrow> spsc_step s (s\<lparr>sp_prod := P_rw d r (fifo_w_ptr (sp_fifo s))\<rparr>)"
| p_full: "sp_prod s = P_rw d r w \<Longrightarrow> fifo_size (sp_fifo s) \<le> w - r \<Longrightarrow>
    spsc_step s (s\<lparr>sp_prod := P_idle\<rparr>)"
| p_store: "sp_prod s = P_rw d r w \<Longrightarrow> \<not> fifo_size (sp_fifo s) \<le> w - r \<Longrightarrow>
    arr_set (fifo_buf (sp_fifo s)) (unat (w AND fifo_mask (sp_fifo s))) d = Some b \<Longrightarrow>
    spsc_step s (s\<lparr>sp_fifo := (sp_fifo s)\<lparr>fifo_buf := b\<rparr>, sp_prod := P_stored d w\<rparr>)"
| p_publish: "sp_prod s = P_stored d w \<Longrightarrow>
    spsc_step s (s\<lparr>sp_fifo := (sp_fifo s)\<lparr>fifo_w_ptr := w + 1\<rparr>, sp_prod := P_idle,
                   sp_written := sp_written s @ [d]\<rparr>)"
| c_load_w: "sp_cons s = C_idle \<Longrightarrow> spsc_step s (s\<lparr>sp_cons := C_w (fifo_w_ptr (sp_fifo s))\<rparr>)"
| c_load_r: "sp_cons s = C_w w \<Longrightarrow> spsc_step s (s\<lparr>sp_cons := C_wr w (fifo_r_ptr (sp_fifo s))\<rparr>)"
| c_empty: "sp_cons s = C_wr w r \<Longrightarrow> r = w \<Longrightarrow> spsc_step s (s\<lparr>sp_cons := C_idle\<rparr>)"
| c_read: "sp_cons s = C_wr w r \<Longrightarrow> r \<noteq> w \<Longrightarrow>
    arr_get (fifo_buf (sp_fifo s)) (unat (r AND fifo_mask (sp_fifo s))) = Some v \<Longrightarrow>
    spsc_step s (s\<lparr>sp_cons := C_val v r\<rparr>)"
| c_publish: "sp_cons s = C_val v r \<Longrightarrow>
    spsc_step s (s\<lparr>sp_fifo := (sp_fifo s)\<lparr>fifo_r_ptr := r + 1\<rparr>, sp_cons := C_idle,
                   sp_consumed := sp_consumed s @ [v]\<rparr>)"

inductive spsc_reach :: "fifo_spsc \<Rightarrow> spsc \<Rightarrow> bool" for h where
  reach_init: "spsc_reach h (spsc_init h)"
| reach_step: "spsc_reach h s \<Longrightarrow> spsc_step s t \<Longrightarrow> spsc_reach h t"

text \<open>What each side knows about its local copies.\<close>

fun prod_ok :: "fifo_spsc \<Rightarrow> prod_pc \<Rightarrow> bool" where
  "prod_ok h (P_r d r) \<longleftrightarrow>
     unat (fifo_w_ptr h - fifo_r_ptr h) \<le> unat (fifo_w_ptr h - r)"
| "prod_ok h (P_rw d r w) \<longleftrightarrow> w = fifo_w_ptr h \<and>
     unat (fifo_w_ptr h - fifo_r_ptr h) \<le> unat (fifo_w_ptr h - r)"
| "prod_ok h (P_stored d w) \<longleftrightarrow> w = fifo_w_ptr h \<and>
     unat (fifo_w_ptr h - fifo_r_ptr h) < unat (fifo_size h) \<and>
     fifo_buf h ! (unat w mod unat (fifo_size h)) = d"
| "prod_ok h _ \<longleftrightarrow> True"

fun cons_ok :: "fifo_spsc \<Rightarrow> cons_pc \<Rightarrow> bool" where
  "cons_ok h (C_w w) \<longleftrightarrow> unat (w - fifo_r_ptr h) \<le> unat (fifo_w_ptr h - fifo_r_ptr h)"
| "cons_ok h (C_wr w r) \<longleftrightarrow> r = fifo_r_ptr h \<and>
     unat (w - fifo_r_ptr h) \<le> unat (fifo_w_ptr h - fifo_r_ptr h)"
| "cons_ok h (C_val v r) \<longleftrightarrow> r = fifo_r_ptr h \<and> (\<exists>xs. fifo_list h = v # xs)"
| "cons_ok h _ \<longleftrightarrow> True"

definition spsc_inv :: "spsc \<Rightarrow> bool" where
  "spsc_inv s \<longleftrightarrow> fifo_inv (sp_fifo s) \<and> prod_ok (sp_fifo s) (sp_prod s) \<and>
     cons_ok (sp_fifo s) (sp_cons s) \<and> sp_consumed s @ fifo_list (sp_fifo s) = sp_written s"

subsection \<open>The three writes to shared memory\<close>

lemma fifo_store_slot:
  assumes inv: "fifo_inv h" and c: "unat (fifo_w_ptr h - fifo_r_ptr h) < unat (fifo_size h)"
  shows "fifo_list (h\<lparr>fifo_buf := (fifo_buf h)[unat (fifo_w_ptr h) mod unat (fifo_size h) := d]\<rparr>) =
      fifo_list h"
proof -
  let ?n = "unat (fifo_size h)" and ?c = "unat (fifo_w_ptr h - fifo_r_ptr h)"
  let ?r = "unat (fifo_r_ptr h)"
  have i: "unat (fifo_w_ptr h) mod ?n = (?r + ?c) mod ?n" and len: "?n \<le> length (fifo_buf h)"
    using unat_add_diff_cancel_mod [of "fifo_size h" "fifo_r_ptr h" "fifo_w_ptr h"] inv
    by (simp_all add: fifo_inv_def)
  have "ring_list ((fifo_buf h)[(?r + ?c) mod ?n := d]) ?n ?r ?c =
      take ?c (ring_list ((fifo_buf h)[(?r + ?c) mod ?n := d]) ?n ?r (Suc ?c))"
    by (simp add: take_ring_list)
  also have "\<dots> = ring_list (fifo_buf h) ?n ?r ?c"
    by (simp add: ring_list_write [OF c len])
  finally show ?thesis by (simp add: fifo_list_def i)
qed

lemma fifo_publish_w:
  assumes inv: "fifo_inv h" and c: "unat (fifo_w_ptr h - fifo_r_ptr h) < unat (fifo_size h)"
  shows "fifo_list (h\<lparr>fifo_w_ptr := fifo_w_ptr h + 1\<rparr>) =
      fifo_list h @ [fifo_buf h ! (unat (fifo_w_ptr h) mod unat (fifo_size h))]"
    and "fifo_inv (h\<lparr>fifo_w_ptr := fifo_w_ptr h + 1\<rparr>)"
    and "unat (fifo_w_ptr h + 1 - fifo_r_ptr h) = Suc (unat (fifo_w_ptr h - fifo_r_ptr h))"
proof -
  let ?n = "unat (fifo_size h)" and ?c = "unat (fifo_w_ptr h - fifo_r_ptr h)"
  let ?r = "unat (fifo_r_ptr h)"
  have i: "unat (fifo_w_ptr h) mod ?n = (?r + ?c) mod ?n"
    using unat_add_diff_cancel_mod [of "fifo_size h" "fifo_r_ptr h" "fifo_w_ptr h"] inv
    by (simp add: fifo_inv_def)
  show u: "unat (fifo_w_ptr h + 1 - fifo_r_ptr h) = Suc ?c"
    using unat_add_diff [of "fifo_w_ptr h" "fifo_r_ptr h" 1] c fifo_inv_size_bound [OF inv] by simp
  show "fifo_list (h\<lparr>fifo_w_ptr := fifo_w_ptr h + 1\<rparr>) =
      fifo_list h @ [fifo_buf h ! (unat (fifo_w_ptr h) mod ?n)]"
    using ring_list_append [of "fifo_buf h" ?n ?r ?c 1]
    by (simp add: fifo_list_def u i ring_list_Suc)
  show "fifo_inv (h\<lparr>fifo_w_ptr := fifo_w_ptr h + 1\<rparr>)" using inv c by (simp add: fifo_inv_def u)
qed

lemma fifo_publish_r:
  assumes inv: "fifo_inv h" and l: "fifo_list h = v # xs"
  shows "fifo_list (h\<lparr>fifo_r_ptr := fifo_r_ptr h + 1\<rparr>) = xs"
    and "fifo_inv (h\<lparr>fifo_r_ptr := fifo_r_ptr h + 1\<rparr>)"
    and "unat (fifo_w_ptr h - (fifo_r_ptr h + 1)) = unat (fifo_w_ptr h - fifo_r_ptr h) - 1"
proof -
  obtain h' where h': "fifo_read_data (Some h) (Some 0) = Some (BUFF_OK, Some h', Some v)"
    "fifo_inv h'" "fifo_list h' = xs"
    using fifo_read_data_ok [OF inv l] by metis
  then have eq: "h' = h\<lparr>fifo_r_ptr := fifo_r_ptr h + 1\<rparr>"
    by (auto simp: fifo_read_data_def Let_def bind_eq_Some_conv split: if_splits)
  show "fifo_list (h\<lparr>fifo_r_ptr := fifo_r_ptr h + 1\<rparr>) = xs"
    and "fifo_inv (h\<lparr>fifo_r_ptr := fifo_r_ptr h + 1\<rparr>)" using h' eq by auto
  have "1 \<le> unat (fifo_w_ptr h - fifo_r_ptr h)" using l length_fifo_list [of h] by simp
  then show "unat (fifo_w_ptr h - (fifo_r_ptr h + 1)) = unat (fifo_w_ptr h - fifo_r_ptr h) - 1"
    using unat_diff_add [of 1 "fifo_w_ptr h" "fifo_r_ptr h"] by simp
qed

lemma fifo_list_head:
  assumes "0 < unat (fifo_w_ptr h - fifo_r_ptr h)"
  shows "\<exists>xs. fifo_list h = fifo_buf h ! (unat (fifo_r_ptr h) mod unat (fifo_size h)) # xs"
  using assms by (cases "unat (fifo_w_ptr h - fifo_r_ptr h)") (auto simp: fifo_list_def ring_list_Suc)

lemma prod_ok_publish_r:
  "prod_ok h p \<Longrightarrow> fifo_inv h \<Longrightarrow> fifo_list h = v # xs \<Longrightarrow>
   prod_ok (h\<lparr>fifo_r_ptr := fifo_r_ptr h + 1\<rparr>) p"
  by (cases p) (auto simp: fifo_publish_r(3))

lemma cons_ok_publish_w:
  "cons_ok h c \<Longrightarrow> fifo_inv h \<Longrightarrow> unat (fifo_w_ptr h - fifo_r_ptr h) < unat (fifo_size h) \<Longrightarrow>
   cons_ok (h\<lparr>fifo_w_ptr := fifo_w_ptr h + 1\<rparr>) c"
  by (cases c) (auto simp: fifo_publish_w)

lemma cons_ok_store:
  "cons_ok h c \<Longrightarrow> fifo_list (h\<lparr>fifo_buf := b\<rparr>) = fifo_list h \<Longrightarrow> cons_ok (h\<lparr>fifo_buf := b\<rparr>) c"
  by (cases c) auto

lemma spsc_step_inv: "spsc_step s t \<Longrightarrow> spsc_inv s \<Longrightarrow> spsc_inv t"
proof (induction rule: spsc_step.induct)
  case (p_store s d r w b)
  let ?h = "sp_fifo s"
  have inv: "fifo_inv ?h" and w: "w = fifo_w_ptr ?h"
    and c: "unat (fifo_w_ptr ?h - fifo_r_ptr ?h) < unat (fifo_size ?h)"
    using p_store by (auto simp: spsc_inv_def word_le_nat_alt)
  have i: "unat (w AND fifo_mask ?h) = unat (fifo_w_ptr ?h) mod unat (fifo_size ?h)"
    using fifo_inv_idx [OF inv] w by simp
  have b: "b = (fifo_buf ?h)[unat (fifo_w_ptr ?h) mod unat (fifo_size ?h) := d]"
    and lt: "unat (fifo_w_ptr ?h) mod unat (fifo_size ?h) < length (fifo_buf ?h)"
    using p_store(3) by (auto simp: i arr_set_def split: if_splits)
  have l: "fifo_list (?h\<lparr>fifo_buf := b\<rparr>) = fifo_list ?h" unfolding b by (rule fifo_store_slot [OF inv c])
  have "fifo_inv (?h\<lparr>fifo_buf := b\<rparr>)" using inv b by (simp add: fifo_inv_def)
  moreover have "prod_ok (?h\<lparr>fifo_buf := b\<rparr>) (P_stored d w)" using b w c lt by simp
  moreover have "cons_ok (?h\<lparr>fifo_buf := b\<rparr>) (sp_cons s)"
    using p_store(4) by (intro cons_ok_store [OF _ l]) (simp add: spsc_inv_def)
  ultimately show ?case using p_store(4) l by (auto simp: spsc_inv_def)
next
  case (p_publish s d w)
  let ?h = "sp_fifo s"
  have a: "fifo_inv ?h" "unat (fifo_w_ptr ?h - fifo_r_ptr ?h) < unat (fifo_size ?h)" "w = fifo_w_ptr ?h"
    "fifo_buf ?h ! (unat (fifo_w_ptr ?h) mod unat (fifo_size ?h)) = d"
    using p_publish by (auto simp: spsc_inv_def)
  show ?case using p_publish(2) a cons_ok_publish_w [OF _ a(1,2)]
    by (simp add: spsc_inv_def fifo_publish_w [OF a(1,2)] flip: append_assoc)
next
  case (c_read s w r v)
  let ?h = "sp_fifo s"
  have inv: "fifo_inv ?h" and r: "r = fifo_r_ptr ?h"
    and le: "unat (w - fifo_r_ptr ?h) \<le> unat (fifo_w_ptr ?h - fifo_r_ptr ?h)"
    using c_read by (auto simp: spsc_inv_def)
  have "w - fifo_r_ptr ?h \<noteq> 0" using c_read(2) r by auto
  then have "0 < unat (w - fifo_r_ptr ?h)" by (simp add: unat_gt_0)
  then have "0 < unat (fifo_w_ptr ?h - fifo_r_ptr ?h)" using le by (rule less_le_trans)
  from fifo_list_head [OF this] show ?case
    using c_read(3,4) r by (auto simp: spsc_inv_def arr_get_eq_Some fifo_inv_idx [OF inv])
next
  case (c_publish s v r)
  let ?h = "sp_fifo s"
  obtain xs where a: "fifo_inv ?h" "fifo_list ?h = v # xs" "r = fifo_r_ptr ?h"
    using c_publish by (auto simp: spsc_inv_def)
  show ?case using c_publish(2) a prod_ok_publish_r [OF _ a(1,2)]
    by (simp add: spsc_inv_def fifo_publish_r [OF a(1,2)])
qed (auto simp: spsc_inv_def)

lemma spsc_reach_inv:
  assumes "spsc_reach h s" "fifo_inv h" "fifo_list h = []"
  shows "spsc_inv s"
  using assms
proof (induction rule: spsc_reach.induct)
  case reach_init
  then show ?case by (simp add: spsc_init_def spsc_inv_def)
next
  case (reach_step s t)
  then show ?case by (blast intro: spsc_step_inv)
qed

text \<open>No reachable state is stuck on a slot access: both indices are inside the buffer.\<close>

lemma spsc_no_fault:
  assumes "spsc_inv s"
  shows "sp_prod s = P_rw d r w \<Longrightarrow>
      \<exists>b. arr_set (fifo_buf (sp_fifo s)) (unat (w AND fifo_mask (sp_fifo s))) d = Some b"
    and "\<exists>v. arr_get (fifo_buf (sp_fifo s)) (unat (r' AND fifo_mask (sp_fifo s))) = Some v"
proof -
  have inv: "fifo_inv (sp_fifo s)" using assms by (simp add: spsc_inv_def)
  from fifo_inv_idx_less [OF inv] show "sp_prod s = P_rw d r w \<Longrightarrow>
      \<exists>b. arr_set (fifo_buf (sp_fifo s)) (unat (w AND fifo_mask (sp_fifo s))) d = Some b"
    and "\<exists>v. arr_get (fifo_buf (sp_fifo s)) (unat (r' AND fifo_mask (sp_fifo s))) = Some v"
    by simp_all
qed

subsection \<open>The steps are those of the functions\<close>

lemma spsc_size: "spsc_step s t \<Longrightarrow> fifo_size (sp_fifo t) = fifo_size (sp_fifo s)"
  by (induction rule: spsc_step.induct) simp_all

lemma spsc_reach_size: "spsc_reach h s \<Longrightarrow> fifo_size (sp_fifo s) = fifo_size h"
  by (induction rule: spsc_reach.induct) (simp_all add: spsc_init_def spsc_size)

lemma spsc_reach_star: "spsc_step\<^sup>*\<^sup>* s t \<Longrightarrow> spsc_reach h s \<Longrightarrow> spsc_reach h t"
  by (induction rule: rtranclp_induct) (auto intro: reach_step)

lemma spsc_steps:
  "spsc_step s t \<Longrightarrow> spsc_step t u \<Longrightarrow> spsc_step\<^sup>*\<^sup>* s u"
  "spsc_step s t \<Longrightarrow> spsc_step t u \<Longrightarrow> spsc_step u v \<Longrightarrow> spsc_step\<^sup>*\<^sup>* s v"
  by (auto intro: converse_rtranclp_into_rtranclp)

text \<open>A producer that runs alone performs exactly \<open>fifo_write_data\<close>, a consumer \<open>fifo_read_data\<close>.\<close>

lemma spsc_write_alone:
  assumes "sp_prod s = P_idle" "fifo_write_data (Some (sp_fifo s)) d = Some (c, Some h')"
  shows "spsc_step\<^sup>*\<^sup>* s (s\<lparr>sp_fifo := h', sp_prod := P_idle,
           sp_written := sp_written s @ (if c = BUFF_OK then [d] else [])\<rparr>)"
proof -
  let ?h = "sp_fifo s"
  let ?s2 = "s\<lparr>sp_prod := P_rw d (fifo_r_ptr ?h) (fifo_w_ptr ?h)\<rparr>"
  have 1: "spsc_step s (s\<lparr>sp_prod := P_call d\<rparr>)" using assms(1) by (rule p_call)
  have 2: "spsc_step (s\<lparr>sp_prod := P_call d\<rparr>) (s\<lparr>sp_prod := P_r d (fifo_r_ptr ?h)\<rparr>)"
    using p_load_r [of "s\<lparr>sp_prod := P_call d\<rparr>" d] by simp
  have 3: "spsc_step (s\<lparr>sp_prod := P_r d (fifo_r_ptr ?h)\<rparr>) ?s2"
    using p_load_w [of "s\<lparr>sp_prod := P_r d (fifo_r_ptr ?h)\<rparr>" d "fifo_r_ptr ?h"] by simp
  have pre: "spsc_step\<^sup>*\<^sup>* s ?s2"
    using 1 2 3 by (rule spsc_steps)
  show ?thesis
  proof (cases "fifo_size ?h \<le> fifo_w_ptr ?h - fifo_r_ptr ?h")
    case True
    then have "c = BUFF_ERR_FULL" "h' = ?h" using assms(2) by (auto simp: fifo_write_data_def Let_def)
    with p_full [of ?s2 d "fifo_r_ptr ?h" "fifo_w_ptr ?h"] True pre show ?thesis
      by (simp add: rtranclp.rtrancl_into_rtrancl)
  next
    case False
    then obtain b where b: "arr_set (fifo_buf ?h) (unat (fifo_w_ptr ?h AND fifo_mask ?h)) d = Some b"
      "c = BUFF_OK" "h' = ?h\<lparr>fifo_buf := b, fifo_w_ptr := fifo_w_ptr ?h + 1\<rparr>"
      using assms(2) by (auto simp: fifo_write_data_def Let_def bind_eq_Some_conv)
    let ?s3 = "s\<lparr>sp_fifo := ?h\<lparr>fifo_buf := b\<rparr>, sp_prod := P_stored d (fifo_w_ptr ?h)\<rparr>"
    have "spsc_step ?s2 ?s3"
      using p_store [of ?s2 d "fifo_r_ptr ?h" "fifo_w_ptr ?h" b] False b(1) by simp
    moreover have "spsc_step ?s3 (s\<lparr>sp_fifo := h', sp_prod := P_idle, sp_written := sp_written s @ [d]\<rparr>)"
      using p_publish [of ?s3 d "fifo_w_ptr ?h"] b(3) by simp
    ultimately show ?thesis using pre b(2) by (simp add: rtranclp.rtrancl_into_rtrancl)
  qed
qed

lemma spsc_read_alone:
  assumes "sp_cons s = C_idle" "fifo_read_data (Some (sp_fifo s)) (Some d) = Some (c, Some h', Some v)"
  shows "spsc_step\<^sup>*\<^sup>* s (s\<lparr>sp_fifo := h', sp_cons := C_idle,
           sp_consumed := sp_consumed s @ (if c = BUFF_OK then [v] else [])\<rparr>)"
proof -
  let ?h = "sp_fifo s"
  let ?s2 = "s\<lparr>sp_cons := C_wr (fifo_w_ptr ?h) (fifo_r_ptr ?h)\<rparr>"
  have 1: "spsc_step s (s\<lparr>sp_cons := C_w (fifo_w_ptr ?h)\<rparr>)" using assms(1) by (rule c_load_w)
  have 2: "spsc_step (s\<lparr>sp_cons := C_w (fifo_w_ptr ?h)\<rparr>) ?s2"
    using c_load_r [of "s\<lparr>sp_cons := C_w (fifo_w_ptr ?h)\<rparr>" "fifo_w_ptr ?h"] by simp
  have pre: "spsc_step\<^sup>*\<^sup>* s ?s2"
    using 1 2 by (rule spsc_steps)
  show ?thesis
  proof (cases "fifo_r_ptr ?h = fifo_w_ptr ?h")
    case True
    then have "c = BUFF_ERR_EMPTY" "h' = ?h" using assms(2) by (auto simp: fifo_read_data_def Let_def)
    with c_empty [of ?s2 "fifo_w_ptr ?h" "fifo_r_ptr ?h"] True pre show ?thesis
      by (simp add: rtranclp.rtrancl_into_rtrancl)
  next
    case False
    then have b: "arr_get (fifo_buf ?h) (unat (fifo_r_ptr ?h AND fifo_mask ?h)) = Some v"
      "c = BUFF_OK" "h' = ?h\<lparr>fifo_r_ptr := fifo_r_ptr ?h + 1\<rparr>"
      using assms(2) by (auto simp: fifo_read_data_def Let_def bind_eq_Some_conv)
    let ?s3 = "s\<lparr>sp_cons := C_val v (fifo_r_ptr ?h)\<rparr>"
    have "spsc_step ?s2 ?s3"
      using c_read [of ?s2 "fifo_w_ptr ?h" "fifo_r_ptr ?h" v] False b(1) by simp
    moreover have "spsc_step ?s3 (s\<lparr>sp_fifo := h', sp_cons := C_idle, sp_consumed := sp_consumed s @ [v]\<rparr>)"
      using c_publish [of ?s3 v "fifo_r_ptr ?h"] b(3) by simp
    ultimately show ?thesis using pre b(2) by (simp add: rtranclp.rtrancl_into_rtrancl)
  qed
qed

subsection \<open>Properties\<close>

text \<open>
  C2. Lock-free correctness of the ring: start from an initialised ring and interleave one producer
  and one consumer in any way, memory access by memory access. At every moment the values consumed
  so far followed by the values in the ring are exactly the values written so far, in order; the ring
  never holds more than its capacity; and a slot access never leaves the buffer.
\<close>

theorem spsc_fifo_order:
  assumes "fifo_init (Some h0) (Some b) n = (BUFF_OK, Some h)" "unat n \<le> length b" "spsc_reach h s"
  shows "sp_consumed s @ fifo_list (sp_fifo s) = sp_written s \<and>
    length (fifo_list (sp_fifo s)) \<le> unat n \<and>
    (\<forall>p. unat (p AND fifo_mask (sp_fifo s)) < length (fifo_buf (sp_fifo s)))"
proof -
  have "pow2_u16 n" using assms(1) by (auto simp: fifo_init_def pow2_u16_def split: if_splits)
  with fifo_init_inv [OF _ assms(2), of h0] assms(1)
  have h: "fifo_inv h" "fifo_list h = []" "fifo_size h = n" by auto
  have inv: "spsc_inv s" using spsc_reach_inv [OF assms(3) h(1,2)] .
  then have fi: "fifo_inv (sp_fifo s)" by (simp add: spsc_inv_def)
  with fifo_inv_idx_less [OF fi] inv fifo_list_bounded [OF fi] spsc_reach_size [OF assms(3)] h(3) show ?thesis
    by (simp add: spsc_inv_def)
qed

theorem spsc_fifo_order_witness:
  "\<exists>s :: spsc. sp_written s = [7] \<and> sp_consumed s @ fifo_list (sp_fifo s) = [7] \<and>
       unat (fifo_size (sp_fifo s)) = 2"
proof -
  let ?h = "\<lparr>fifo_buf = [0, 0], fifo_size = 2, fifo_mask = 1, fifo_w_ptr = 0, fifo_r_ptr = 0\<rparr>"
  let ?h' = "\<lparr>fifo_buf = [7, 0], fifo_size = 2, fifo_mask = 1, fifo_w_ptr = 1, fifo_r_ptr = 0\<rparr>"
  let ?s = "(spsc_init ?h)\<lparr>sp_fifo := ?h', sp_prod := P_idle, sp_written := [7]\<rparr>"
  have i: "fifo_init (Some ?h) (Some [0, 0]) 2 = (BUFF_OK, Some ?h)" by (simp add: fifo_init_def)
  have "fifo_write_data (Some ?h) 7 = Some (BUFF_OK, Some ?h')"
    by (simp add: fifo_write_data_def arr_set_def Let_def word_le_nat_alt)
  with spsc_write_alone [of "spsc_init ?h" 7 BUFF_OK ?h'] have "spsc_step\<^sup>*\<^sup>* (spsc_init ?h) ?s"
    by (simp add: spsc_init_def)
  then have "spsc_reach ?h ?s" using reach_init by (rule spsc_reach_star)
  then have "sp_written ?s = [7] \<and> sp_consumed ?s @ fifo_list (sp_fifo ?s) = [7] \<and>
      unat (fifo_size (sp_fifo ?s)) = 2"
    using spsc_fifo_order [OF i, of ?s] by simp
  then show ?thesis by blast
qed

end
