(* ===== verification/Double_Buffer.thy ===== *)
theory Double_Buffer
  imports Fifo
begin

text \<open>
  \<^verbatim>\<open>algorithm/buffer/double_buffer.c\<close>: the ping-pong pair \<open>double_buffer_spsc\<close>, whose write
  side and read side change places only when a write fills the write side while
  the read side is already drained, and the pair \<open>dual_buffer_spsc\<close> with independent
  counters for its two linear buffers.
\<close>

subsection \<open>double_buffer\<close>

record double_buffer_spsc =
  db_buf1 :: "uintptr list"
  db_buf2 :: "uintptr list"
  db_size :: u16
  db_mask :: u16
  db_w_ptr :: u16
  db_r_ptr :: u16

definition double_buffer_swap :: "double_buffer_spsc \<Rightarrow> double_buffer_spsc" where
  "double_buffer_swap h = h\<lparr>db_buf1 := db_buf2 h, db_buf2 := db_buf1 h, db_r_ptr := 0, db_w_ptr := 0\<rparr>"

definition double_buffer_init ::
    "double_buffer_spsc option \<Rightarrow> uintptr list option \<Rightarrow> uintptr list option \<Rightarrow> u16 \<Rightarrow>
     int \<times> double_buffer_spsc option" where
  "double_buffer_init handle buf1 buf2 n =
     (case (handle, buf1, buf2) of
        (Some h, Some b1, Some b2) \<Rightarrow>
          if n = 0 \<or> n AND (n - 1) \<noteq> 0 then (BUFF_ERR_INVAL, handle)
          else (BUFF_OK, Some \<lparr>db_buf1 = b1, db_buf2 = b2, db_size = n, db_mask = n - 1,
                               db_w_ptr = 0, db_r_ptr = n\<rparr>)
      | _ \<Rightarrow> (BUFF_ERR_INVAL, handle))"

text \<open>The exchange at the end of both write functions: written full, and the read side drained.\<close>

definition double_buffer_flip :: "double_buffer_spsc \<Rightarrow> double_buffer_spsc" where
  "double_buffer_flip h =
     (if db_w_ptr h = db_size h \<and> db_r_ptr h = db_size h then double_buffer_swap h else h)"

definition double_buffer_write_data ::
    "double_buffer_spsc option \<Rightarrow> uintptr \<Rightarrow> (int \<times> double_buffer_spsc option) option" where
  "double_buffer_write_data handle data =
     (case handle of
        None \<Rightarrow> Some (BUFF_ERR_INVAL, None)
      | Some h \<Rightarrow>
          let write_ptr = db_w_ptr h in
          if db_size h \<le> write_ptr then Some (BUFF_ERR_FULL, Some h)
          else do {
            b \<leftarrow> arr_set (db_buf1 h) (unat write_ptr) data;
            Some (BUFF_OK, Some (double_buffer_flip (h\<lparr>db_buf1 := b, db_w_ptr := write_ptr + 1\<rparr>)))
          })"

definition double_buffer_read_data ::
    "double_buffer_spsc option \<Rightarrow> uintptr option \<Rightarrow>
     (int \<times> double_buffer_spsc option \<times> uintptr option) option" where
  "double_buffer_read_data handle p_data =
     (case (handle, p_data) of
        (Some h, Some _) \<Rightarrow>
          let read_ptr = db_r_ptr h in
          if db_size h \<le> read_ptr then Some (BUFF_ERR_EMPTY, Some h, p_data)
          else do {
            v \<leftarrow> arr_get (db_buf2 h) (unat read_ptr);
            Some (BUFF_OK, Some (h\<lparr>db_r_ptr := read_ptr + 1\<rparr>), Some v)
          }
      | _ \<Rightarrow> Some (BUFF_ERR_INVAL, handle, p_data))"

definition double_buffer_write_block ::
    "double_buffer_spsc option \<Rightarrow> uintptr list option \<Rightarrow> u16 \<Rightarrow>
     (int \<times> double_buffer_spsc option \<times> u16) option" where
  "double_buffer_write_block handle p_data len =
     (case (handle, p_data) of
        (Some h, Some src) \<Rightarrow>
          if len = 0 then Some (BUFF_ERR_INVAL, Some h, 0)
          else
            let write_ptr = db_w_ptr h; free_len = db_size h - write_ptr in
            if free_len = 0 then Some (BUFF_ERR_FULL, Some h, 0)
            else
              let len' = (if free_len < len then free_len else len) in
              do {
                b \<leftarrow> mem_copy (db_buf1 h) (unat write_ptr) src 0 (unat len');
                Some (BUFF_OK, Some (double_buffer_flip (h\<lparr>db_buf1 := b, db_w_ptr := write_ptr + len'\<rparr>)), len')
              }
      | _ \<Rightarrow> Some (BUFF_ERR_INVAL, handle, 0))"

definition double_buffer_read_block ::
    "double_buffer_spsc option \<Rightarrow> uintptr list option \<Rightarrow> u16 \<Rightarrow>
     (int \<times> double_buffer_spsc option \<times> uintptr list option \<times> u16) option" where
  "double_buffer_read_block handle p_data len =
     (case (handle, p_data) of
        (Some h, Some dst) \<Rightarrow>
          if len = 0 then Some (BUFF_ERR_INVAL, Some h, p_data, 0)
          else
            let read_ptr = db_r_ptr h; avail = db_size h - read_ptr in
            if avail = 0 then Some (BUFF_ERR_EMPTY, Some h, p_data, 0)
            else
              let len' = (if avail < len then avail else len) in
              do {
                d \<leftarrow> mem_copy dst 0 (db_buf2 h) (unat read_ptr) (unat len');
                Some (BUFF_OK, Some (h\<lparr>db_r_ptr := read_ptr + len'\<rparr>), Some d, len')
              }
      | _ \<Rightarrow> Some (BUFF_ERR_INVAL, handle, p_data, 0))"

definition double_buffer_get_count :: "double_buffer_spsc option \<Rightarrow> u16 option \<Rightarrow> int \<times> u16 option" where
  "double_buffer_get_count handle p_count =
     (case (handle, p_count) of
        (Some h, Some _) \<Rightarrow> (BUFF_OK, Some (db_size h - db_r_ptr h))
      | _ \<Rightarrow> (BUFF_ERR_INVAL, p_count))"

definition double_buffer_isempty :: "double_buffer_spsc option \<Rightarrow> bool option \<Rightarrow> int \<times> bool option" where
  "double_buffer_isempty handle p_empty =
     (case (handle, p_empty) of
        (Some h, Some _) \<Rightarrow> (BUFF_OK, Some (db_size h \<le> db_r_ptr h))
      | _ \<Rightarrow> (BUFF_ERR_INVAL, p_empty))"

definition double_buffer_isfull :: "double_buffer_spsc option \<Rightarrow> bool option \<Rightarrow> int \<times> bool option" where
  "double_buffer_isfull handle p_full =
     (case (handle, p_full) of
        (Some h, Some _) \<Rightarrow> (BUFF_OK, Some (db_size h \<le> db_w_ptr h))
      | _ \<Rightarrow> (BUFF_ERR_INVAL, p_full))"

text \<open>The block functions as a client calls them, with their \<open>p_actual\<close> result.\<close>

definition db_put :: "double_buffer_spsc \<Rightarrow> uintptr list \<Rightarrow> nat \<times> double_buffer_spsc" where
  "db_put h xs =
     (case double_buffer_write_block (Some h) (Some xs) (of_nat (length xs)) of
        Some (_, Some h', k) \<Rightarrow> (unat k, h') | _ \<Rightarrow> (0, h))"

definition db_get :: "double_buffer_spsc \<Rightarrow> nat \<Rightarrow> uintptr list \<times> double_buffer_spsc" where
  "db_get h k =
     (case double_buffer_read_block (Some h) (Some (replicate k 0)) (of_nat k) of
        Some (_, Some h', Some d, a) \<Rightarrow> (take (unat a) d, h') | _ \<Rightarrow> ([], h))"

abbreviation db_cap :: "double_buffer_spsc \<Rightarrow> nat" where "db_cap h \<equiv> unat (db_size h)"
abbreviation db_w :: "double_buffer_spsc \<Rightarrow> nat" where "db_w h \<equiv> unat (db_w_ptr h)"
abbreviation db_r :: "double_buffer_spsc \<Rightarrow> nat" where "db_r h \<equiv> unat (db_r_ptr h)"

definition db_inv :: "double_buffer_spsc \<Rightarrow> bool" where
  "db_inv h \<longleftrightarrow> db_size h \<noteq> 0 \<and> db_w h \<le> db_cap h \<and> db_r h \<le> db_cap h \<and>
     db_cap h \<le> length (db_buf1 h) \<and> db_cap h \<le> length (db_buf2 h)"

definition db_list :: "double_buffer_spsc \<Rightarrow> uintptr list" where
  "db_list h = drop (db_r h) (take (db_cap h) (db_buf2 h)) @ take (db_w h) (db_buf1 h)"

lemma double_buffer_init_inv:
  "double_buffer_init (Some h0) (Some b1) (Some b2) n = (BUFF_OK, Some h) \<Longrightarrow>
   unat n \<le> length b1 \<Longrightarrow> unat n \<le> length b2 \<Longrightarrow>
   db_inv h \<and> db_list h = [] \<and> db_size h = n \<and> db_w_ptr h = 0 \<and> db_r_ptr h = n"
  by (auto simp: double_buffer_init_def db_inv_def db_list_def split: if_splits)

lemma double_buffer_flip_inv: "db_inv h \<Longrightarrow> db_inv (double_buffer_flip h)"
  by (simp add: db_inv_def double_buffer_flip_def double_buffer_swap_def)

lemma double_buffer_flip_list: "db_list (double_buffer_flip h) = db_list h"
  by (simp add: db_list_def double_buffer_flip_def double_buffer_swap_def)

lemma double_buffer_flip_size: "db_size (double_buffer_flip h) = db_size h"
  by (simp add: double_buffer_flip_def double_buffer_swap_def)

lemma db_put_eq:
  assumes inv: "db_inv h" and len: "length xs < 65536"
  shows "db_put h xs =
    (let k = min (length xs) (db_cap h - db_w h) in
     (k, if k = 0 then h
         else double_buffer_flip (h\<lparr>db_buf1 := blit (db_buf1 h) (db_w h) (take k xs),
                                    db_w_ptr := db_w_ptr h + of_nat k\<rparr>)))"
proof -
  let ?l = "of_nat (length xs) :: u16" and ?f = "db_size h - db_w_ptr h"
  have l: "unat ?l = length xs" using len by (rule unat_of_nat_u16)
  have f: "unat ?f = db_cap h - db_w h" using inv by (simp add: db_inv_def unat_sub word_le_nat_alt)
  define k where "k = (if ?f < ?l then ?f else ?l)"
  have k: "unat k = min (length xs) (db_cap h - db_w h)" using f l by (auto simp: k_def word_less_nat_alt)
  have kw: "k = of_nat (min (length xs) (db_cap h - db_w h))" by (simp flip: k)
  have z: "?l = 0 \<longleftrightarrow> length xs = 0" "?f = 0 \<longleftrightarrow> db_cap h - db_w h = 0" using l f by (metis unat_eq_zero)+
  have mc: "mem_copy (db_buf1 h) (db_w h) xs 0 (unat k) = Some (blit (db_buf1 h) (db_w h) (take (unat k) xs))"
    using inv k by (intro mem_copy_Some [THEN trans]) (auto simp: db_inv_def)
  have nz: "db_size h \<noteq> db_w_ptr h \<longrightarrow> db_cap h - db_w h \<noteq> 0" using z(2) by auto
  show ?thesis
    using mc k nz by (simp add: db_put_def double_buffer_write_block_def Let_def z flip: k_def) (auto simp: kw min_def split: if_splits)
qed

lemma db_get_eq:
  assumes inv: "db_inv h" and len: "k < 65536"
  shows "db_get h k =
    (let j = min k (db_cap h - db_r h) in
     (take j (drop (db_r h) (db_buf2 h)), h\<lparr>db_r_ptr := db_r_ptr h + of_nat j\<rparr>))"
proof -
  let ?l = "of_nat k :: u16" and ?f = "db_size h - db_r_ptr h"
  have l: "unat ?l = k" using len by (rule unat_of_nat_u16)
  have f: "unat ?f = db_cap h - db_r h" using inv by (simp add: db_inv_def unat_sub word_le_nat_alt)
  define j where "j = (if ?f < ?l then ?f else ?l)"
  have j: "unat j = min k (db_cap h - db_r h)" using f l by (auto simp: j_def word_less_nat_alt)
  have jw: "j = of_nat (min k (db_cap h - db_r h))" by (simp flip: j)
  have z: "?l = 0 \<longleftrightarrow> k = 0" "?f = 0 \<longleftrightarrow> db_cap h - db_r h = 0" using l f by (metis unat_eq_zero)+
  have mc: "mem_copy (replicate k 0) 0 (db_buf2 h) (db_r h) (unat j) =
      Some (blit (replicate k 0) 0 (take (unat j) (drop (db_r h) (db_buf2 h))))"
    using inv j by (intro mem_copy_Some [THEN trans]) (auto simp: db_inv_def)
  have "unat j \<le> length (db_buf2 h) - db_r h" using inv j by (auto simp: db_inv_def)
  then show ?thesis
    using mc j by (simp add: db_get_def double_buffer_read_block_def Let_def z blit_def flip: j_def) (auto simp: jw)
qed

interpretation db: fifo_channel db_inv db_list db_put db_get "65536"
proof (unfold_locales, goal_cases)
  case (1 q xs n q')
  define k where "k = min (length xs) (db_cap q - db_w q)"
  let ?h = "q\<lparr>db_buf1 := blit (db_buf1 q) (db_w q) (take k xs), db_w_ptr := db_w_ptr q + of_nat k\<rparr>"
  have n: "n = k" and q': "q' = (if k = 0 then q else double_buffer_flip ?h)"
    using 1(3) unfolding db_put_eq [OF 1(1,2)] Let_def k_def [symmetric] by auto
  have b: "db_w q \<le> db_cap q" "db_cap q < 65536" "db_cap q \<le> length (db_buf1 q)"
    using 1(1) unsigned_less [of "db_size q", where ?'a = nat] by (simp_all add: db_inv_def)
  have u: "unat (db_w_ptr q + of_nat k) = db_w q + k" and kl: "k \<le> length xs" "db_w q + k \<le> db_cap q"
    using b by (auto intro!: unat_add_of_nat simp: k_def)
  have "db_inv ?h" using 1(1) kl b by (simp add: db_inv_def u length_blit)
  moreover have "db_list ?h = db_list q @ take k xs"
    using kl b by (simp add: db_list_def u blit_def)
  ultimately show ?case
    using 1(1) kl n by (simp add: q' double_buffer_flip_inv double_buffer_flip_list)
next
  case (2 q k ys q')
  define j where "j = min k (db_cap q - db_r q)"
  have ys: "ys = take j (drop (db_r q) (db_buf2 q))" and q': "q' = q\<lparr>db_r_ptr := db_r_ptr q + of_nat j\<rparr>"
    using 2(3) unfolding db_get_eq [OF 2(1,2)] Let_def j_def [symmetric] by auto
  have b: "db_r q \<le> db_cap q" "db_cap q < 65536" "db_cap q \<le> length (db_buf2 q)"
    using 2(1) unsigned_less [of "db_size q", where ?'a = nat] by (simp_all add: db_inv_def)
  have u: "unat (db_r_ptr q + of_nat j) = db_r q + j" and j: "j \<le> k" "db_r q + j \<le> db_cap q"
    using b by (auto intro!: unat_add_of_nat simp: j_def)
  have "drop (db_r q) (take (db_cap q) (db_buf2 q)) = ys @ drop (db_r q + j) (take (db_cap q) (db_buf2 q))"
    using append_take_drop_id [of j "drop (db_r q) (take (db_cap q) (db_buf2 q))", symmetric] j(2)
    by (simp add: ys drop_take min_def add.commute)
  then show ?case using 2(1) j u ys by (simp add: q' db_inv_def db_list_def)
qed

text \<open>Once both counters stand at the end, no call changes anything any more.\<close>

lemma db_put_stuck: "db_w_ptr h = db_size h \<Longrightarrow> db_put h xs = (0, h)"
  by (simp add: db_put_def double_buffer_write_block_def)

lemma db_get_stuck: "db_r_ptr h = db_size h \<Longrightarrow> db_get h k = ([], h)"
  by (simp add: db_get_def double_buffer_read_block_def)

lemma db_run_stuck:
  "db_w_ptr h = db_size h \<Longrightarrow> db_r_ptr h = db_size h \<Longrightarrow> fifo_run db_put db_get h ops = ([], [], h)"
proof (induction ops)
  case (Cons op ops)
  then show ?case by (cases op) (simp_all add: db_put_stuck db_get_stuck)
qed simp

subsection \<open>Properties of double_buffer\<close>

text \<open>
  C28. The ping-pong pair delivers in order and loses nothing: for every sequence of block writes and
  block reads, what was read, followed by what is still unread on the read side and then by what
  was collected on the write side, is the initial contents followed by everything accepted. Exchanging
  the two sides never reorders or drops a value.
\<close>

theorem double_buffer_trace:
  assumes "db_inv h" "list_all (op_bounded 65536) ops"
    and "fifo_run db_put db_get h ops = (ins, outs, h')"
  shows "db_inv h' \<and> outs @ db_list h' = db_list h @ ins"
  using assms by (rule db.run_fifo)

theorem double_buffer_trace_witness:
  "\<exists>h'. fifo_run db_put db_get
      \<lparr>db_buf1 = [0, 0], db_buf2 = [0, 0], db_size = 2, db_mask = 1, db_w_ptr = 0, db_r_ptr = 2\<rparr>
      [Put [5, 6, 7], Get 1, Put [8]] = ([5, 6, 8], [5], h') \<and> [5] @ db_list h' = [5, 6, 8]"
proof -
  let ?h = "\<lparr>db_buf1 = [0, 0], db_buf2 = [0, 0], db_size = 2, db_mask = 1, db_w_ptr = 0, db_r_ptr = 2\<rparr>"
  let ?h' = "\<lparr>db_buf1 = [8, 0], db_buf2 = [5, 6], db_size = 2, db_mask = 1, db_w_ptr = 1, db_r_ptr = 1\<rparr>"
  have inv: "db_inv ?h" by (simp add: db_inv_def)
  have run: "fifo_run db_put db_get ?h [Put [5, 6, 7], Get 1, Put [8]] = ([5, 6, 8], [5], ?h')"
    by (simp add: db_put_def db_get_def double_buffer_write_block_def double_buffer_read_block_def Let_def
        mem_copy_def blit_def word_less_nat_alt double_buffer_flip_def double_buffer_swap_def)
  have "db_list ?h = []" by (simp add: db_list_def)
  with double_buffer_trace [OF inv _ run] run show ?thesis by auto
qed

text \<open>
  C33. The exchange can be missed for good: fill the pair twice and only then read the first block. Every
  value of the second block has been accepted and is still stored, both sides stand at the end, and
  from then on no sequence of writes and reads transfers a single value or changes the state.
\<close>

theorem double_buffer_deadlock:
  assumes "double_buffer_init (Some h0) (Some b1) (Some b2) n = (BUFF_OK, Some h)"
    and "unat n \<le> length b1" "unat n \<le> length b2" "length xs = unat n" "length ys = unat n"
  shows "\<exists>h'. fifo_run db_put db_get h [Put xs, Put ys, Get (unat n)] = (xs @ ys, xs, h') \<and>
    db_list h' = ys \<and> (\<forall>ops. fifo_run db_put db_get h' ops = ([], [], h'))"
proof -
  have h: "db_inv h" "db_size h = n" "db_w_ptr h = 0" "db_r_ptr h = n"
    using double_buffer_init_inv [OF assms(1-3)] by auto
  have n: "unat n < 65536" "n \<noteq> 0" "unat n \<noteq> 0"
    using unsigned_less [of n, where ?'a = nat] h(1,2) by (simp_all add: db_inv_def unat_eq_zero)
  let ?c1 = "blit (db_buf1 h) 0 xs"
  let ?h1 = "h\<lparr>db_buf1 := db_buf2 h, db_buf2 := ?c1, db_r_ptr := 0, db_w_ptr := 0\<rparr>"
  let ?h2 = "?h1\<lparr>db_buf1 := blit (db_buf2 h) 0 ys, db_w_ptr := n\<rparr>"
  have p1: "db_put h xs = (unat n, ?h1)"
    using n assms(4) h by (simp add: db_put_eq Let_def double_buffer_flip_def double_buffer_swap_def)
  have i1: "db_inv ?h1" using h n assms(4) by (auto simp: db_inv_def length_blit)
  have p2: "db_put ?h1 ys = (unat n, ?h2)"
    using n assms(5) h by (simp add: db_put_eq [OF i1] Let_def double_buffer_flip_def)
  have i2: "db_inv ?h2" using i1 h n assms(5) by (auto simp: db_inv_def length_blit)
  have g: "db_get ?h2 (unat n) = (xs, ?h2\<lparr>db_r_ptr := n\<rparr>)"
    unfolding db_get_eq [OF i2 n(1)] using n assms(4) h by (simp add: Let_def blit_def)
  have "db_list (?h2\<lparr>db_r_ptr := n\<rparr>) = ys" using assms(5) h(2) by (simp add: db_list_def blit_def)
  with p1 p2 g assms(4,5) db_run_stuck [of "?h2\<lparr>db_r_ptr := n\<rparr>"] h(2) show ?thesis by simp
qed

theorem double_buffer_deadlock_witness:
  "\<exists>h'. db_list h' = [3, 4] \<and> (\<forall>ops. fifo_run db_put db_get h' ops = ([], [], h'))"
proof -
  let ?h = "\<lparr>db_buf1 = [0, 0], db_buf2 = [0, 0], db_size = 2, db_mask = 1, db_w_ptr = 0, db_r_ptr = 2\<rparr>"
  have "double_buffer_init (Some ?h) (Some [0, 0]) (Some [0, 0]) 2 = (BUFF_OK, Some ?h)"
    by (simp add: double_buffer_init_def)
  from double_buffer_deadlock [OF this, of "[1, 2]" "[3, 4]"] show ?thesis by auto
qed

subsection \<open>dual_buffer\<close>

record dual_buffer_spsc =
  du_buf1 :: "u8 list"
  du_buf2 :: "u8 list"
  du_size :: u16
  du_item_size :: u16
  du_mask :: u16
  du_w1 :: u16
  du_r1 :: u16
  du_w2 :: u16
  du_r2 :: u16
  du_active_w :: u8
  du_active_r :: u8

definition dual_buffer_init ::
    "dual_buffer_spsc option \<Rightarrow> u8 list option \<Rightarrow> u8 list option \<Rightarrow> u16 \<Rightarrow> u16 \<Rightarrow>
     int \<times> dual_buffer_spsc option" where
  "dual_buffer_init handle buffer1 buffer2 item_size item_count =
     (case (handle, buffer1, buffer2) of
        (Some h, Some b1, Some b2) \<Rightarrow>
          if item_size = 0 \<or> item_count = 0 \<or> item_count AND (item_count - 1) \<noteq> 0
          then (BUFF_ERR_INVAL, handle)
          else (BUFF_OK, Some \<lparr>du_buf1 = b1, du_buf2 = b2, du_size = item_count, du_item_size = item_size,
                               du_mask = item_count - 1, du_w1 = 0, du_r1 = 0, du_w2 = 0, du_r2 = 0,
                               du_active_w = 0, du_active_r = 0\<rparr>)
      | _ \<Rightarrow> (BUFF_ERR_INVAL, handle))"

text \<open>One pass of the write function: copy into the active buffer what fits there.\<close>

definition dual_active_wptr :: "dual_buffer_spsc \<Rightarrow> u16" where
  "dual_active_wptr h = (if du_active_w h = 0 then du_w1 h else du_w2 h)"

definition dual_write_pass ::
    "dual_buffer_spsc \<Rightarrow> u8 list \<Rightarrow> nat \<Rightarrow> u16 \<Rightarrow> (dual_buffer_spsc \<times> u16) option" where
  "dual_write_pass h src off count =
     (let buf = (if du_active_w h = 0 then du_buf1 h else du_buf2 h);
          write_ptr = dual_active_wptr h;
          free_len = du_size h - write_ptr;
          to_write = (if count < free_len then count else free_len) in
      if 0 < to_write then do {
        b \<leftarrow> mem_copy buf (unat (ucast write_ptr * ucast (du_item_size h) :: u32)) src off
               (unat (ucast to_write * ucast (du_item_size h) :: u32));
        Some (if du_active_w h = 0 then h\<lparr>du_buf1 := b, du_w1 := write_ptr + to_write\<rparr>
              else h\<lparr>du_buf2 := b, du_w2 := write_ptr + to_write\<rparr>, to_write)
      }
      else Some (h, 0))"

definition dual_buffer_write_block ::
    "dual_buffer_spsc option \<Rightarrow> u8 list option \<Rightarrow> u16 \<Rightarrow> (int \<times> dual_buffer_spsc option \<times> u16) option" where
  "dual_buffer_write_block handle p_data count =
     (case (handle, p_data) of
        (Some h, Some src) \<Rightarrow>
          if count = 0 then Some (BUFF_ERR_INVAL, Some h, 0)
          else do {
            (h1, n1) \<leftarrow> dual_write_pass h src 0 count;
            let count' = count - n1;
            (h2, n2) \<leftarrow>
              (if 0 < count' \<and> du_size h1 \<le> dual_active_wptr h1
               then dual_write_pass (h1\<lparr>du_active_w := 1 - du_active_w h1\<rparr>) src
                      (unat (ucast n1 * ucast (du_item_size h) :: u32)) count'
               else Some (h1, 0));
            let written = n1 + n2;
            Some (if written = 0 then (BUFF_ERR_FULL, Some h2, 0) else (BUFF_OK, Some h2, written))
          }
      | _ \<Rightarrow> Some (BUFF_ERR_INVAL, handle, 0))"

definition dual_active_rptrs :: "dual_buffer_spsc \<Rightarrow> u16 \<times> u16" where
  "dual_active_rptrs h = (if du_active_r h = 0 then (du_w1 h, du_r1 h) else (du_w2 h, du_r2 h))"

definition dual_read_pass ::
    "dual_buffer_spsc \<Rightarrow> u8 list \<Rightarrow> nat \<Rightarrow> u16 \<Rightarrow> (dual_buffer_spsc \<times> u8 list \<times> u16) option" where
  "dual_read_pass h dst off count =
     (let buf = (if du_active_r h = 0 then du_buf1 h else du_buf2 h);
          (write_ptr, read_ptr) = dual_active_rptrs h;
          avail = write_ptr - read_ptr;
          to_read = (if count < avail then count else avail) in
      if 0 < to_read then do {
        d \<leftarrow> mem_copy dst off buf (unat (ucast read_ptr * ucast (du_item_size h) :: u32))
               (unat (ucast to_read * ucast (du_item_size h) :: u32));
        Some (if du_active_r h = 0 then h\<lparr>du_r1 := read_ptr + to_read\<rparr>
              else h\<lparr>du_r2 := read_ptr + to_read\<rparr>, d, to_read)
      }
      else Some (h, dst, 0))"

definition dual_buffer_read_block ::
    "dual_buffer_spsc option \<Rightarrow> u8 list option \<Rightarrow> u16 \<Rightarrow>
     (int \<times> dual_buffer_spsc option \<times> u8 list option \<times> u16) option" where
  "dual_buffer_read_block handle p_data count =
     (case (handle, p_data) of
        (Some h, Some dst) \<Rightarrow>
          if count = 0 then Some (BUFF_ERR_INVAL, Some h, p_data, 0)
          else do {
            (h1, d1, n1) \<leftarrow> dual_read_pass h dst 0 count;
            let count' = count - n1;
            (h2, d2, n2) \<leftarrow>
              (if 0 < count' \<and> fst (dual_active_rptrs h1) \<le> snd (dual_active_rptrs h1)
               then dual_read_pass (h1\<lparr>du_active_r := 1 - du_active_r h1\<rparr>) d1
                      (unat (ucast n1 * ucast (du_item_size h) :: u32)) count'
               else Some (h1, d1, 0));
            let total = n1 + n2;
            Some (if total = 0 then (BUFF_ERR_EMPTY, Some h2, Some d2, 0)
                  else (BUFF_OK, Some h2, Some d2, total))
          }
      | _ \<Rightarrow> Some (BUFF_ERR_INVAL, handle, p_data, 0))"

definition dual_buffer_isfull :: "dual_buffer_spsc option \<Rightarrow> bool option \<Rightarrow> int \<times> bool option" where
  "dual_buffer_isfull handle p_full =
     (case (handle, p_full) of
        (Some h, Some _) \<Rightarrow> (BUFF_OK, Some (du_size h \<le> du_w1 h \<and> du_size h \<le> du_w2 h))
      | _ \<Rightarrow> (BUFF_ERR_INVAL, p_full))"

definition dual_buffer_isempty :: "dual_buffer_spsc option \<Rightarrow> bool option \<Rightarrow> int \<times> bool option" where
  "dual_buffer_isempty handle p_empty =
     (case (handle, p_empty) of
        (Some h, Some _) \<Rightarrow> (BUFF_OK, Some (du_w1 h = du_r1 h \<and> du_w2 h = du_r2 h))
      | _ \<Rightarrow> (BUFF_ERR_INVAL, p_empty))"

definition dual_buffer_get_count :: "dual_buffer_spsc option \<Rightarrow> u16 option \<Rightarrow> int \<times> u16 option" where
  "dual_buffer_get_count handle p_count =
     (case (handle, p_count) of
        (Some h, Some _) \<Rightarrow> (BUFF_OK, Some ((du_w1 h - du_r1 h) + (du_w2 h - du_r2 h)))
      | _ \<Rightarrow> (BUFF_ERR_INVAL, p_count))"

subsection \<open>What the two linear buffers hold\<close>

abbreviation du_isz :: "dual_buffer_spsc \<Rightarrow> nat" where "du_isz h \<equiv> unat (du_item_size h)"
abbreviation du_cap :: "dual_buffer_spsc \<Rightarrow> nat" where "du_cap h \<equiv> unat (du_size h)"

definition du_inv :: "dual_buffer_spsc \<Rightarrow> bool" where
  "du_inv h \<longleftrightarrow> du_size h \<noteq> 0 \<and> du_item_size h \<noteq> 0 \<and>
     du_cap h * du_isz h \<le> length (du_buf1 h) \<and> du_cap h * du_isz h \<le> length (du_buf2 h) \<and>
     unat (du_w1 h) \<le> du_cap h \<and> unat (du_w2 h) \<le> du_cap h \<and>
     unat (du_r1 h) \<le> unat (du_w1 h) \<and> unat (du_r2 h) \<le> unat (du_w2 h) \<and>
     (du_active_w h = 0 \<or> du_active_w h = 1) \<and>
     (if du_active_w h = 0 then du_w2 h = 0 \<or> du_w1 h = du_size h \<and> du_w2 h = du_size h
      else du_w1 h = du_size h)"

definition du_written :: "dual_buffer_spsc \<Rightarrow> u8 list" where
  "du_written h = take (unat (du_w1 h) * du_isz h) (du_buf1 h) @ take (unat (du_w2 h) * du_isz h) (du_buf2 h)"

definition du_items :: "dual_buffer_spsc \<Rightarrow> nat" where
  "du_items h = unat (du_w1 h) + unat (du_w2 h)"

lemma du_wptr_le: "du_inv h \<Longrightarrow> unat (dual_active_wptr h) \<le> du_cap h"
  by (simp add: du_inv_def dual_active_wptr_def)

lemma dual_write_pass_spec:
  assumes inv: "du_inv h" and len: "off + unat count * du_isz h \<le> length src"
  obtains h' k where "dual_write_pass h src off count = Some (h', k)" "du_inv h'"
    "unat k = min (unat count) (du_cap h - unat (dual_active_wptr h))"
    "du_written h' = du_written h @ take (unat k * du_isz h) (drop off src)"
    "du_items h' = du_items h + unat k" "unat (dual_active_wptr h') = unat (dual_active_wptr h) + unat k"
    "du_size h' = du_size h" "du_item_size h' = du_item_size h" "du_active_w h' = du_active_w h"
    "du_active_w h = 0 \<longrightarrow> du_w2 h' = du_w2 h" "du_r1 h' = du_r1 h" "du_r2 h' = du_r2 h"
proof -
  let ?w = "dual_active_wptr h" and ?f = "du_size h - dual_active_wptr h"
  let ?buf = "if du_active_w h = 0 then du_buf1 h else du_buf2 h"
  have wle: "unat ?w \<le> du_cap h" using inv by (rule du_wptr_le)
  have f: "unat ?f = du_cap h - unat ?w" using wle by (simp add: unat_sub word_le_nat_alt)
  define k where "k = (if count < ?f then count else ?f)"
  have k: "unat k = min (unat count) (du_cap h - unat ?w)" using f by (auto simp: k_def word_less_nat_alt)
  have wk: "unat ?w + unat k \<le> du_cap h" using k wle by simp
  note u = u16_add_le [OF wk]
  show ?thesis
  proof (cases "k = 0")
    case True
    then have "dual_write_pass h src off count = Some (h, 0)" by (simp add: dual_write_pass_def Let_def flip: k_def)
    with that [of h 0] True inv k show ?thesis by simp
  next
    case False
    let ?xs = "take (unat k * du_isz h) (drop off src)"
    have "unat k * du_isz h \<le> unat count * du_isz h" using k by (intro mult_le_mono1) simp
    then have s: "off + unat k * du_isz h \<le> length src" using len by linarith
    then have lx: "length ?xs = unat k * du_isz h" by simp
    have "(unat ?w + unat k) * du_isz h \<le> du_cap h * du_isz h" using wk by (rule mult_le_mono1)
    then have d: "unat ?w * du_isz h + unat k * du_isz h \<le> length ?buf"
      using inv by (auto simp: du_inv_def add_mult_distrib)
    have mc: "mem_copy ?buf (unat ?w * du_isz h) src off (unat k * du_isz h) = Some (blit ?buf (unat ?w * du_isz h) ?xs)"
      using d s by simp
    let ?h = "if du_active_w h = 0
      then h\<lparr>du_buf1 := blit ?buf (unat ?w * du_isz h) ?xs, du_w1 := ?w + k\<rparr>
      else h\<lparr>du_buf2 := blit ?buf (unat ?w * du_isz h) ?xs, du_w2 := ?w + k\<rparr>"
    have e: "dual_write_pass h src off count = Some (?h, k)"
      using mc False by (simp add: dual_write_pass_def Let_def unat_ucast_mult16 word_neq_0_conv flip: k_def)
    have ne: "unat ?w < du_cap h" using False k wle by (metis diff_is_0_eq' le_antisym min_0R nat_less_le unat_eq_zero)
    have tk: "take ((unat ?w + unat k) * du_isz h) (blit ?buf (unat ?w * du_isz h) ?xs) = take (unat ?w * du_isz h) ?buf @ ?xs"
      using take_blit [of "unat ?w * du_isz h" ?xs ?buf] d lx by (simp add: add_mult_distrib)
    have w2: "du_active_w h = 0 \<longrightarrow> du_w2 h = 0"
      using inv ne by (auto simp: du_inv_def dual_active_wptr_def)
    show ?thesis
    proof (rule that [OF e])
      show "du_inv ?h" using inv wk d u w2 by (auto simp: du_inv_def length_blit dual_active_wptr_def lx)
      show "du_written ?h = du_written h @ ?xs"
        using tk u w2 inv by (auto simp: du_written_def dual_active_wptr_def du_inv_def)
    qed (use k u w2 in \<open>auto simp: du_items_def dual_active_wptr_def\<close>)
  qed
qed

lemma du_inv_flip:
  assumes "du_inv h" "du_size h \<le> dual_active_wptr h"
  shows "du_inv (h\<lparr>du_active_w := 1 - du_active_w h\<rparr>)"
    and "unat (dual_active_wptr (h\<lparr>du_active_w := 1 - du_active_w h\<rparr>)) + du_cap h = du_items h"
    and "du_written (h\<lparr>du_active_w := 1 - du_active_w h\<rparr>) = du_written h"
    and "du_items (h\<lparr>du_active_w := 1 - du_active_w h\<rparr>) = du_items h"
proof -
  have e: "dual_active_wptr h = du_size h"
    using du_wptr_le [OF assms(1)] assms(2) by (simp add: word_le_nat_alt word_unat_eq_iff)
  show "du_inv (h\<lparr>du_active_w := 1 - du_active_w h\<rparr>)"
    and "unat (dual_active_wptr (h\<lparr>du_active_w := 1 - du_active_w h\<rparr>)) + du_cap h = du_items h"
    using assms(1) e by (auto simp: du_inv_def dual_active_wptr_def du_items_def split: if_splits)
qed (simp_all add: du_written_def du_items_def)

lemma du_items_bound: "du_inv h \<Longrightarrow> du_items h \<le> 2 * du_cap h"
  by (simp add: du_inv_def du_items_def)

text \<open>The active buffer is the last one written unless it is full: what is free in total.\<close>

lemma du_free_split:
  "du_inv h \<Longrightarrow> unat (dual_active_wptr h) < du_cap h \<Longrightarrow>
   du_items h = unat (dual_active_wptr h) + (if du_active_w h = 0 then 0 else du_cap h)"
  by (auto simp: du_inv_def dual_active_wptr_def du_items_def)

lemma dual_buffer_write_block_spec:
  assumes inv: "du_inv h" and c0: "count \<noteq> 0" and len: "unat count * du_isz h \<le> length src"
  obtains h' k where
    "dual_buffer_write_block (Some h) (Some src) count =
       Some (if k = 0 then BUFF_ERR_FULL else BUFF_OK, Some h', k)" "du_inv h'"
    "unat k = min (unat count) (2 * du_cap h - du_items h)"
    "du_written h' = du_written h @ take (unat k * du_isz h) src" "du_items h' = du_items h + unat k"
    "du_size h' = du_size h" "du_item_size h' = du_item_size h"
proof -
  obtain h1 n1 where p: "dual_write_pass h src 0 count = Some (h1, n1)" "du_inv h1"
    "unat n1 = min (unat count) (du_cap h - unat (dual_active_wptr h))"
    "du_written h1 = du_written h @ take (unat n1 * du_isz h) (drop 0 src)"
    "du_items h1 = du_items h + unat n1" "unat (dual_active_wptr h1) = unat (dual_active_wptr h) + unat n1"
    "du_size h1 = du_size h" "du_item_size h1 = du_item_size h" "du_active_w h1 = du_active_w h"
    using dual_write_pass_spec [OF inv, of 0 count src] len by (metis add_0)
  let ?c = "count - n1"
  have c: "unat ?c = unat count - unat n1" using p(3) by (simp add: unat_sub word_le_nat_alt)
  show ?thesis
  proof (cases "0 < ?c \<and> du_size h1 \<le> dual_active_wptr h1")
    case False
    have "?c = 0"
    proof (rule ccontr)
      assume "?c \<noteq> 0"
      then have "unat n1 < unat count" using c by (metis unat_gt_0 zero_less_diff)
      then have "du_size h1 \<le> dual_active_wptr h1" using p(3,6,7) by (simp add: word_le_nat_alt)
      with False \<open>?c \<noteq> 0\<close> word_neq_0_conv [of ?c] show False by blast
    qed
    then have n: "n1 = count" by simp
    have "0 < unat count" by (rule unat_gt_0 [THEN iffD2, OF c0])
    then have lt: "unat (dual_active_wptr h) < du_cap h" using p(3) unfolding n by linarith
    have k: "unat n1 = min (unat count) (2 * du_cap h - du_items h)"
      using p(3) n du_free_split [OF inv lt] by auto
    show ?thesis using that [of n1 h1] p k n c0 by (simp add: dual_buffer_write_block_def)
  next
    case True
    let ?h = "h1\<lparr>du_active_w := 1 - du_active_w h1\<rparr>"
    note fl = du_inv_flip [OF p(2) conjunct2 [OF True]]
    have "unat n1 + unat ?c = unat count" using c p(3) by simp
    then have l: "unat n1 * du_isz h + unat ?c * du_isz ?h \<le> length src" using len p(8) by (simp flip: add_mult_distrib)
    obtain h2 n2 where q: "dual_write_pass ?h src (unat n1 * du_isz h) ?c = Some (h2, n2)" "du_inv h2"
      "unat n2 = min (unat ?c) (du_cap ?h - unat (dual_active_wptr ?h))"
      "du_written h2 = du_written ?h @ take (unat n2 * du_isz ?h) (drop (unat n1 * du_isz h) src)"
      "du_items h2 = du_items ?h + unat n2" "du_size h2 = du_size ?h" "du_item_size h2 = du_item_size ?h"
      by (rule dual_write_pass_spec [OF fl(1) l])
    have k: "unat n1 + unat n2 = min (unat count) (2 * du_cap h - du_items h)"
    proof -
      have "unat ?c \<noteq> 0" using True by (metis unat_eq_zero word_less_1 less_irrefl)
      then have n1: "unat n1 = du_cap h - unat (dual_active_wptr h)" "unat n1 < unat count"
        using c p(3) by linarith+
      have b: "unat (dual_active_wptr h) \<le> du_items h" "du_items h - unat (dual_active_wptr h) \<le> du_cap h"
        "unat (dual_active_wptr h) \<le> du_cap h"
        using inv by (auto simp: du_items_def dual_active_wptr_def du_inv_def)
      then have "unat (dual_active_wptr ?h) = du_items h - unat (dual_active_wptr h)"
        using fl(2) p(5,7) n1 by simp
      then show ?thesis using q(3) c p(7) n1 b by (simp add: min_def) linarith
    qed
    then have u: "unat (n1 + n2) = unat n1 + unat n2" using u16_add_le [of n1 n2 count] by simp
    show ?thesis
    proof (rule that [of "n1 + n2" h2])
      show "dual_buffer_write_block (Some h) (Some src) count =
          Some (if n1 + n2 = 0 then BUFF_ERR_FULL else BUFF_OK, Some h2, n1 + n2)"
        using p(1) q(1) True c0 by (simp add: dual_buffer_write_block_def unat_ucast_mult16)
      show "du_written h2 = du_written h @ take (unat (n1 + n2) * du_isz h) src"
        using p(4,8) q(4) fl(3) by (simp add: u add_mult_distrib take_add)
    qed (use q(2) p(5,7,8) q(5,6,7) fl(4) u in \<open>simp_all add: k\<close>)
  qed
qed

lemma dual_read_pass_spec:
  assumes inv: "du_inv h" and len: "off + unat count * du_isz h \<le> length dst"
  obtains h' d k where "dual_read_pass h dst off count = Some (h', d, k)" "du_inv h'"
    "length d = length dst" "unat k \<le> unat count" "du_written h' = du_written h" "du_items h' = du_items h"
    "du_size h' = du_size h" "du_item_size h' = du_item_size h"
proof -
  obtain w r where wr: "dual_active_rptrs h = (w, r)" by fastforce
  let ?buf = "if du_active_r h = 0 then du_buf1 h else du_buf2 h"
  have le: "unat r \<le> unat w" "unat w \<le> du_cap h" "du_cap h * du_isz h \<le> length ?buf"
    using wr inv by (auto simp: dual_active_rptrs_def du_inv_def split: if_splits)
  define k where "k = (if count < w - r then count else w - r)"
  have k: "unat k = min (unat count) (unat w - unat r)"
    using le(1) by (auto simp: k_def word_less_nat_alt unat_sub word_le_nat_alt)
  show ?thesis
  proof (cases "k = 0")
    case True
    then have "dual_read_pass h dst off count = Some (h, dst, 0)"
      using wr by (simp add: dual_read_pass_def Let_def flip: k_def)
    with that [of h dst 0] inv show ?thesis by simp
  next
    case False
    have "unat r + unat k \<le> du_cap h" using k le by simp
    then have "(unat r + unat k) * du_isz h \<le> du_cap h * du_isz h" by (rule mult_le_mono1)
    then have s: "unat r * du_isz h + unat k * du_isz h \<le> length ?buf" using le(3) by (simp add: add_mult_distrib)
    have "unat k * du_isz h \<le> unat count * du_isz h" using k by (intro mult_le_mono1) simp
    then have d: "off + unat k * du_isz h \<le> length dst" using len by linarith
    let ?d = "blit dst off (take (unat k * du_isz h) (drop (unat r * du_isz h) ?buf))"
    let ?h = "if du_active_r h = 0 then h\<lparr>du_r1 := r + k\<rparr> else h\<lparr>du_r2 := r + k\<rparr>"
    have mc: "mem_copy dst off ?buf (unat r * du_isz h) (unat k * du_isz h) = Some ?d" using s d by simp
    have e: "dual_read_pass h dst off count = Some (?h, ?d, k)"
      using mc False wr by (simp add: dual_read_pass_def Let_def unat_ucast_mult16 word_neq_0_conv flip: k_def)
    have u: "unat (r + k) = unat r + unat k" using k le(1) by (intro u16_add_le [of r k w]) simp
    show ?thesis
    proof (rule that [OF e])
      show "du_inv ?h" using inv u k wr le(1) by (auto simp: du_inv_def dual_active_rptrs_def split: if_splits)
      show "length ?d = length dst" using s d by (simp add: length_blit)
    qed (use k in \<open>auto simp: du_written_def du_items_def\<close>)
  qed
qed

lemma dual_buffer_read_block_spec:
  assumes inv: "du_inv h" and c0: "count \<noteq> 0" and len: "unat count * du_isz h \<le> length dst"
  obtains c h' d k where "dual_buffer_read_block (Some h) (Some dst) count = Some (c, Some h', Some d, k)"
    "du_inv h'" "length d = length dst" "du_written h' = du_written h" "du_items h' = du_items h"
    "du_size h' = du_size h" "du_item_size h' = du_item_size h"
proof -
  obtain h1 d1 n1 where p: "dual_read_pass h dst 0 count = Some (h1, d1, n1)" "du_inv h1"
    "length d1 = length dst" "unat n1 \<le> unat count" "du_written h1 = du_written h" "du_items h1 = du_items h"
    "du_size h1 = du_size h" "du_item_size h1 = du_item_size h"
    using dual_read_pass_spec [OF inv, of 0 count dst] len by (metis add_0)
  let ?c = "count - n1" and ?h = "h1\<lparr>du_active_r := 1 - du_active_r h1\<rparr>"
  have i: "du_inv ?h" using p(2) by (simp add: du_inv_def)
  have "unat n1 + unat ?c = unat count" using p(4) by (simp add: unat_sub word_le_nat_alt)
  then have l: "unat n1 * du_isz h + unat ?c * du_isz ?h \<le> length d1" using len p(3,8) by (simp flip: add_mult_distrib)
  obtain h2 d2 n2 where q: "dual_read_pass ?h d1 (unat n1 * du_isz h) ?c = Some (h2, d2, n2)" "du_inv h2"
    "length d2 = length d1" "du_written h2 = du_written ?h" "du_items h2 = du_items ?h"
    "du_size h2 = du_size ?h" "du_item_size h2 = du_item_size ?h"
    by (rule dual_read_pass_spec [OF i l])
  have w: "du_written ?h = du_written h1" "du_items ?h = du_items h1" by (simp_all add: du_written_def du_items_def)
  let ?flip = "0 < ?c \<and> fst (dual_active_rptrs h1) \<le> snd (dual_active_rptrs h1)"
  let ?n = "if ?flip then n1 + n2 else n1"
  have "dual_buffer_read_block (Some h) (Some dst) count =
      Some (if ?n = 0 then BUFF_ERR_EMPTY else BUFF_OK, Some (if ?flip then h2 else h1),
            Some (if ?flip then d2 else d1), if ?n = 0 then 0 else ?n)"
    using p(1) q(1) c0 by (auto simp: dual_buffer_read_block_def unat_ucast_mult16)
  then show ?thesis by (rule that) (use p q w in auto)
qed

text \<open>Block transfer as a client sees it, in bytes.\<close>

definition du_put :: "dual_buffer_spsc \<Rightarrow> u8 list \<Rightarrow> nat \<times> dual_buffer_spsc" where
  "du_put h xs =
     (case dual_buffer_write_block (Some h) (Some xs) (of_nat (length xs div unat (du_item_size h))) of
        Some (_, Some h', k) \<Rightarrow> (unat k * unat (du_item_size h), h') | _ \<Rightarrow> (0, h))"

definition du_get :: "dual_buffer_spsc \<Rightarrow> nat \<Rightarrow> u8 list \<times> dual_buffer_spsc" where
  "du_get h k =
     (case dual_buffer_read_block (Some h) (Some (replicate (k * unat (du_item_size h)) 0)) (of_nat k) of
        Some (_, Some h', Some d, a) \<Rightarrow> (take (unat a * unat (du_item_size h)) d, h') | _ \<Rightarrow> ([], h))"

lemma du_put_law:
  assumes "du_inv h" "length xs div du_isz h < 65536" "du_put h xs = (n, h')"
  shows "du_inv h' \<and> du_size h' = du_size h \<and> du_item_size h' = du_item_size h \<and>
    n = min (length xs div du_isz h) (2 * du_cap h - du_items h) * du_isz h \<and>
    du_written h' = du_written h @ take n xs"
proof (cases "length xs div du_isz h = 0")
  case True
  with assms show ?thesis by (simp add: du_put_def dual_buffer_write_block_def)
next
  case False
  let ?c = "of_nat (length xs div du_isz h) :: u16"
  have u: "unat ?c = length xs div du_isz h" using assms(2) by (rule unat_of_nat_u16)
  then have "?c \<noteq> 0" using False by (metis unat_0)
  moreover have "unat ?c * du_isz h \<le> length xs" using u by simp
  ultimately obtain h1 k where
    "dual_buffer_write_block (Some h) (Some xs) ?c = Some (if k = 0 then BUFF_ERR_FULL else BUFF_OK, Some h1, k)"
    "du_inv h1" "unat k = min (unat ?c) (2 * du_cap h - du_items h)"
    "du_written h1 = du_written h @ take (unat k * du_isz h) xs" "du_size h1 = du_size h"
    "du_item_size h1 = du_item_size h"
    using dual_buffer_write_block_spec [OF assms(1)] by metis
  with assms(3) u show ?thesis by (simp add: du_put_def)
qed

lemma du_get_law:
  assumes "du_inv h" "k < 65536" "du_get h k = (ys, h')"
  shows "du_inv h' \<and> du_size h' = du_size h \<and> du_item_size h' = du_item_size h \<and>
    du_written h' = du_written h"
proof (cases "k = 0")
  case True
  with assms show ?thesis by (simp add: du_get_def dual_buffer_read_block_def)
next
  case False
  let ?c = "of_nat k :: u16"
  have u: "unat ?c = k" using assms(2) by (rule unat_of_nat_u16)
  then have "?c \<noteq> 0" using False by (metis unat_0)
  moreover have "unat ?c * du_isz h \<le> length (replicate (k * du_isz h) (0 :: u8))" using u by simp
  ultimately show ?thesis
    by (rule dual_buffer_read_block_spec [OF assms(1)]) (use assms(3) in \<open>auto simp: du_get_def\<close>)
qed

lemma du_run:
  assumes "du_inv h" "list_all (op_bounded 65536) ops" "fifo_run du_put du_get h ops = (ins, outs, h')"
  shows "du_inv h' \<and> du_size h' = du_size h \<and> du_item_size h' = du_item_size h \<and>
    du_written h' = du_written h @ ins"
  using assms
proof (induction ops arbitrary: h ins outs h')
  case (Cons op ops)
  show ?case
  proof (cases op)
    case (Put xs)
    obtain n h1 where p: "du_put h xs = (n, h1)" by fastforce
    obtain i1 o1 h2 where f: "fifo_run du_put du_get h1 ops = (i1, o1, h2)" by (metis prod_cases3)
    have "length xs div du_isz h < 65536" using Cons.prems(2) Put by (auto intro: le_less_trans [OF div_le_dividend])
    from du_put_law [OF Cons.prems(1) this p] Cons.IH [OF _ _ f] Cons.prems(2,3) Put p f
    show ?thesis by auto
  next
    case (Get k)
    obtain ys h1 where g: "du_get h k = (ys, h1)" by fastforce
    obtain i1 o1 h2 where f: "fifo_run du_put du_get h1 ops = (i1, o1, h2)" by (metis prod_cases3)
    have "k < 65536" using Cons.prems(2) Get by simp
    from du_get_law [OF Cons.prems(1) this g] Cons.IH [OF _ _ f] Cons.prems(2,3) Get g f
    show ?thesis by auto
  qed
qed simp

subsection \<open>Properties of dual_buffer\<close>



text \<open>
  The dual buffer can deliver out of order: a read that asks for more than is there leaves the reader
  on the other area, and when the writer later finishes the first area and goes on in the second one, the
  reader returns the later byte before the earlier one.
\<close>

theorem dual_buffer_reorders:
  "\<exists>h h'. dual_buffer_init (Some h) (Some [0, 0]) (Some [0, 0]) 1 2 = (BUFF_OK, Some h) \<and>
     fifo_run du_put du_get h [Put [1], Get 2, Put [2, 3], Get 1, Get 2] = ([1, 2, 3], [1, 3, 2], h')"
proof -
  let ?h = "\<lparr>du_buf1 = [0, 0], du_buf2 = [0, 0], du_size = 2, du_item_size = 1, du_mask = 1,
      du_w1 = 0, du_r1 = 0, du_w2 = 0, du_r2 = 0, du_active_w = 0, du_active_r = 0\<rparr>"
  let ?h' = "\<lparr>du_buf1 = [1, 2], du_buf2 = [3, 0], du_size = 2, du_item_size = 1, du_mask = 1,
      du_w1 = 2, du_r1 = 2, du_w2 = 1, du_r2 = 1, du_active_w = 1, du_active_r = 0\<rparr>"
  have "dual_buffer_init (Some ?h) (Some [0, 0]) (Some [0, 0]) 1 2 = (BUFF_OK, Some ?h)"
    by (simp add: dual_buffer_init_def)
  moreover have "fifo_run du_put du_get ?h [Put [1], Get 2, Put [2, 3], Get 1, Get 2] = ([1, 2, 3], [1, 3, 2], ?h')"
    by code_simp
  ultimately show ?thesis by blast
qed

end
