(* ===== verification/Fifo_Uni.thy ===== *)
theory Fifo_Uni
  imports Fifo
begin

text \<open>
  \<open>struct fifo_uni_spsc\<close> of \<^verbatim>\<open>algorithm/buffer/circle_fifo_buffer.c\<close>: the ring whose
  element width is given at initialisation. Offsets are 32-bit byte offsets; a
  slot pointer handed out by the zero-copy interface is such an offset.
\<close>

record fifo_uni_spsc =
  uni_buf :: "u8 list"
  uni_size :: u16
  uni_item_size :: u16
  uni_mask :: u16
  uni_w_ptr :: u16
  uni_r_ptr :: u16

definition fifo_uni_init ::
    "fifo_uni_spsc option \<Rightarrow> u8 list option \<Rightarrow> u16 \<Rightarrow> u16 \<Rightarrow> int \<times> fifo_uni_spsc option" where
  "fifo_uni_init handle buf item_size item_count =
     (case (handle, buf) of
        (Some h, Some b) \<Rightarrow>
          if item_size = 0 \<or> item_count = 0 \<or> item_count AND (item_count - 1) \<noteq> 0
          then (BUFF_ERR_INVAL, handle)
          else (BUFF_OK, Some \<lparr>uni_buf = b, uni_size = item_count, uni_item_size = item_size,
                               uni_mask = item_count - 1, uni_w_ptr = 0, uni_r_ptr = 0\<rparr>)
      | _ \<Rightarrow> (BUFF_ERR_INVAL, handle))"

definition fifo_uni_write_block ::
    "fifo_uni_spsc option \<Rightarrow> u8 list option \<Rightarrow> u16 \<Rightarrow> (int \<times> fifo_uni_spsc option \<times> u16) option" where
  "fifo_uni_write_block handle p_data cnt =
     (case (handle, p_data) of
        (Some h, Some src) \<Rightarrow>
          if cnt = 0 then Some (BUFF_ERR_INVAL, Some h, 0)
          else
            let read_ptr = uni_r_ptr h; write_ptr = uni_w_ptr h;
                free_count = uni_size h - (write_ptr - read_ptr) in
            if free_count = 0 then Some (BUFF_ERR_FULL, Some h, 0)
            else
              let cnt' = (if free_count < cnt then free_count else cnt);
                  bytes = ucast cnt' * ucast (uni_item_size h) :: u32;
                  w_off = ucast (write_ptr AND uni_mask h) * ucast (uni_item_size h) :: u32;
                  space_to_end = ucast (uni_size h) * ucast (uni_item_size h) - w_off in
              do {
                b \<leftarrow> (if bytes \<le> space_to_end then mem_copy (uni_buf h) (unat w_off) src 0 (unat bytes)
                     else do {
                       b1 \<leftarrow> mem_copy (uni_buf h) (unat w_off) src 0 (unat space_to_end);
                       mem_copy b1 0 src (unat space_to_end) (unat (bytes - space_to_end)) });
                Some (BUFF_OK, Some (h\<lparr>uni_buf := b, uni_w_ptr := write_ptr + cnt'\<rparr>), cnt')
              }
      | _ \<Rightarrow> Some (BUFF_ERR_INVAL, handle, 0))"

definition fifo_uni_read_block ::
    "fifo_uni_spsc option \<Rightarrow> u8 list option \<Rightarrow> u16 \<Rightarrow>
     (int \<times> fifo_uni_spsc option \<times> u8 list option \<times> u16) option" where
  "fifo_uni_read_block handle p_data cnt =
     (case (handle, p_data) of
        (Some h, Some dst) \<Rightarrow>
          if cnt = 0 then Some (BUFF_ERR_INVAL, Some h, p_data, 0)
          else
            let write_ptr = uni_w_ptr h; read_ptr = uni_r_ptr h; avail = write_ptr - read_ptr in
            if avail = 0 then Some (BUFF_ERR_EMPTY, Some h, p_data, 0)
            else
              let cnt' = (if avail < cnt then avail else cnt);
                  bytes = ucast cnt' * ucast (uni_item_size h) :: u32;
                  r_off = ucast (read_ptr AND uni_mask h) * ucast (uni_item_size h) :: u32;
                  space_to_end = ucast (uni_size h) * ucast (uni_item_size h) - r_off in
              do {
                d \<leftarrow> (if bytes \<le> space_to_end then mem_copy dst 0 (uni_buf h) (unat r_off) (unat bytes)
                     else do {
                       d1 \<leftarrow> mem_copy dst 0 (uni_buf h) (unat r_off) (unat space_to_end);
                       mem_copy d1 (unat space_to_end) (uni_buf h) 0 (unat (bytes - space_to_end)) });
                Some (BUFF_OK, Some (h\<lparr>uni_r_ptr := read_ptr + cnt'\<rparr>), Some d, cnt')
              }
      | _ \<Rightarrow> Some (BUFF_ERR_INVAL, handle, p_data, 0))"

definition fifo_uni_write_acquire :: "fifo_uni_spsc option \<Rightarrow> u32 option \<Rightarrow> int \<times> u32 option" where
  "fifo_uni_write_acquire handle p_slot =
     (case (handle, p_slot) of
        (Some h, Some _) \<Rightarrow>
          let read_ptr = uni_r_ptr h; write_ptr = uni_w_ptr h in
          if uni_size h \<le> write_ptr - read_ptr then (BUFF_ERR_FULL, p_slot)
          else (BUFF_OK, Some (ucast (write_ptr AND uni_mask h) * ucast (uni_item_size h)))
      | _ \<Rightarrow> (BUFF_ERR_INVAL, p_slot))"

definition fifo_uni_write_commit :: "fifo_uni_spsc option \<Rightarrow> int \<times> fifo_uni_spsc option" where
  "fifo_uni_write_commit handle =
     (case handle of
        None \<Rightarrow> (BUFF_ERR_INVAL, None)
      | Some h \<Rightarrow> (BUFF_OK, Some (h\<lparr>uni_w_ptr := uni_w_ptr h + 1\<rparr>)))"

definition fifo_uni_read_peek :: "fifo_uni_spsc option \<Rightarrow> u32 option \<Rightarrow> int \<times> u32 option" where
  "fifo_uni_read_peek handle p_slot =
     (case (handle, p_slot) of
        (Some h, Some _) \<Rightarrow>
          let write_ptr = uni_w_ptr h; read_ptr = uni_r_ptr h in
          if read_ptr = write_ptr then (BUFF_ERR_EMPTY, p_slot)
          else (BUFF_OK, Some (ucast (read_ptr AND uni_mask h) * ucast (uni_item_size h)))
      | _ \<Rightarrow> (BUFF_ERR_INVAL, p_slot))"

definition fifo_uni_read_release :: "fifo_uni_spsc option \<Rightarrow> int \<times> fifo_uni_spsc option" where
  "fifo_uni_read_release handle =
     (case handle of
        None \<Rightarrow> (BUFF_ERR_INVAL, None)
      | Some h \<Rightarrow> (BUFF_OK, Some (h\<lparr>uni_r_ptr := uni_r_ptr h + 1\<rparr>)))"

definition fifo_uni_get_count :: "fifo_uni_spsc option \<Rightarrow> u16 option \<Rightarrow> int \<times> u16 option" where
  "fifo_uni_get_count handle p_count =
     (case (handle, p_count) of
        (Some h, Some _) \<Rightarrow> (BUFF_OK, Some (uni_w_ptr h - uni_r_ptr h))
      | _ \<Rightarrow> (BUFF_ERR_INVAL, p_count))"

definition fifo_uni_isempty :: "fifo_uni_spsc option \<Rightarrow> bool option \<Rightarrow> int \<times> bool option" where
  "fifo_uni_isempty handle p_empty =
     (case (handle, p_empty) of
        (Some h, Some _) \<Rightarrow> (BUFF_OK, Some (uni_r_ptr h = uni_w_ptr h))
      | _ \<Rightarrow> (BUFF_ERR_INVAL, p_empty))"

definition fifo_uni_isfull :: "fifo_uni_spsc option \<Rightarrow> bool option \<Rightarrow> int \<times> bool option" where
  "fifo_uni_isfull handle p_full =
     (case (handle, p_full) of
        (Some h, Some _) \<Rightarrow> (BUFF_OK, Some (uni_size h \<le> uni_w_ptr h - uni_r_ptr h))
      | _ \<Rightarrow> (BUFF_ERR_INVAL, p_full))"

subsection \<open>Invariant and contents\<close>

abbreviation uni_isz :: "fifo_uni_spsc \<Rightarrow> nat" where "uni_isz h \<equiv> unat (uni_item_size h)"
abbreviation uni_cap :: "fifo_uni_spsc \<Rightarrow> nat" where "uni_cap h \<equiv> unat (uni_size h)"
abbreviation uni_used :: "fifo_uni_spsc \<Rightarrow> nat" where "uni_used h \<equiv> unat (uni_w_ptr h - uni_r_ptr h)"

definition fifo_uni_inv :: "fifo_uni_spsc \<Rightarrow> bool" where
  "fifo_uni_inv h \<longleftrightarrow> pow2_u16 (uni_size h) \<and> uni_item_size h \<noteq> 0 \<and> uni_mask h = uni_size h - 1 \<and>
     uni_cap h * uni_isz h \<le> length (uni_buf h) \<and> uni_used h \<le> uni_cap h"

definition fifo_uni_bytes :: "fifo_uni_spsc \<Rightarrow> u8 list" where
  "fifo_uni_bytes h =
     ring_list (uni_buf h) (uni_cap h * uni_isz h) (unat (uni_r_ptr h) * uni_isz h) (uni_used h * uni_isz h)"

lemma length_fifo_uni_bytes [simp]: "length (fifo_uni_bytes h) = uni_used h * uni_isz h"
  by (simp add: fifo_uni_bytes_def)

lemma uni_inv_facts:
  assumes "fifo_uni_inv h"
  shows "0 < uni_cap h" "uni_cap h \<le> 32768" "0 < uni_isz h" "uni_used h \<le> uni_cap h"
    "unat (p AND uni_mask h) = unat p mod uni_cap h" "pow2_u16 (uni_size h)"
    "uni_cap h * uni_isz h \<le> length (uni_buf h)"
  using assms pow2_u16_pos [of "uni_size h"]
  by (simp_all add: fifo_uni_inv_def pow2_u16_less unat_and_pow2_mask unat_gt_0)

lemma uni_offset:
  assumes "fifo_uni_inv h"
  shows "unat (ucast (p AND uni_mask h) * ucast (uni_item_size h) :: u32) =
      (unat p * uni_isz h) mod (uni_cap h * uni_isz h)"
  using uni_inv_facts [OF assms] by (simp add: unat_ucast_mult16 mult_mod_left)

lemma uni_index: "fifo_uni_inv h \<Longrightarrow> unat (p AND uni_mask h) * uni_isz h = uni_isz h * (unat p mod uni_cap h)"
  using uni_inv_facts(5) [of h p] by simp

lemma uni_offset_less:
  "fifo_uni_inv h \<Longrightarrow> (unat p * uni_isz h) mod (uni_cap h * uni_isz h) < uni_cap h * uni_isz h"
  using uni_inv_facts [of h] by simp

lemma uni_space_to_end:
  assumes "fifo_uni_inv h"
  shows "unat (ucast (uni_size h) * ucast (uni_item_size h) -
        ucast (p AND uni_mask h) * ucast (uni_item_size h) :: u32) =
      uni_cap h * uni_isz h - (unat p * uni_isz h) mod (uni_cap h * uni_isz h)"
proof -
  have "(ucast (p AND uni_mask h) * ucast (uni_item_size h) :: u32) \<le>
      ucast (uni_size h) * ucast (uni_item_size h)"
    using uni_offset_less [OF assms, of p]
    by (simp only: word_le_nat_alt uni_offset [OF assms] unat_ucast_mult16 [of "uni_size h"] less_imp_le)
  then show ?thesis
    by (simp only: unat_sub uni_offset [OF assms] unat_ucast_mult16 [of "uni_size h"])
qed

lemma uni_write_pos:
  assumes "fifo_uni_inv h"
  shows "(unat (uni_r_ptr h) * uni_isz h + uni_used h * uni_isz h) mod (uni_cap h * uni_isz h) =
      (unat (uni_w_ptr h) * uni_isz h) mod (uni_cap h * uni_isz h)"
  using unat_add_diff_cancel_mod [OF uni_inv_facts(6) [OF assms], of "uni_r_ptr h" "uni_w_ptr h"]
  by (metis add_mult_distrib mult_mod_left)

lemma fifo_uni_init_inv:
  "pow2_u16 n \<Longrightarrow> isz \<noteq> 0 \<Longrightarrow> unat n * unat isz \<le> length b \<Longrightarrow>
   \<exists>h'. fifo_uni_init (Some h) (Some b) isz n = (BUFF_OK, Some h') \<and> fifo_uni_inv h' \<and>
        fifo_uni_bytes h' = [] \<and> uni_size h' = n \<and> uni_item_size h' = isz"
  by (auto simp: fifo_uni_init_def fifo_uni_inv_def fifo_uni_bytes_def pow2_u16_def)

subsection \<open>Block transfer\<close>

lemma uni_free_count: "fifo_uni_inv h \<Longrightarrow> unat (uni_size h - (uni_w_ptr h - uni_r_ptr h)) = uni_cap h - uni_used h"
  by (simp add: unat_sub word_le_nat_alt fifo_uni_inv_def)

lemma fifo_uni_write_block_full:
  "fifo_uni_inv h \<Longrightarrow> cnt \<noteq> 0 \<Longrightarrow> uni_used h = uni_cap h \<Longrightarrow>
   fifo_uni_write_block (Some h) (Some src) cnt = Some (BUFF_ERR_FULL, Some h, 0)"
  using uni_free_count [of h] by (simp add: fifo_uni_write_block_def unat_eq_zero)

lemma fifo_uni_write_block_ok:
  assumes inv: "fifo_uni_inv h" and cnt: "cnt \<noteq> 0" "unat cnt * uni_isz h \<le> length src"
    and space: "uni_used h < uni_cap h"
  obtains h' k where "fifo_uni_write_block (Some h) (Some src) cnt = Some (BUFF_OK, Some h', k)"
    "unat k = min (unat cnt) (uni_cap h - uni_used h)" "fifo_uni_inv h'" "uni_size h' = uni_size h"
    "uni_item_size h' = uni_item_size h" "uni_used h' = uni_used h + unat k"
    "fifo_uni_bytes h' = fifo_uni_bytes h @ take (unat k * uni_isz h) src"
proof -
  let ?N = "uni_cap h * uni_isz h" and ?R = "unat (uni_r_ptr h) * uni_isz h"
  let ?C = "uni_used h * uni_isz h" and ?f = "uni_size h - (uni_w_ptr h - uni_r_ptr h)"
  define k where "k = (if ?f < cnt then ?f else cnt)"
  note f = uni_free_count [OF inv]
  have f0: "?f \<noteq> 0" using f space by (metis unat_0 zero_less_diff less_irrefl)
  have k: "unat k = min (unat cnt) (uni_cap h - uni_used h)" using f by (auto simp: k_def word_less_nat_alt)
  note facts = uni_inv_facts [OF inv]
  have "uni_used h + unat k \<le> uni_cap h" using k space by simp
  then have ck: "?C + unat k * uni_isz h \<le> ?N" by (metis add_mult_distrib mult_le_mono1)
  have pos: "0 < ?N" using facts by simp
  have "unat k * uni_isz h \<le> unat cnt * uni_isz h" using k by (intro mult_le_mono1) simp
  then have src: "unat k * uni_isz h \<le> length src" using cnt(2) by (rule le_trans)
  obtain b where b: "ring_copy_in (uni_buf h) ?N ((?R + ?C) mod ?N) src (unat k * uni_isz h) = Some b"
    "length b = length (uni_buf h)"
    "ring_list b ?N ?R (?C + unat k * uni_isz h) = ring_list (uni_buf h) ?N ?R ?C @ take (unat k * uni_isz h) src"
    by (rule ring_list_copy_in [OF ck pos facts(7) src])
  let ?h = "h\<lparr>uni_buf := b, uni_w_ptr := uni_w_ptr h + k\<rparr>"
  have w: "fifo_uni_write_block (Some h) (Some src) cnt = Some (BUFF_OK, Some ?h, k)"
    using b(1) cnt(1) f0 unfolding uni_write_pos [OF inv]
    by (auto simp: fifo_uni_write_block_def ring_copy_in_def Let_def word_le_nat_alt unat_sub
        uni_space_to_end [OF inv] uni_index [OF inv] unat_ucast_mult16 bind_eq_Some_conv
        simp flip: k_def split: if_splits)
  have u: "unat (uni_w_ptr h + k - uni_r_ptr h) = uni_used h + unat k"
    using k space facts(2) by (intro unat_add_diff) simp
  show ?thesis
  proof (rule that [OF w k])
    show "fifo_uni_inv ?h" using inv b(2) k space by (simp add: fifo_uni_inv_def u)
    show "fifo_uni_bytes ?h = fifo_uni_bytes h @ take (unat k * uni_isz h) src"
      using b(3) by (simp add: fifo_uni_bytes_def u add_mult_distrib)
  qed (use u in auto)
qed

lemma fifo_uni_read_block_empty:
  "cnt \<noteq> 0 \<Longrightarrow> uni_used h = 0 \<Longrightarrow>
   fifo_uni_read_block (Some h) (Some dst) cnt = Some (BUFF_ERR_EMPTY, Some h, Some dst, 0)"
  by (simp add: fifo_uni_read_block_def unat_eq_zero)

lemma fifo_uni_read_block_ok:
  assumes inv: "fifo_uni_inv h" and cnt: "cnt \<noteq> 0" "unat cnt * uni_isz h \<le> length dst"
    and ne: "0 < uni_used h"
  obtains h' k where
    "fifo_uni_read_block (Some h) (Some dst) cnt =
       Some (BUFF_OK, Some h', Some (take (unat k * uni_isz h) (fifo_uni_bytes h) @ drop (unat k * uni_isz h) dst), k)"
    "unat k = min (unat cnt) (uni_used h)" "fifo_uni_inv h'" "uni_size h' = uni_size h"
    "uni_item_size h' = uni_item_size h" "uni_used h' = uni_used h - unat k"
    "fifo_uni_bytes h' = drop (unat k * uni_isz h) (fifo_uni_bytes h)"
proof -
  let ?N = "uni_cap h * uni_isz h" and ?R = "unat (uni_r_ptr h) * uni_isz h"
  let ?C = "uni_used h * uni_isz h"
  define k where "k = (if uni_w_ptr h - uni_r_ptr h < cnt then uni_w_ptr h - uni_r_ptr h else cnt)"
  have k: "unat k = min (unat cnt) (uni_used h)" by (auto simp: k_def word_less_nat_alt)
  note facts = uni_inv_facts [OF inv]
  let ?K = "unat k * uni_isz h"
  have KC: "?K \<le> ?C" using k by (intro mult_le_mono1) simp
  have CN: "?C \<le> ?N" using facts(4) by (rule mult_le_mono1)
  have "?K \<le> unat cnt * uni_isz h" using k by (intro mult_le_mono1) simp
  then have KD: "?K \<le> length dst" using cnt(2) by (rule le_trans)
  have pos: "0 < ?N" using facts by simp
  have out: "ring_copy_out dst (uni_buf h) ?N (?R mod ?N) ?K = Some (ring_list (uni_buf h) ?N ?R ?K @ drop ?K dst)"
    using ring_copy_out_Some [OF mod_less_divisor [OF pos] facts(7) le_trans [OF KC CN] KD, of ?R] by (simp only: ring_list_mod)
  have tk: "take ?K (fifo_uni_bytes h) = ring_list (uni_buf h) ?N ?R ?K"
    using KC by (simp only: fifo_uni_bytes_def take_ring_list min_absorb1)
  let ?h = "h\<lparr>uni_r_ptr := uni_r_ptr h + k\<rparr>"
  have c0: "uni_w_ptr h - uni_r_ptr h \<noteq> 0" using ne by (metis unat_0 less_irrefl)
  have r: "fifo_uni_read_block (Some h) (Some dst) cnt =
       Some (BUFF_OK, Some ?h, Some (take ?K (fifo_uni_bytes h) @ drop ?K dst), k)"
    using out cnt(1) c0
    by (auto simp: fifo_uni_read_block_def ring_copy_out_def Let_def word_le_nat_alt unat_sub tk
        uni_space_to_end [OF inv] uni_index [OF inv] unat_ucast_mult16 bind_eq_Some_conv
        simp flip: k_def split: if_splits)
  have u: "unat (uni_w_ptr h - (uni_r_ptr h + k)) = uni_used h - unat k"
    using k by (intro unat_diff_add) simp
  have rot: "ring_list (uni_buf h) ?N (unat (uni_r_ptr h + k) * uni_isz h) n = ring_list (uni_buf h) ?N (?R + ?K) n" for n
    using unat_add_mod_pow2 [OF facts(6), of "uni_r_ptr h" k]
    by (intro ring_list_mod_cong) (metis add_mult_distrib mult_mod_left)
  show ?thesis
  proof (rule that [OF r k])
    show "fifo_uni_inv ?h" using inv k facts(4) by (simp add: fifo_uni_inv_def u)
    show "fifo_uni_bytes ?h = drop ?K (fifo_uni_bytes h)"
      using KC rot by (simp add: fifo_uni_bytes_def u diff_mult_distrib drop_ring_list)
  qed (use u in auto)
qed

subsection \<open>Zero-copy transfer\<close>

text \<open>One item never straddles the end of the storage.\<close>

lemma uni_item_contiguous:
  assumes "fifo_uni_inv h"
  shows "uni_isz h \<le> uni_cap h * uni_isz h - uni_isz h * (unat p mod uni_cap h)"
    "uni_isz h * (unat p mod uni_cap h) + uni_isz h \<le> length (uni_buf h)"
proof -
  note facts = uni_inv_facts [OF assms]
  have "Suc (unat p mod uni_cap h) \<le> uni_cap h" using facts(1) by (simp add: Suc_le_eq)
  then have "uni_isz h * Suc (unat p mod uni_cap h) \<le> uni_isz h * uni_cap h" by (rule mult_le_mono2)
  then have *: "uni_isz h * (unat p mod uni_cap h) + uni_isz h \<le> uni_cap h * uni_isz h"
    by (simp add: mult.commute)
  then show "uni_isz h \<le> uni_cap h * uni_isz h - uni_isz h * (unat p mod uni_cap h)" by linarith
  show "uni_isz h * (unat p mod uni_cap h) + uni_isz h \<le> length (uni_buf h)" using * facts(7) by linarith
qed

lemma fifo_uni_acquire_commit:
  assumes inv: "fifo_uni_inv h" and item: "length item = uni_isz h" and space: "uni_used h < uni_cap h"
  obtains off b h' where
    "fifo_uni_write_acquire (Some h) (Some s0) = (BUFF_OK, Some off)"
    "mem_copy (uni_buf h) (unat off) item 0 (uni_isz h) = Some b"
    "fifo_uni_write_commit (Some (h\<lparr>uni_buf := b\<rparr>)) = (BUFF_OK, Some h')"
    "fifo_uni_write_block (Some h) (Some item) 1 = Some (BUFF_OK, Some h', 1)"
proof -
  let ?off = "ucast (uni_w_ptr h AND uni_mask h) * ucast (uni_item_size h) :: u32"
  let ?b = "blit (uni_buf h) (uni_isz h * (unat (uni_w_ptr h) mod uni_cap h)) item"
  have f: "uni_size h - (uni_w_ptr h - uni_r_ptr h) \<noteq> 0" "\<not> uni_size h - (uni_w_ptr h - uni_r_ptr h) < 1"
    "\<not> uni_size h \<le> uni_w_ptr h - uni_r_ptr h"
    using space uni_free_count [OF inv] by (auto simp: word_less_nat_alt word_le_nat_alt)
  note c = uni_item_contiguous [OF inv, of "uni_w_ptr h"] and off = unat_ucast_mult16 uni_index [OF inv]
  have mc: "mem_copy (uni_buf h) (unat ?off) item 0 (uni_isz h) = Some ?b"
    using c(2) item by (simp add: off mem_copy_Some)
  show ?thesis
    using f c mc item
    by (intro that [of ?off ?b "h\<lparr>uni_buf := ?b, uni_w_ptr := uni_w_ptr h + 1\<rparr>"])
      (simp_all add: fifo_uni_write_acquire_def fifo_uni_write_commit_def fifo_uni_write_block_def Let_def
        word_le_nat_alt uni_space_to_end [OF inv])
qed

lemma fifo_uni_peek_release:
  assumes inv: "fifo_uni_inv h" and ne: "0 < uni_used h" and dst: "length dst = uni_isz h"
  obtains off h' where
    "fifo_uni_read_peek (Some h) (Some s0) = (BUFF_OK, Some off)"
    "unat off + uni_isz h \<le> length (uni_buf h)"
    "fifo_uni_read_release (Some h) = (BUFF_OK, Some h')"
    "fifo_uni_read_block (Some h) (Some dst) 1 =
       Some (BUFF_OK, Some h', Some (take (uni_isz h) (drop (unat off) (uni_buf h))), 1)"
proof -
  let ?off = "ucast (uni_r_ptr h AND uni_mask h) * ucast (uni_item_size h) :: u32"
  have f: "uni_w_ptr h - uni_r_ptr h \<noteq> 0" "\<not> uni_w_ptr h - uni_r_ptr h < 1" "uni_r_ptr h \<noteq> uni_w_ptr h"
    using ne by (auto simp: word_less_nat_alt)
  note c = uni_item_contiguous [OF inv, of "uni_r_ptr h"] and off = unat_ucast_mult16 uni_index [OF inv]
  have mc: "mem_copy dst 0 (uni_buf h) (unat ?off) (uni_isz h) =
      Some (take (uni_isz h) (drop (unat ?off) (uni_buf h)))"
    using c(2) dst by (simp add: off mem_copy_Some blit_def)
  show ?thesis
    using f c mc dst
    by (intro that [of ?off "h\<lparr>uni_r_ptr := uni_r_ptr h + 1\<rparr>"])
      (simp_all add: fifo_uni_read_peek_def fifo_uni_read_release_def fifo_uni_read_block_def Let_def
        off word_le_nat_alt uni_space_to_end [OF inv])
qed

subsection \<open>Byte rings provide the bounded-queue interface\<close>

definition fifo_uni_put :: "fifo_uni_spsc \<Rightarrow> u8 list \<Rightarrow> nat \<times> fifo_uni_spsc" where
  "fifo_uni_put h xs =
     (case fifo_uni_write_block (Some h) (Some xs) (of_nat (length xs)) of
        Some (_, Some h', k) \<Rightarrow> (unat k, h') | _ \<Rightarrow> (0, h))"

definition fifo_uni_get :: "fifo_uni_spsc \<Rightarrow> nat \<Rightarrow> u8 list \<times> fifo_uni_spsc" where
  "fifo_uni_get h k =
     (case fifo_uni_read_block (Some h) (Some (replicate k 0)) (of_nat k) of
        Some (_, Some h', Some d, a) \<Rightarrow> (take (unat a) d, h') | _ \<Rightarrow> ([], h))"

definition uni_byte_inv :: "fifo_uni_spsc \<Rightarrow> bool" where
  "uni_byte_inv h \<longleftrightarrow> fifo_uni_inv h \<and> uni_item_size h = 1"

interpretation uf: bounded_fifo uni_byte_inv fifo_uni_bytes "\<lambda>h. unat (uni_size h)" fifo_uni_put fifo_uni_get "65536"
proof (unfold_locales, goal_cases)
  case (1 q)
  then show ?case by (simp add: uni_byte_inv_def fifo_uni_inv_def)
next
  case (2 q xs n q')
  let ?len = "of_nat (length xs) :: u16"
  have ul: "unat ?len = length xs" using 2(2) by (simp add: unat_of_nat)
  have inv: "fifo_uni_inv q" and one: "uni_item_size q = 1" using 2(1) by (simp_all add: uni_byte_inv_def)
  consider "xs = []" | "?len \<noteq> 0" "uni_used q = uni_cap q" | "?len \<noteq> 0" "uni_used q < uni_cap q"
    using uni_inv_facts(4) [OF inv] ul by fastforce
  then show ?case
  proof cases
    case 1
    with 2 show ?thesis by (simp add: fifo_uni_put_def fifo_uni_write_block_def)
  next
    case b: 2
    with 2 inv one show ?thesis by (simp add: fifo_uni_put_def fifo_uni_write_block_full)
  next
    case 3
    show ?thesis
      by (rule fifo_uni_write_block_ok [OF inv 3(1) _ 3(2), of xs])
        (use 2 ul one in \<open>auto simp: fifo_uni_put_def uni_byte_inv_def\<close>)
  qed
next
  case (3 q k ys q')
  let ?len = "of_nat k :: u16"
  have ul: "unat ?len = k" using 3(2) by (simp add: unat_of_nat)
  have inv: "fifo_uni_inv q" and one: "uni_item_size q = 1" using 3(1) by (simp_all add: uni_byte_inv_def)
  consider "k = 0" | "?len \<noteq> 0" "uni_used q = 0" | "?len \<noteq> 0" "0 < uni_used q" using ul by fastforce
  then show ?case
  proof cases
    case 1
    with 3 show ?thesis by (simp add: fifo_uni_get_def fifo_uni_read_block_def)
  next
    case 2
    moreover have "fifo_uni_bytes q = []" using 2(2) by (metis length_0_conv length_fifo_uni_bytes mult_0)
    ultimately show ?thesis using 3 by (simp add: fifo_uni_get_def fifo_uni_read_block_empty)
  next
    case b: 3
    show ?thesis
      by (rule fifo_uni_read_block_ok [OF inv b(1) _ b(2), of "replicate k 0"])
        (use 3 ul one in \<open>auto simp: fifo_uni_get_def uni_byte_inv_def min_def\<close>)
  qed
qed

subsection \<open>Properties\<close>

text \<open>
  C27. A block written to a universal ring comes back unchanged behind what the ring already held:
  on a well-formed ring with room, for any item width, \<open>fifo_uni_write_block\<close> accepts as many whole
  items as fit, and a later \<open>fifo_uni_read_block\<close> of everything returns the old bytes followed
  by exactly the accepted bytes, and leaves the ring empty. No access leaves the storage.
\<close>

theorem fifo_uni_roundtrip:
  assumes "fifo_uni_inv h" "cnt \<noteq> 0" "unat cnt * unat (uni_item_size h) \<le> length src"
    and "unat (uni_w_ptr h - uni_r_ptr h) < unat (uni_size h)"
    and "length dst = unat (uni_size h) * unat (uni_item_size h)"
  shows "\<exists>h1 k h2 m out. fifo_uni_write_block (Some h) (Some src) cnt = Some (BUFF_OK, Some h1, k) \<and>
    unat k = min (unat cnt) (unat (uni_size h) - unat (uni_w_ptr h - uni_r_ptr h)) \<and>
    fifo_uni_read_block (Some h1) (Some dst) (uni_size h) = Some (BUFF_OK, Some h2, Some out, m) \<and>
    take (unat m * unat (uni_item_size h)) out =
      fifo_uni_bytes h @ take (unat k * unat (uni_item_size h)) src \<and>
    fifo_uni_inv h2 \<and> fifo_uni_bytes h2 = []"
proof -
  obtain h1 k where w: "fifo_uni_write_block (Some h) (Some src) cnt = Some (BUFF_OK, Some h1, k)"
    "unat k = min (unat cnt) (uni_cap h - uni_used h)" "fifo_uni_inv h1" "uni_size h1 = uni_size h"
    "uni_item_size h1 = uni_item_size h" "uni_used h1 = uni_used h + unat k"
    "fifo_uni_bytes h1 = fifo_uni_bytes h @ take (unat k * uni_isz h) src"
    by (rule fifo_uni_write_block_ok [OF assms(1-4)])
  have "0 < unat cnt" using assms(2) by (simp add: unat_gt_0)
  then have ne: "0 < uni_used h1" using w(2,6) assms(4) by simp
  have n0: "uni_size h \<noteq> 0" and le: "uni_used h1 \<le> uni_cap h"
    using assms(4) uni_inv_facts(4) [OF w(3)] w(4) by auto
  have d: "unat (uni_size h) * uni_isz h1 \<le> length dst" using assms(5) w(5) by simp
  obtain h2 m where r: "fifo_uni_read_block (Some h1) (Some dst) (uni_size h) =
      Some (BUFF_OK, Some h2, Some (take (unat m * uni_isz h1) (fifo_uni_bytes h1) @ drop (unat m * uni_isz h1) dst), m)"
    "unat m = min (unat (uni_size h)) (uni_used h1)" "fifo_uni_inv h2"
    "fifo_uni_bytes h2 = drop (unat m * uni_isz h1) (fifo_uni_bytes h1)"
    by (rule fifo_uni_read_block_ok [OF w(3) n0 d ne])
  have m: "unat m = uni_used h1" using r(2) le by simp
  have nil: "fifo_uni_bytes h2 = []" using r(4) m by simp
  have tk: "take (unat m * uni_isz h) (take (unat m * uni_isz h1) (fifo_uni_bytes h1) @ drop (unat m * uni_isz h1) dst)
      = fifo_uni_bytes h @ take (unat k * uni_isz h) src"
    unfolding w(7) [symmetric] by (simp add: m flip: w(5))
  show ?thesis by (intro exI conjI) (rule w(1) w(2) r(1) tk r(3) nil)+
qed

theorem fifo_uni_roundtrip_witness:
  "\<exists>h2 out. fifo_uni_read_block (Some \<lparr>uni_buf = [3, 4, 1, 2], uni_size = 2, uni_item_size = 2, uni_mask = 1,
      uni_w_ptr = 3, uni_r_ptr = 1\<rparr>) (Some [0, 0, 0, 0]) 2 = Some (BUFF_OK, Some h2, Some out, 2) \<and>
     out = [1, 2, 3, 4] \<and> fifo_uni_bytes h2 = []"
proof -
  let ?h = "\<lparr>uni_buf = [0, 0, 0, 0], uni_size = 2, uni_item_size = 2, uni_mask = 1,
      uni_w_ptr = 1, uni_r_ptr = 1\<rparr>"
  have "fifo_uni_inv ?h" by (simp add: fifo_uni_inv_def pow2_u16_def)
  from fifo_uni_roundtrip [OF this, of 2 "[1, 2, 3, 4]" "[0, 0, 0, 0]"] show ?thesis
    by (auto simp: fifo_uni_write_block_def fifo_uni_read_block_def Let_def mem_copy_def blit_def
        word_le_nat_alt word_less_nat_alt)
qed

text \<open>
  C26. The zero-copy interface is the copying one: acquiring a slot, filling it with one item and
  committing it leaves exactly the ring that \<open>fifo_uni_write_block\<close> of that item leaves, and peeking
  and releasing hands out, in place, the bytes \<open>fifo_uni_read_block\<close> of one item would copy; the slot
  always lies inside the storage, however the item width divides it.
\<close>

theorem fifo_uni_zero_copy:
  assumes "fifo_uni_inv h" "length item = unat (uni_item_size h)"
    and "unat (uni_w_ptr h - uni_r_ptr h) < unat (uni_size h)"
  shows "\<exists>off b h1 off'. fifo_uni_write_acquire (Some h) (Some s0) = (BUFF_OK, Some off) \<and>
    mem_copy (uni_buf h) (unat off) item 0 (unat (uni_item_size h)) = Some b \<and>
    fifo_uni_write_commit (Some (h\<lparr>uni_buf := b\<rparr>)) = (BUFF_OK, Some h1) \<and>
    fifo_uni_write_block (Some h) (Some item) 1 = Some (BUFF_OK, Some h1, 1) \<and>
    fifo_uni_read_peek (Some h1) (Some s0) = (BUFF_OK, Some off') \<and>
    unat off' + unat (uni_item_size h) \<le> length (uni_buf h1) \<and>
    fifo_uni_read_block (Some h1) (Some item) 1 =
      Some (BUFF_OK, snd (fifo_uni_read_release (Some h1)),
            Some (take (unat (uni_item_size h)) (drop (unat off') (uni_buf h1))), 1)"
proof -
  obtain off b h1 where a: "fifo_uni_write_acquire (Some h) (Some s0) = (BUFF_OK, Some off)"
    "mem_copy (uni_buf h) (unat off) item 0 (uni_isz h) = Some b"
    "fifo_uni_write_commit (Some (h\<lparr>uni_buf := b\<rparr>)) = (BUFF_OK, Some h1)"
    "fifo_uni_write_block (Some h) (Some item) 1 = Some (BUFF_OK, Some h1, 1)"
    by (rule fifo_uni_acquire_commit [OF assms])
  have one: "(1 :: u16) \<noteq> 0" "unat (1 :: u16) * uni_isz h \<le> length item" using assms(2) by simp_all
  have h1: "fifo_uni_inv h1" "uni_item_size h1 = uni_item_size h" "0 < uni_used h1"
    by (rule fifo_uni_write_block_ok [OF assms(1) one assms(3)], use a(4) assms(3) in auto)+
  have l: "length item = uni_isz h1" using assms(2) h1(2) by simp
  show ?thesis
    by (rule fifo_uni_peek_release [OF h1(1,3) l, of s0]) (use a h1(2) in auto)
qed

theorem fifo_uni_zero_copy_witness:
  "\<exists>b. mem_copy [0, 0, 0, 0, 0, 0] (3 :: nat) [7, 8, 9 :: u8] 0 3 = Some b \<and>
    fifo_uni_write_block (Some \<lparr>uni_buf = [0, 0, 0, 0, 0, 0], uni_size = 2, uni_item_size = 3, uni_mask = 1,
      uni_w_ptr = 1, uni_r_ptr = 0\<rparr>) (Some [7, 8, 9]) 1 =
    Some (BUFF_OK, Some \<lparr>uni_buf = b, uni_size = 2, uni_item_size = 3, uni_mask = 1,
      uni_w_ptr = 2, uni_r_ptr = 0\<rparr>, 1)"
proof -
  let ?h = "\<lparr>uni_buf = [0, 0, 0, 0, 0, 0], uni_size = 2, uni_item_size = 3, uni_mask = 1,
      uni_w_ptr = 1, uni_r_ptr = 0\<rparr>"
  have "fifo_uni_inv ?h" by (simp add: fifo_uni_inv_def pow2_u16_def)
  from fifo_uni_zero_copy [OF this, of "[7, 8, 9]" 0] show ?thesis
    by (auto simp: fifo_uni_write_acquire_def fifo_uni_write_commit_def Let_def word_le_nat_alt)
qed

end
