(* ===== verification/Crc.thy ===== *)
theory Crc
  imports MT_Prelude
begin

text \<open>
  The parametric CRC of \<^verbatim>\<open>mini-log/src/crc.c\<close> (the same code is in
  \<^verbatim>\<open>lib/mini-ota/algorithm/src/crc.c\<close>): the bit-by-bit engine, the engine with the cached
  256-entry table, and the streaming interface over either of them. Lemmas: both
  engines compute the same register, feeding in pieces is feeding at once, and a
  message altered within one byte is detected.
\<close>

fun reflect_loop :: "nat \<Rightarrow> u32 \<Rightarrow> u32 \<Rightarrow> u32" where
  "reflect_loop 0 result v = result"
| "reflect_loop (Suc n) result v = reflect_loop n (push_bit 1 result OR (v AND 1)) (drop_bit 1 v)"

definition reflect :: "u32 \<Rightarrow> u8 \<Rightarrow> u32" where
  "reflect v width = reflect_loop (unat width) 0 v"

definition crc_mask :: "u8 \<Rightarrow> u32" where
  "crc_mask width = (if 32 \<le> width then 0xFFFFFFFF else push_bit (unat width) 1 - 1)"

text \<open>The body of the inner loops: one shift of the register.\<close>

definition crc_shift_right :: "u32 \<Rightarrow> u32 \<Rightarrow> u32 \<Rightarrow> u32" where
  "crc_shift_right poly msk reg =
     (if reg AND 1 \<noteq> 0 then drop_bit 1 reg XOR poly else drop_bit 1 reg) AND msk"

definition crc_shift_left :: "u32 \<Rightarrow> u32 \<Rightarrow> u32 \<Rightarrow> u32 \<Rightarrow> u32" where
  "crc_shift_left tb poly msk reg =
     (if reg AND tb \<noteq> 0 then push_bit 1 reg XOR poly else push_bit 1 reg) AND msk"

definition crc_byte_refin :: "u32 \<Rightarrow> u8 \<Rightarrow> u32 \<Rightarrow> u32 \<Rightarrow> u8 \<Rightarrow> u32" where
  "crc_byte_refin poly width msk reg byte =
     (if 8 \<le> width then (crc_shift_right poly msk ^^ 8) (reg XOR ucast byte)
      else fold (\<lambda>i r. crc_shift_right poly msk (r XOR (ucast (drop_bit i byte) AND 1))) [0..<8] reg)"

definition crc_byte_norm :: "u32 \<Rightarrow> u8 \<Rightarrow> u32 \<Rightarrow> u32 \<Rightarrow> u8 \<Rightarrow> u32" where
  "crc_byte_norm poly width msk reg byte =
     (let top_bit = push_bit (unat width - 1) 1 in
      if 8 \<le> width then (crc_shift_left top_bit poly msk ^^ 8) (reg XOR push_bit (unat width - 8) (ucast byte))
      else fold (\<lambda>i r. crc_shift_left top_bit poly msk
                          (r XOR push_bit (unat width - 1) (ucast (drop_bit i byte) AND 1))) (rev [0..<8]) reg)"

definition crc_bitwise_engine :: "u8 list \<Rightarrow> u32 \<Rightarrow> bool \<Rightarrow> u32 \<Rightarrow> u8 \<Rightarrow> u32 \<Rightarrow> u32" where
  "crc_bitwise_engine data reg refin poly width msk =
     foldl (if refin then crc_byte_refin poly width msk else crc_byte_norm poly width msk) reg data"

record crc_cache =
  crc_table :: "u32 list"
  table_poly :: u32
  table_width :: u8
  table_refin :: bool
  table_ready :: bool

definition crc_cache_init :: crc_cache where
  "crc_cache_init = \<lparr>crc_table = replicate 256 0, table_poly = 0, table_width = 0,
                     table_refin = False, table_ready = False\<rparr>"

definition crc_table_entry :: "u32 \<Rightarrow> u8 \<Rightarrow> bool \<Rightarrow> u32 \<Rightarrow> u32" where
  "crc_table_entry poly width refin i =
     (let msk = crc_mask width; top_bit = push_bit (unat width - 1) 1;
          r = (if refin then ((\<lambda>r. if r AND 1 \<noteq> 0 then drop_bit 1 r XOR poly else drop_bit 1 r) ^^ 8) i
               else ((\<lambda>r. if r AND top_bit \<noteq> 0 then (push_bit 1 r XOR poly) AND msk
                          else push_bit 1 r AND msk) ^^ 8) (push_bit (unat width - 8) i)) in
      r AND msk)"

definition crc_table_build :: "u32 \<Rightarrow> u8 \<Rightarrow> bool \<Rightarrow> crc_cache" where
  "crc_table_build poly width refin =
     \<lparr>crc_table = map (\<lambda>i. crc_table_entry poly width refin (of_nat i)) [0..<256],
      table_poly = poly, table_width = width, table_refin = refin, table_ready = True\<rparr>"

fun crc_table_loop :: "u32 list \<Rightarrow> bool \<Rightarrow> u8 \<Rightarrow> u32 \<Rightarrow> u8 list \<Rightarrow> u32 \<Rightarrow> u32 option" where
  "crc_table_loop tab refin width msk [] reg = Some reg"
| "crc_table_loop tab refin width msk (byte # data) reg =
     (if refin then do {
        t \<leftarrow> arr_get tab (unat ((reg XOR ucast byte) AND 0xFF));
        crc_table_loop tab refin width msk data (drop_bit 8 reg XOR t) }
      else do {
        let idx = (ucast (drop_bit (unat width - 8) reg XOR ucast byte) :: u8);
        t \<leftarrow> arr_get tab (unat idx);
        crc_table_loop tab refin width msk data ((push_bit 8 reg AND msk) XOR t) })"

definition crc_table_engine ::
    "crc_cache \<Rightarrow> u8 list \<Rightarrow> u32 \<Rightarrow> bool \<Rightarrow> u32 \<Rightarrow> u8 \<Rightarrow> u32 \<Rightarrow> (u32 \<times> crc_cache) option" where
  "crc_table_engine c data reg refin poly width msk =
     (if width < 8 then Some (crc_bitwise_engine data reg refin poly width msk, c)
      else
        let c' = (if \<not> table_ready c \<or> table_width c \<noteq> width \<or> table_refin c \<noteq> refin \<or> table_poly c \<noteq> poly
                  then crc_table_build poly width refin else c) in
        do { r \<leftarrow> crc_table_loop (crc_table c') refin width msk data reg; Some (r, c') })"

definition crc_finalize :: "u32 \<Rightarrow> u8 \<Rightarrow> bool \<Rightarrow> bool \<Rightarrow> u32 \<Rightarrow> u32 \<Rightarrow> u32" where
  "crc_finalize reg width refin refout xor_out msk =
     ((if refin \<noteq> refout then reflect reg width else reg) XOR xor_out) AND msk"

record crc_stream_t =
  cs_reg :: u32
  cs_poly :: u32
  cs_xor_out :: u32
  cs_width :: u8
  cs_refin :: bool
  cs_refout :: bool

text \<open>A null stream pointer faults in \<open>crc_stream_start\<close>: the guard itself writes through it.\<close>

definition crc_stream_start ::
    "crc_stream_t option \<Rightarrow> u32 \<Rightarrow> bool \<Rightarrow> bool \<Rightarrow> u32 \<Rightarrow> u32 \<Rightarrow> u8 \<Rightarrow> crc_stream_t option" where
  "crc_stream_start init_state init refin refout xor_out poly width =
     (case init_state of
        None \<Rightarrow> None
      | Some s \<Rightarrow>
          if width = 0 \<or> 32 < width then Some (s\<lparr>cs_width := 0\<rparr>)
          else
            let msk = crc_mask width in
            Some \<lparr>cs_reg = (if refin then reflect init width AND msk else init AND msk),
                  cs_poly = (if refin then reflect poly width AND msk else poly AND msk),
                  cs_xor_out = xor_out, cs_width = width, cs_refin = refin, cs_refout = refout\<rparr>)"

definition crc_stream_feed ::
    "crc_cache \<Rightarrow> crc_stream_t option \<Rightarrow> u8 list \<Rightarrow> (crc_cache \<times> crc_stream_t option) option" where
  "crc_stream_feed c s data =
     (case s of
        None \<Rightarrow> Some (c, None)
      | Some st \<Rightarrow>
          if cs_width st = 0 \<or> 32 < cs_width st then Some (c, Some st)
          else do {
            (r, c') \<leftarrow> crc_table_engine c data (cs_reg st) (cs_refin st) (cs_poly st) (cs_width st)
                         (crc_mask (cs_width st));
            Some (c', Some (st\<lparr>cs_reg := r\<rparr>))
          })"

text \<open>The same function as compiled with \<open>CRC_MODE\<close> off.\<close>

definition crc_stream_feed_bitwise :: "crc_stream_t option \<Rightarrow> u8 list \<Rightarrow> crc_stream_t option" where
  "crc_stream_feed_bitwise s data =
     (case s of
        None \<Rightarrow> None
      | Some st \<Rightarrow>
          if cs_width st = 0 \<or> 32 < cs_width st then Some st
          else Some (st\<lparr>cs_reg := crc_bitwise_engine data (cs_reg st) (cs_refin st) (cs_poly st)
                                    (cs_width st) (crc_mask (cs_width st))\<rparr>))"

definition crc_stream_finish :: "crc_stream_t option \<Rightarrow> u32" where
  "crc_stream_finish s =
     (case s of
        None \<Rightarrow> 0
      | Some st \<Rightarrow>
          if cs_width st = 0 \<or> 32 < cs_width st then 0
          else crc_finalize (cs_reg st) (cs_width st) (cs_refin st) (cs_refout st) (cs_xor_out st)
                 (crc_mask (cs_width st)))"

subsection \<open>One shift of the register, bit by bit\<close>

lemma bit_crc_mask: "bit (crc_mask w) i \<longleftrightarrow> i < 32 \<and> i < unat w"
proof (cases "32 \<le> w")
  case True
  then have "32 \<le> unat w" by (simp add: word_le_nat_alt)
  moreover have "crc_mask w = mask 32" using True by (simp add: crc_mask_def mask_eq_exp_minus_1)
  ultimately show ?thesis by (auto simp only: bit_mask_iff) (simp_all add: possible_bit_word)
next
  case False
  then show ?thesis by (auto simp: crc_mask_def bit_mask_iff push_bit_of_1 simp flip: mask_eq_exp_minus_1)
qed

lemma bit_shift_right:
  "i < 32 \<Longrightarrow> bit (crc_shift_right poly msk reg) i \<longleftrightarrow> bit msk i \<and> (bit reg (Suc i) \<noteq> (bit reg 0 \<and> bit poly i))"
  by (auto simp: crc_shift_right_def bit_simps and_one_eq bit_0 odd_iff_mod_2_eq_one)

lemma bit_shift_left:
  assumes "i < 32"
  shows "bit (crc_shift_left (push_bit k 1) poly msk reg) i \<longleftrightarrow>
     bit msk i \<and> ((0 < i \<and> bit reg (i - 1)) \<noteq> (bit reg k \<and> bit poly i))"
proof -
  have "bit (push_bit 1 reg) i \<longleftrightarrow> 0 < i \<and> bit reg (i - 1)"
    unfolding bit_push_bit_iff using assms by (auto simp: possible_bit_word)
  then show ?thesis
    unfolding crc_shift_left_def bit_iff_and_push_bit_not_eq_0 [of reg k, symmetric]
    by (auto simp only: bit_and_iff bit_xor_iff split: if_split)
qed

definition xor_linear :: "(u32 \<Rightarrow> u32) \<Rightarrow> bool" where
  "xor_linear f \<longleftrightarrow> (\<forall>a b. f (a XOR b) = f a XOR f b)"

lemma xor_linearD: "xor_linear f \<Longrightarrow> f (a XOR b) = f a XOR f b"
  by (simp add: xor_linear_def)

lemma xor_linear_funpow: "xor_linear f \<Longrightarrow> xor_linear (f ^^ n)"
  by (induction n) (simp_all add: xor_linear_def)

lemma shift_right_linear: "xor_linear (crc_shift_right poly msk)"
  unfolding xor_linear_def
  by (intro allI bit_word_eqI) (auto simp: bit_shift_right bit_simps)

lemma shift_left_linear: "xor_linear (crc_shift_left (push_bit k 1) poly msk)"
  unfolding xor_linear_def
proof (intro allI bit_word_eqI)
  fix a b :: u32 and n assume "n < LENGTH(32)"
  then have "n < 32" by simp
  then show "bit (crc_shift_left (push_bit k 1) poly msk (a XOR b)) n =
      bit (crc_shift_left (push_bit k 1) poly msk a XOR crc_shift_left (push_bit k 1) poly msk b) n"
    by (auto simp only: bit_shift_left bit_xor_iff)
qed

definition within :: "u32 \<Rightarrow> u8 \<Rightarrow> bool" where
  "within x w \<longleftrightarrow> (\<forall>i. unat w \<le> i \<longrightarrow> \<not> bit x i)"

lemma within_and_mask: "within (x AND crc_mask w) w"
  by (simp add: within_def bit_simps bit_crc_mask)

lemma shift_right_within: "within (crc_shift_right poly (crc_mask w) reg) w"
  by (simp add: crc_shift_right_def within_and_mask)

lemma shift_left_within: "within (crc_shift_left tb poly (crc_mask w) reg) w"
  by (simp add: crc_shift_left_def within_and_mask)

text \<open>Shifting out bits that are zero is a plain shift.\<close>

lemma shift_right_zeros:
  "within x w \<Longrightarrow> \<forall>i<n. \<not> bit x i \<Longrightarrow> (crc_shift_right poly (crc_mask w) ^^ n) x = drop_bit n x"
proof (induction n)
  case (Suc n)
  then have "(crc_shift_right poly (crc_mask w) ^^ Suc n) x = crc_shift_right poly (crc_mask w) (drop_bit n x)"
    by simp
  also have "\<dots> = drop_bit (Suc n) x"
  proof (rule bit_word_eqI)
    fix i assume "i < LENGTH(32)"
    then have i: "i < 32" by simp
    have "i < unat w \<or> \<not> bit x (Suc (n + i))" using Suc.prems(1) by (auto simp: within_def not_less)
    with i show "bit (crc_shift_right poly (crc_mask w) (drop_bit n x)) i = bit (drop_bit (Suc n) x) i"
      using Suc.prems(2)
      by (auto simp: bit_shift_right bit_drop_bit_eq bit_crc_mask)
  qed
  finally show ?case .
qed simp

lemma shift_left_zeros:
  "w \<noteq> 0 \<Longrightarrow> w \<le> 32 \<Longrightarrow> n \<le> unat w \<Longrightarrow> \<forall>i. unat w - n \<le> i \<longrightarrow> \<not> bit x i \<Longrightarrow>
   (crc_shift_left (push_bit (unat w - 1) 1) poly (crc_mask w) ^^ n) x = push_bit n x"
proof (induction n)
  case (Suc n)
  then have w: "unat w \<le> 32" "0 < unat w" by (simp_all add: word_le_nat_alt unat_gt_0)
  have "(crc_shift_left (push_bit (unat w - 1) 1) poly (crc_mask w) ^^ Suc n) x =
      crc_shift_left (push_bit (unat w - 1) 1) poly (crc_mask w) (push_bit n x)"
    using Suc by simp
  also have "\<dots> = push_bit (Suc n) x"
  proof (rule bit_word_eqI)
    fix i assume "i < LENGTH(32)"
    then have i: "i < 32" by simp
    have "i < unat w \<or> i < Suc n \<or> \<not> bit x (i - Suc n)" using Suc.prems(4) by (auto simp: not_less)
    then show "bit (crc_shift_left (push_bit (unat w - 1) 1) poly (crc_mask w) (push_bit n x)) i =
        bit (push_bit (Suc n) x) i"
      unfolding bit_shift_left [OF i] bit_push_bit_iff bit_crc_mask
      using Suc.prems(3,4) w i
      by (auto simp: possible_bit_word)
  qed
  finally show ?case .
qed simp

subsection \<open>The table engine computes the same register\<close>

lemma within_bit: "within x w \<Longrightarrow> bit x i \<Longrightarrow> i < unat w"
  by (meson not_less within_def)

lemma bit_u8_less: "bit (b :: u8) i \<Longrightarrow> i < 8"
  using bit_imp_le_length [of b i] by simp

lemma xor_split_mask: "(x :: u32) = (x AND m) XOR (x AND NOT m)"
  by (rule bit_word_eqI) (auto simp: bit_simps)

lemma within_mask_id: "within x w \<Longrightarrow> x AND crc_mask w = x"
  by (rule bit_word_eqI) (auto simp: bit_simps bit_crc_mask dest: within_bit)

lemma within_xor: "within x w \<Longrightarrow> within y w \<Longrightarrow> within (x XOR y) w"
  by (simp add: within_def bit_simps)

lemma within_drop: "within x w \<Longrightarrow> within (drop_bit n x) w"
  by (simp add: within_def bit_simps)

lemma within_byte: "8 \<le> w \<Longrightarrow> within (ucast (b :: u8)) w"
  by (auto simp: within_def bit_simps word_le_nat_alt dest: bit_u8_less)

lemma unat_ge8: "8 \<le> (w :: u8) \<Longrightarrow> 8 \<le> unat w"
  by (simp add: word_le_nat_alt)

lemma unat_le32: "(w :: u8) \<le> 32 \<Longrightarrow> unat w \<le> 32"
  by (simp add: word_le_nat_alt)

lemma table_entry_right:
  assumes "within poly w" "within i w"
  shows "crc_table_entry poly w True i = (crc_shift_right poly (crc_mask w) ^^ 8) i"
proof -
  let ?f = "\<lambda>r. if r AND 1 \<noteq> 0 then drop_bit 1 r XOR poly else drop_bit 1 r"
  let ?S = "crc_shift_right poly (crc_mask w)"
  have step: "?f r = ?S r" if "within r w" for r
    using assms(1) that within_drop [OF that, of 1]
    by (auto simp only: crc_shift_right_def within_mask_id within_xor split: if_split)
  have "(?f ^^ n) i = (?S ^^ n) i \<and> within ((?S ^^ n) i) w" for n
    using assms(2) by (induction n) (simp_all only: funpow.simps o_apply id_apply step shift_right_within simp_thms)
  from this [of 8] show ?thesis by (simp only: crc_table_entry_def Let_def if_True within_mask_id)
qed

lemma table_entry_left:
  assumes "w \<noteq> 0"
  shows "crc_table_entry poly w False i =
    (crc_shift_left (push_bit (unat w - 1) 1) poly (crc_mask w) ^^ 8) (push_bit (unat w - 8) i)"
proof -
  let ?g = "\<lambda>r. if r AND push_bit (unat w - 1) 1 \<noteq> 0 then (push_bit 1 r XOR poly) AND crc_mask w
                else push_bit 1 r AND crc_mask w"
  let ?L = "crc_shift_left (push_bit (unat w - 1) 1) poly (crc_mask w)"
  have g: "?g = ?L" by (intro ext) (simp only: crc_shift_left_def if_distrib [of "\<lambda>x. x AND crc_mask w"])
  have "within ((?L ^^ Suc n) x) w" for n x by (simp add: shift_left_within)
  from this [of 7] have "within ((?L ^^ 8) x) w" for x by (simp add: eval_nat_numeral)
  then show ?thesis by (simp only: crc_table_entry_def Let_def if_False g within_mask_id simp_thms)
qed

lemma byte_refin_table:
  assumes "8 \<le> w" "w \<le> 32" "within poly w" "within reg w"
  shows "crc_byte_refin poly w (crc_mask w) reg byte =
    drop_bit 8 reg XOR crc_table_entry poly w True ((reg XOR ucast byte) AND 0xFF)"
proof -
  let ?S = "crc_shift_right poly (crc_mask w)" and ?y = "reg XOR ucast byte :: u32"
  have ff: "(0xFF :: u32) = mask 8" by (simp add: mask_eq_exp_minus_1)
  have y: "within ?y w" using assms within_byte by (intro within_xor)
  have lo: "within (?y AND 0xFF) w" using y by (simp add: within_def bit_simps)
  have hi: "within (?y AND NOT 0xFF) w" using y by (simp add: within_def bit_simps)
  have "(?S ^^ 8) ?y = (?S ^^ 8) (?y AND 0xFF) XOR (?S ^^ 8) (?y AND NOT 0xFF)"
    using xor_linearD [OF xor_linear_funpow [OF shift_right_linear], of 8 poly "crc_mask w" "?y AND 0xFF"]
    by (metis xor_split_mask)
  moreover have "(?S ^^ 8) (?y AND NOT 0xFF) = drop_bit 8 (?y AND NOT 0xFF)"
    using hi by (rule shift_right_zeros) (auto simp: ff bit_and_iff bit_not_iff bit_mask_iff possible_bit_word)
  moreover have "drop_bit 8 (?y AND NOT 0xFF) = drop_bit 8 reg"
    unfolding ff
    by (rule bit_word_eqI)
      (auto simp: bit_drop_bit_eq bit_and_iff bit_xor_iff bit_not_iff bit_mask_iff possible_bit_word
        bit_ucast_iff dest: bit_imp_le_length)
  ultimately show ?thesis
    using assms(1) table_entry_right [OF assms(3) lo] by (simp add: crc_byte_refin_def xor.commute)
qed

lemma byte_norm_table:
  fixes byte :: u8
  assumes "8 \<le> w" "w \<le> 32" "within reg w"
  defines "idx \<equiv> ucast (drop_bit (unat w - 8) reg XOR ucast byte) :: u8"
  shows "crc_byte_norm poly w (crc_mask w) reg byte =
    (push_bit 8 reg AND crc_mask w) XOR crc_table_entry poly w False (ucast idx)"
proof -
  let ?L = "crc_shift_left (push_bit (unat w - 1) 1) poly (crc_mask w)"
  let ?lo = "reg AND mask (unat w - 8)" and ?hi = "push_bit (unat w - 8) (ucast idx) :: u32"
  have w: "8 \<le> unat w" "unat w \<le> 32" "w \<noteq> 0" using assms(1,2) unat_ge8 unat_le32 by auto
  have e: "reg XOR push_bit (unat w - 8) (ucast byte) = ?hi XOR ?lo"
  proof (rule bit_word_eqI)
    fix i assume "i < LENGTH(32)"
    then have i: "i < 32" by simp
    have "\<not> bit reg i \<or> i < unat w" using assms(3) by (auto dest: within_bit)
    then show "bit (reg XOR push_bit (unat w - 8) (ucast byte)) i = bit (?hi XOR ?lo) i"
      using i w unfolding idx_def
      by (auto simp: bit_xor_iff bit_push_bit_iff bit_and_iff bit_mask_iff bit_ucast_iff bit_drop_bit_eq
          possible_bit_word dest: bit_u8_less)
  qed
  have "(?L ^^ 8) ?lo = push_bit 8 ?lo"
    using w assms(2) by (intro shift_left_zeros) (auto simp: bit_and_iff bit_mask_iff)
  moreover have "push_bit 8 ?lo = push_bit 8 reg AND crc_mask w"
    using w by (intro bit_word_eqI)
      (auto simp: bit_push_bit_iff bit_and_iff bit_mask_iff bit_crc_mask possible_bit_word)
  moreover have "(?L ^^ 8) (?hi XOR ?lo) = (?L ^^ 8) ?hi XOR (?L ^^ 8) ?lo"
    by (intro xor_linearD xor_linear_funpow shift_left_linear)
  ultimately show ?thesis
    using assms(1) table_entry_left [OF w(3)] by (simp only: crc_byte_norm_def Let_def if_True e xor.commute)
qed

definition crc_byte :: "bool \<Rightarrow> u32 \<Rightarrow> u8 \<Rightarrow> u32 \<Rightarrow> u8 \<Rightarrow> u32" where
  "crc_byte refin poly w = (if refin then crc_byte_refin poly w (crc_mask w) else crc_byte_norm poly w (crc_mask w))"

lemma engine_Nil: "crc_bitwise_engine [] reg refin poly w (crc_mask w) = reg"
  by (simp add: crc_bitwise_engine_def)

lemma engine_Cons:
  "crc_bitwise_engine (b # data) reg refin poly w (crc_mask w) =
   crc_bitwise_engine data (crc_byte refin poly w reg b) refin poly w (crc_mask w)"
  by (simp add: crc_bitwise_engine_def crc_byte_def)

lemma engine_append:
  "crc_bitwise_engine (xs @ ys) reg refin poly w (crc_mask w) =
   crc_bitwise_engine ys (crc_bitwise_engine xs reg refin poly w (crc_mask w)) refin poly w (crc_mask w)"
  by (simp add: crc_bitwise_engine_def)

lemma within_fold: "xs \<noteq> [] \<Longrightarrow> (\<And>i r. within (f i r) w) \<Longrightarrow> within (fold f xs reg) w"
  by (induction xs rule: rev_induct) simp_all

lemma crc_byte_within: "within (crc_byte refin poly w reg b) w"
proof -
  have r: "within ((crc_shift_right poly (crc_mask w) ^^ 8) x) w" for x
    unfolding eval_nat_numeral by (simp only: funpow.simps o_apply shift_right_within)
  have l: "within ((crc_shift_left tb poly (crc_mask w) ^^ 8) x) w" for x tb
    unfolding eval_nat_numeral by (simp only: funpow.simps o_apply shift_left_within)
  show ?thesis
    by (simp add: crc_byte_def crc_byte_refin_def crc_byte_norm_def Let_def r l
        within_fold shift_right_within shift_left_within)
qed

lemma engine_within: "within reg w \<Longrightarrow> within (crc_bitwise_engine data reg refin poly w (crc_mask w)) w"
  by (induction data arbitrary: reg) (simp_all add: engine_Nil engine_Cons crc_byte_within)

lemma table_get:
  assumes "unat z < 256"
  shows "arr_get (crc_table (crc_table_build poly w refin)) (unat z) = Some (crc_table_entry poly w refin z)"
  using assms by (simp add: crc_table_build_def)

lemma unat_ucast_8_32: "unat (ucast (b :: u8) :: u32) = unat b"
  using unsigned_less [of b, where ?'a = nat] by (simp add: unsigned_ucast_eq take_bit_nat_eq_self)

lemma unat_and_FF: "unat ((z :: u32) AND 0xFF) < 256"
proof -
  have "z AND 0xFF = take_bit 8 z" by (simp add: take_bit_eq_mask mask_eq_exp_minus_1)
  then show ?thesis by (simp add: unsigned_take_bit_eq take_bit_nat_less_exp [of 8, simplified])
qed

lemma table_loop_eq:
  assumes "8 \<le> w" "w \<le> 32" "within poly w"
  shows "within reg w \<Longrightarrow>
    crc_table_loop (crc_table (crc_table_build poly w refin)) refin w (crc_mask w) data reg =
    Some (crc_bitwise_engine data reg refin poly w (crc_mask w))"
proof (induction data arbitrary: reg)
  case Nil
  then show ?case by (simp add: engine_Nil)
next
  case (Cons b data)
  note IH = Cons.IH [OF crc_byte_within, of refin poly reg b]
  show ?case
  proof (cases refin)
    case True
    with IH unat_and_FF [of "reg XOR ucast b"] byte_refin_table [OF assms Cons.prems, of b] show ?thesis
      by (simp add: table_get engine_Cons crc_byte_def)
  next
    case False
    let ?idx = "ucast (drop_bit (unat w - 8) reg XOR ucast b) :: u8"
    have "arr_get (crc_table (crc_table_build poly w False)) (unat ?idx) =
        Some (crc_table_entry poly w False (ucast ?idx))"
      using table_get [of "ucast ?idx" poly w False] unsigned_less [of ?idx, where ?'a = nat]
      unfolding unat_ucast_8_32 by simp
    with False IH byte_norm_table [OF assms(1,2) Cons.prems, of poly b] show ?thesis
      by (simp add: engine_Cons crc_byte_def)
  qed
qed

definition cache_ok :: "crc_cache \<Rightarrow> bool" where
  "cache_ok c \<longleftrightarrow>
     (table_ready c \<longrightarrow> c = crc_table_build (table_poly c) (table_width c) (table_refin c))"

lemma table_engine_eq:
  assumes "w \<le> 32" "within poly w" "within reg w" "cache_ok c"
  obtains c' where "cache_ok c'"
    "crc_table_engine c data reg refin poly w (crc_mask w) =
       Some (crc_bitwise_engine data reg refin poly w (crc_mask w), c')"
proof (cases "w < 8")
  case True
  then show ?thesis using that assms(4) by (simp add: crc_table_engine_def)
next
  case False
  then have w: "8 \<le> w" by simp
  define c' where "c' = (if \<not> table_ready c \<or> table_width c \<noteq> w \<or> table_refin c \<noteq> refin \<or> table_poly c \<noteq> poly
    then crc_table_build poly w refin else c)"
  have c': "c' = crc_table_build poly w refin" using assms(4) by (auto simp: c'_def cache_ok_def)
  then have "cache_ok c'" by (simp add: cache_ok_def crc_table_build_def)
  moreover have "crc_table_engine c data reg refin poly w (crc_mask w) =
      Some (crc_bitwise_engine data reg refin poly w (crc_mask w), c')"
    unfolding crc_table_engine_def Let_def c'_def [symmetric]
    using False table_loop_eq [OF w assms(1-3)] by (simp add: c')
  ultimately show ?thesis by (rule that)
qed

subsection \<open>Reflection\<close>

lemma bit_reflect_loop:
  "i < 32 \<Longrightarrow> bit (reflect_loop n r v) i \<longleftrightarrow> (if i < n then bit v (n - 1 - i) else bit r (i - n))"
proof (induction n arbitrary: r v)
  case (Suc n)
  have p: "bit (push_bit 1 r OR (v AND 1)) j \<longleftrightarrow> (if j = 0 then bit v 0 else bit r (j - 1))" if "j < 32" for j
    using that unfolding bit_or_iff bit_push_bit_iff bit_and_iff bit_1_iff by (auto simp: possible_bit_word)
  have "bit (reflect_loop (Suc n) r v) i \<longleftrightarrow>
      (if i < n then bit (drop_bit 1 v) (n - 1 - i) else bit (push_bit 1 r OR (v AND 1)) (i - n))"
    using Suc.IH [OF Suc.prems] by (simp only: reflect_loop.simps)
  also have "\<dots> \<longleftrightarrow> (if i < Suc n then bit v (Suc n - 1 - i) else bit r (i - Suc n))"
    using Suc.prems p [of "i - n"] by (auto simp: bit_drop_bit_eq less_Suc_eq Suc_diff_Suc)
  finally show ?case .
qed simp

lemma bit_reflect: "i < 32 \<Longrightarrow> bit (reflect v w) i \<longleftrightarrow> i < unat w \<and> bit v (unat w - 1 - i)"
  by (simp add: reflect_def bit_reflect_loop)

lemma reflect_reflect:
  assumes "within v w" "w \<le> 32"
  shows "reflect (reflect v w) w = v"
proof (rule bit_word_eqI)
  fix i assume "i < LENGTH(32)"
  then show "bit (reflect (reflect v w) w) i = bit v i"
    using within_bit [OF assms(1), of i] unat_le32 [OF assms(2)] by (auto simp: bit_reflect)
qed

subsection \<open>No two registers collapse\<close>

text \<open>
  With an odd generator polynomial a shift is injective on registers of the CRC's width, hence so
  is the absorption of a byte, and two messages that differ in one byte end differently.
\<close>

lemma xor_eq_0: "(a :: u32) XOR b = 0 \<Longrightarrow> a = b"
  by (metis xor.assoc xor_self_eq xor.left_neutral xor.right_neutral)

definition poly_ok :: "bool \<Rightarrow> u32 \<Rightarrow> u8 \<Rightarrow> bool" where
  "poly_ok refin poly w \<longleftrightarrow> (if refin then bit poly (unat w - 1) else bit poly 0)"

lemma shift_right_ker:
  assumes "within x w" "bit poly (unat w - 1)" "w \<noteq> 0" "w \<le> 32" "crc_shift_right poly (crc_mask w) x = 0"
  shows "x = 0"
proof (rule bit_word_eqI)
  fix i assume i: "i < LENGTH(32)"
  have w: "0 < unat w" "unat w \<le> 32" using assms(3,4) by (simp_all add: unat_gt_0 unat_le32)
  have z: "\<not> (bit (crc_mask w) j \<and> (bit x (Suc j) \<noteq> (bit x 0 \<and> bit poly j)))" if "j < 32" for j
    using assms(5) bit_shift_right [OF that, of poly "crc_mask w" x] by simp
  have "\<not> bit x (unat w)" using within_bit [OF assms(1), of "unat w"] by auto
  then have "\<not> bit x 0" using z [of "unat w - 1"] w assms(2) by (auto simp: bit_crc_mask)
  moreover have "\<not> bit x (Suc j)" for j
    using z [of j] \<open>\<not> bit x 0\<close> within_bit [OF assms(1), of "Suc j"] w by (auto simp: bit_crc_mask)
  ultimately show "bit x i = bit 0 i" by (cases i) auto
qed

lemma shift_left_ker:
  assumes "within x w" "bit poly 0" "w \<noteq> 0" "w \<le> 32"
    "crc_shift_left (push_bit (unat w - 1) 1) poly (crc_mask w) x = 0"
  shows "x = 0"
proof (rule bit_word_eqI)
  fix i assume i: "i < LENGTH(32)"
  have w: "0 < unat w" "unat w \<le> 32" using assms(3,4) by (simp_all add: unat_gt_0 unat_le32)
  have z: "\<not> (bit (crc_mask w) j \<and> ((0 < j \<and> bit x (j - 1)) \<noteq> (bit x (unat w - 1) \<and> bit poly j)))"
    if "j < 32" for j
    using assms(5) bit_shift_left [OF that, of "unat w - 1" poly "crc_mask w" x] by simp
  have t: "\<not> bit x (unat w - 1)" using z [of 0] w assms(2) by (auto simp: bit_crc_mask)
  consider "Suc i < unat w" | "i = unat w - 1" | "unat w \<le> i" by linarith
  then show "bit x i = bit 0 i"
    by cases (use z [of "Suc i"] t within_bit [OF assms(1), of i] w in \<open>auto simp: bit_crc_mask\<close>)
qed

lemma funpow_ker:
  assumes "\<And>x. within x w \<Longrightarrow> f x = 0 \<Longrightarrow> x = 0" "\<And>x. within (f x) w" "within x w" "(f ^^ n) x = 0"
  shows "x = 0"
  using assms(3,4)
proof (induction n arbitrary: x)
  case (Suc n)
  have "(f ^^ n) (f x) = 0" using Suc.prems(2) by (simp only: funpow_Suc_right o_apply)
  then have "f x = 0" using Suc.IH assms(2) by blast
  with assms(1) Suc.prems(1) show ?case by blast
qed simp

lemma crc_byte_linear:
  assumes "8 \<le> w"
  shows "crc_byte refin poly w a x XOR crc_byte refin poly w b y =
    ((if refin then crc_shift_right poly (crc_mask w)
      else crc_shift_left (push_bit (unat w - 1) 1) poly (crc_mask w)) ^^ 8)
    ((a XOR b) XOR push_bit (if refin then 0 else unat w - 8) (ucast x XOR ucast y))"
proof -
  have e: "(a XOR b) XOR push_bit k (ucast x XOR ucast y) =
      (a XOR push_bit k (ucast x)) XOR (b XOR push_bit k (ucast y) :: u32)" for k
    by (simp add: push_bit_xor ac_simps)
  show ?thesis
    using assms unfolding e
    by (simp only: crc_byte_def crc_byte_refin_def crc_byte_norm_def Let_def if_True if_False push_bit_0_id id_apply
        xor_linearD [OF xor_linear_funpow [OF shift_right_linear]]
        xor_linearD [OF xor_linear_funpow [OF shift_left_linear]] split: if_split) simp
qed

lemma crc_byte_inj:
  assumes "8 \<le> w" "w \<le> 32" "poly_ok refin poly w" "within a w" "within b w"
    and "crc_byte refin poly w a x = crc_byte refin poly w b y"
  shows "a XOR b = push_bit (if refin then 0 else unat w - 8) (ucast x XOR ucast y)"
proof -
  let ?f = "if refin then crc_shift_right poly (crc_mask w)
      else crc_shift_left (push_bit (unat w - 1) 1) poly (crc_mask w)"
  let ?p = "push_bit (if refin then 0 else unat w - 8) (ucast x XOR ucast y) :: u32"
  have w: "w \<noteq> 0" "8 \<le> unat w" using assms(1) by (auto simp: unat_ge8)
  have "within ?p w"
    using w by (auto simp: within_def bit_push_bit_iff bit_xor_iff bit_ucast_iff possible_bit_word dest: bit_u8_less)
  then have wi: "within ((a XOR b) XOR ?p) w" using assms(4,5) by (intro within_xor)
  have z: "(?f ^^ 8) ((a XOR b) XOR ?p) = 0"
    using crc_byte_linear [OF assms(1), of refin poly a x b y] assms(6) by simp
  have k: "within x w \<Longrightarrow> ?f x = 0 \<Longrightarrow> x = 0" for x
    using shift_right_ker [of x w poly] shift_left_ker [of x w poly] assms(2,3) w(1)
    by (auto simp: poly_ok_def split: if_splits)
  have "within (?f x) w" for x by (simp add: shift_right_within shift_left_within)
  from funpow_ker [of w ?f, OF k this wi z] have "(a XOR b) XOR ?p = 0" .
  then show ?thesis by (rule xor_eq_0)
qed

lemma engine_inj:
  assumes "8 \<le> w" "w \<le> 32" "poly_ok refin poly w"
  shows "within a w \<Longrightarrow> within b w \<Longrightarrow> a \<noteq> b \<Longrightarrow>
    crc_bitwise_engine data a refin poly w (crc_mask w) \<noteq> crc_bitwise_engine data b refin poly w (crc_mask w)"
proof (induction data arbitrary: a b)
  case Nil
  then show ?case by (simp add: engine_Nil)
next
  case (Cons x data)
  have "crc_byte refin poly w a x \<noteq> crc_byte refin poly w b x"
    using crc_byte_inj [OF assms Cons.prems(1,2), of x x] Cons.prems(3) by (auto dest: xor_eq_0)
  with Cons.IH show ?case by (simp add: engine_Cons crc_byte_within)
qed

lemma push_ucast_inj:
  assumes "k \<le> 24" "push_bit k (ucast (x :: u8) XOR ucast y :: u32) = 0"
  shows "x = y"
proof (rule bit_word_eqI)
  fix i assume i: "i < LENGTH(8)"
  have "bit (push_bit k (ucast x XOR ucast y :: u32)) (i + k) \<longleftrightarrow> bit x i \<noteq> bit y i"
    using i assms(1) by (simp add: bit_push_bit_iff bit_xor_iff bit_ucast_iff possible_bit_word)
  then show "bit x i = bit y i" using assms(2) by simp
qed

lemma engine_byte_error:
  assumes "8 \<le> w" "w \<le> 32" "poly_ok refin poly w" "within reg w" "x \<noteq> y"
  shows "crc_bitwise_engine (p @ x # q) reg refin poly w (crc_mask w) \<noteq>
    crc_bitwise_engine (p @ y # q) reg refin poly w (crc_mask w)"
proof -
  let ?r = "crc_bitwise_engine p reg refin poly w (crc_mask w)"
  have r: "within ?r w" using assms(4) by (rule engine_within)
  let ?k = "if refin then 0 else unat w - 8"
  have k: "?k \<le> 24" using unat_le32 [OF assms(2)] by auto
  have "crc_byte refin poly w ?r x \<noteq> crc_byte refin poly w ?r y"
  proof
    assume "crc_byte refin poly w ?r x = crc_byte refin poly w ?r y"
    from crc_byte_inj [OF assms(1-3) r r this] have "push_bit ?k (ucast x XOR ucast y :: u32) = 0"
      by (simp only: xor_self_eq)
    with push_ucast_inj [OF k] assms(5) show False by blast
  qed
  then show ?thesis
    unfolding engine_append engine_Cons by (intro engine_inj [OF assms(1-3)] crc_byte_within)
qed

lemma crc_finalize_inj:
  assumes "w \<le> 32" "within a w" "within b w" "a \<noteq> b"
  shows "crc_finalize a w refin refout xo (crc_mask w) \<noteq> crc_finalize b w refin refout xo (crc_mask w)"
proof -
  have wr: "within (reflect x w) w" for x
    unfolding within_def
  proof (intro allI impI)
    fix i assume "unat w \<le> i"
    then show "\<not> bit (reflect x w) i"
      using bit_imp_le_length [of "reflect x w" i] bit_reflect [of i x w] by (cases "i < 32") auto
  qed
  have inj: "x = y" if "(x XOR xo) AND crc_mask w = (y XOR xo) AND crc_mask w" "within x w" "within y w" for x y
  proof -
    have "(x AND crc_mask w) XOR (xo AND crc_mask w) = (y AND crc_mask w) XOR (xo AND crc_mask w)"
      using that(1) by (simp add: bit.conj_xor_distrib2)
    then have "x XOR (xo AND crc_mask w) = y XOR (xo AND crc_mask w)" using that(2,3) by (simp add: within_mask_id)
    then show ?thesis by (metis xor.assoc xor_self_eq xor.right_neutral)
  qed
  have "reflect a w \<noteq> reflect b w"
    using reflect_reflect [OF assms(2,1)] reflect_reflect [OF assms(3,1)] assms(4) by metis
  with inj [OF _ assms(2,3)] inj [OF _ wr wr] assms(4) show ?thesis
    unfolding crc_finalize_def by (cases "refin = refout") auto
qed

subsection \<open>Streams\<close>

definition stream_ok :: "crc_stream_t \<Rightarrow> bool" where
  "stream_ok st \<longleftrightarrow> cs_width st = 0 \<or> 32 < cs_width st \<or>
     within (cs_reg st) (cs_width st) \<and> within (cs_poly st) (cs_width st)"

lemma stream_start_ok:
  assumes "crc_stream_start (Some s0) init refin refout xo poly w = Some st"
  shows "stream_ok st"
  using assms by (auto simp: crc_stream_start_def stream_ok_def Let_def within_and_mask split: if_splits)

lemma stream_feed_eq:
  assumes "stream_ok st" "cache_ok c"
  obtains c' st' where "cache_ok c'" "stream_ok st'"
    "crc_stream_feed c (Some st) data = Some (c', Some st')"
    "crc_stream_feed_bitwise (Some st) data = Some st'"
proof (cases "cs_width st = 0 \<or> 32 < cs_width st")
  case True
  then show ?thesis using that assms by (simp add: crc_stream_feed_def crc_stream_feed_bitwise_def)
next
  case False
  then have w: "cs_width st \<le> 32" "within (cs_poly st) (cs_width st)" "within (cs_reg st) (cs_width st)"
    using assms(1) by (auto simp: stream_ok_def)
  obtain c' where "cache_ok c'"
    "crc_table_engine c data (cs_reg st) (cs_refin st) (cs_poly st) (cs_width st) (crc_mask (cs_width st)) =
       Some (crc_bitwise_engine data (cs_reg st) (cs_refin st) (cs_poly st) (cs_width st) (crc_mask (cs_width st)), c')"
    by (rule table_engine_eq [OF w assms(2)])
  with that False engine_within [OF w(3)] w show ?thesis
    by (simp add: crc_stream_feed_def crc_stream_feed_bitwise_def stream_ok_def)
qed

lemma feed_bitwise_append:
  "crc_stream_feed_bitwise (crc_stream_feed_bitwise s xs) ys = crc_stream_feed_bitwise s (xs @ ys)"
  by (auto simp: crc_stream_feed_bitwise_def engine_append split: option.splits)

text \<open>A message fed in pieces, in the order of the calls.\<close>

fun crc_feed_all :: "crc_cache \<Rightarrow> crc_stream_t option \<Rightarrow> u8 list list \<Rightarrow> (crc_cache \<times> crc_stream_t option) option" where
  "crc_feed_all c s [] = Some (c, s)"
| "crc_feed_all c s (d # ds) = do { (c', s') \<leftarrow> crc_stream_feed c s d; crc_feed_all c' s' ds }"

lemma feed_all_eq:
  assumes "stream_ok st" "cache_ok c"
  shows "\<exists>c'. cache_ok c' \<and> crc_feed_all c (Some st) chunks = Some (c', crc_stream_feed_bitwise (Some st) (concat chunks))"
  using assms
proof (induction chunks arbitrary: c st)
  case Nil
  then show ?case by (auto simp: crc_stream_feed_bitwise_def crc_bitwise_engine_def)
next
  case (Cons d ds)
  obtain c1 st1 where 1: "cache_ok c1" "stream_ok st1" "crc_stream_feed c (Some st) d = Some (c1, Some st1)"
    "crc_stream_feed_bitwise (Some st) d = Some st1"
    by (rule stream_feed_eq [OF Cons.prems])
  from Cons.IH [OF 1(2,1)] 1(3) feed_bitwise_append [of "Some st" d "concat ds"] 1(4) show ?case by auto
qed

lemma reflect_poly_ok:
  assumes "bit poly 0" "w \<noteq> 0" "w \<le> 32"
  shows "poly_ok refin (if refin then reflect poly w AND crc_mask w else poly AND crc_mask w) w"
  using assms unat_le32 [OF assms(3)] unat_gt_0 [of w]
  by (auto simp: poly_ok_def bit_and_iff bit_crc_mask bit_reflect)

lemma crc32_bytes:
  "crc_byte_refin 0xEDB88320 32 (crc_mask 32) 0xFFFFFFFF 0x31 = 0x7C231048"
  "crc_byte_refin 0xEDB88320 32 (crc_mask 32) 0x7C231048 0x32 = 0xB0ACBB32"
  "crc_byte_refin 0xEDB88320 32 (crc_mask 32) 0xB0ACBB32 0x33 = 0x77B79C2D"
  "crc_byte_refin 0xEDB88320 32 (crc_mask 32) 0x77B79C2D 0x34 = 0x641C1F5C"
  "crc_byte_refin 0xEDB88320 32 (crc_mask 32) 0x641C1F5C 0x35 = 0x340AC5E3"
  "crc_byte_refin 0xEDB88320 32 (crc_mask 32) 0x340AC5E3 0x36 = 0xF68D2C9E"
  "crc_byte_refin 0xEDB88320 32 (crc_mask 32) 0xF68D2C9E 0x37 = 0xAFFC9660"
  "crc_byte_refin 0xEDB88320 32 (crc_mask 32) 0xAFFC9660 0x38 = 0x651F2550"
  "crc_byte_refin 0xEDB88320 32 (crc_mask 32) 0x651F2550 0x39 = 0x340BC6D9"
  by code_simp+

subsection \<open>Properties\<close>

text \<open>
  C22. Both engines agree and the cut into pieces does not matter: from any consistent table cache, feeding
  a message piece by piece through the table engine ends in exactly the stream state that the bitwise
  engine reaches on the whole message, for every width from 1 to 32, either reflection and any polynomial;
  no table access is out of range and the cache stays consistent.
\<close>

theorem crc_stream_agree:
  assumes "crc_stream_start (Some s0) init refin refout xor_out poly w = Some st" "cache_ok c"
  shows "\<exists>c'. cache_ok c' \<and>
    crc_feed_all c (Some st) chunks = Some (c', crc_stream_feed_bitwise (Some st) (concat chunks))"
  using stream_start_ok [OF assms(1)] assms(2) by (rule feed_all_eq)

theorem crc_stream_agree_witness:
  "\<exists>st c'. crc_feed_all crc_cache_init (Some st) [[0x31, 0x32], [0x33]] =
    Some (c', crc_stream_feed_bitwise (Some st) [0x31, 0x32, 0x33])"
proof -
  let ?s = "\<lparr>cs_reg = 0, cs_poly = 0, cs_xor_out = 0, cs_width = 0, cs_refin = False, cs_refout = False\<rparr>"
  obtain st where st: "crc_stream_start (Some ?s) 0xFFFF False False 0 0x1021 16 = Some st"
    by (simp add: crc_stream_start_def Let_def)
  have "cache_ok crc_cache_init" by (simp add: cache_ok_def crc_cache_init_def)
  from crc_stream_agree [OF st this, of "[[0x31, 0x32], [0x33]]"] show ?thesis by auto
qed

text \<open>
  C23. Any corruption confined to one byte is detected: for a width of 8 to 32 bits and an odd generator
  polynomial, two messages that differ in exactly one byte have different checksums, whatever the initial
  value, the reflections and the final xor.
\<close>

theorem crc_detects_byte_error:
  assumes "8 \<le> w" "w \<le> 32" "bit poly 0" "x \<noteq> y"
  shows "crc_stream_finish (crc_stream_feed_bitwise
           (crc_stream_start (Some s0) init refin refout xor_out poly w) (p @ x # q)) \<noteq>
    crc_stream_finish (crc_stream_feed_bitwise
           (crc_stream_start (Some s0) init refin refout xor_out poly w) (p @ y # q))"
proof -
  have w: "w \<noteq> 0" "\<not> 32 < w" using assms(1,2) by auto
  define reg where "reg = (if refin then reflect init w AND crc_mask w else init AND crc_mask w)"
  define pl where "pl = (if refin then reflect poly w AND crc_mask w else poly AND crc_mask w)"
  have r: "within reg w" by (simp add: reg_def within_and_mask)
  have "poly_ok refin pl w" unfolding pl_def by (rule reflect_poly_ok [OF assms(3) w(1) assms(2)])
  note ne = engine_byte_error [OF assms(1,2) this r assms(4), of p q]
  show ?thesis
    using w crc_finalize_inj [OF assms(2) engine_within [OF r] engine_within [OF r] ne]
    by (simp add: crc_stream_start_def crc_stream_feed_bitwise_def crc_stream_finish_def Let_def flip: reg_def pl_def)
qed

theorem crc_detects_byte_error_witness:
  "\<exists>s0. crc_stream_finish (crc_stream_feed_bitwise
           (crc_stream_start (Some s0) 0xFFFFFFFF True True 0xFFFFFFFF 0x04C11DB7 32) [1, 2, 3]) \<noteq>
    crc_stream_finish (crc_stream_feed_bitwise
           (crc_stream_start (Some s0) 0xFFFFFFFF True True 0xFFFFFFFF 0x04C11DB7 32) [1, 9, 3])"
  using crc_detects_byte_error [of 32 "0x04C11DB7" 2 9 undefined "0xFFFFFFFF" True True "0xFFFFFFFF" "[1]" "[3]"]
  by auto

text \<open>
  The default configuration is the standard CRC-32: with the parameters of \<open>crc_config.h\<close> the checksum
  of the ASCII digits 1 to 9, fed in two pieces through the table engine, is the published check value.
\<close>

theorem crc32_check_value:
  "case crc_feed_all crc_cache_init
       (crc_stream_start (Some \<lparr>cs_reg = 0, cs_poly = 0, cs_xor_out = 0, cs_width = 0, cs_refin = False, cs_refout = False\<rparr>)
          0xFFFFFFFF True True 0xFFFFFFFF 0x04C11DB7 32)
       [[0x31, 0x32, 0x33, 0x34], [0x35, 0x36, 0x37, 0x38, 0x39]] of
     Some (_, s) \<Rightarrow> crc_stream_finish s = 0xCBF43926
   | None \<Rightarrow> False"
proof -
  let ?s0 = "\<lparr>cs_reg = 0, cs_poly = 0, cs_xor_out = 0, cs_width = 0, cs_refin = False, cs_refout = False\<rparr>"
  let ?st = "\<lparr>cs_reg = 0xFFFFFFFF, cs_poly = 0xEDB88320, cs_xor_out = 0xFFFFFFFF, cs_width = 32,
      cs_refin = True, cs_refout = True\<rparr>"
  have st: "crc_stream_start (Some ?s0) 0xFFFFFFFF True True 0xFFFFFFFF 0x04C11DB7 32 = Some ?st"
    by code_simp
  have "cache_ok crc_cache_init" by (simp add: cache_ok_def crc_cache_init_def)
  from feed_all_eq [OF stream_start_ok [OF st] this, of "[[0x31, 0x32, 0x33, 0x34], [0x35, 0x36, 0x37, 0x38, 0x39]]"]
  obtain c' where f: "crc_feed_all crc_cache_init (Some ?st) [[0x31, 0x32, 0x33, 0x34], [0x35, 0x36, 0x37, 0x38, 0x39]] =
      Some (c', crc_stream_feed_bitwise (Some ?st) [0x31, 0x32, 0x33, 0x34, 0x35, 0x36, 0x37, 0x38, 0x39])"
    by auto
  have "foldl (crc_byte_refin 0xEDB88320 32 (crc_mask 32)) 0xFFFFFFFF
      [0x31, 0x32, 0x33, 0x34, 0x35, 0x36, 0x37, 0x38, 0x39] = 0x340BC6D9"
    by (simp add: crc32_bytes)
  then have "crc_stream_finish (crc_stream_feed_bitwise (Some ?st)
      [0x31, 0x32, 0x33, 0x34, 0x35, 0x36, 0x37, 0x38, 0x39]) = 0xCBF43926"
    by (simp add: crc_stream_feed_bitwise_def crc_bitwise_engine_def crc_stream_finish_def crc_finalize_def
        crc_mask_def)
  with st f show ?thesis by simp
qed

end
