(* ===== verification/Bytes.thy ===== *)
theory Bytes
  imports MT_Prelude
begin

text \<open>Little-endian integers in byte buffers, and bounded reads, as the targets of the sources lay them out.\<close>

definition le16 :: "u16 \<Rightarrow> u8 list" where
  "le16 w = [ucast w, ucast (drop_bit 8 w)]"

definition le32 :: "u32 \<Rightarrow> u8 list" where
  "le32 w = [ucast w, ucast (drop_bit 8 w), ucast (drop_bit 16 w), ucast (drop_bit 24 w)]"

definition rd16 :: "u8 list \<Rightarrow> nat \<Rightarrow> u16" where
  "rd16 b i = ucast (b ! i) OR push_bit 8 (ucast (b ! (i + 1)))"

definition rd32 :: "u8 list \<Rightarrow> nat \<Rightarrow> u32" where
  "rd32 b i = ucast (b ! i) OR push_bit 8 (ucast (b ! (i + 1))) OR push_bit 16 (ucast (b ! (i + 2))) OR
     push_bit 24 (ucast (b ! (i + 3)))"

definition mem_read :: "u8 list \<Rightarrow> nat \<Rightarrow> nat \<Rightarrow> u8 list option" where
  "mem_read b off n = (if off + n \<le> length b then Some (take n (drop off b)) else None)"

lemma length_le [simp]: "length (le16 w) = 2" "length (le32 v) = 4"
  by (simp_all add: le16_def le32_def)

lemma rd16_at:
  assumes "length xs = n"
  shows "rd16 (xs @ le16 w @ ys) n = w"
  using assms
  by (intro bit_word_eqI)
    (auto simp: rd16_def le16_def nth_append bit_or_iff bit_push_bit_iff bit_ucast_iff bit_drop_bit_eq possible_bit_word)

lemma rd32_at:
  assumes "length xs = n"
  shows "rd32 (xs @ le32 w @ ys) n = w"
proof (rule bit_word_eqI)
  fix k assume k: "k < LENGTH(32)"
  then consider "k < 8" | "8 \<le> k" "k < 16" | "16 \<le> k" "k < 24" | "24 \<le> k" by linarith
  then show "bit (rd32 (xs @ le32 w @ ys) n) k = bit w k"
    using assms k
    by cases (auto simp: rd32_def le32_def nth_append bit_or_iff bit_push_bit_iff bit_ucast_iff bit_drop_bit_eq possible_bit_word)
qed

end
