(* ===== verification/Mini_Log.thy ===== *)
theory Mini_Log
  imports Fifo_Uni Crc Bytes
begin

text \<open>
  \<^verbatim>\<open>mini-log/src/log.c\<close>: the console ring, the staging ring for flash, and the log of
  records in a flash partition (header, payload, padding; written at a cursor that
  wraps to the start; found again by a scan after power-up). The flash driver is
  not part of the sources: its five functions are fields of \<open>flash_ops\<close>, over a
  device state of any type.
\<close>

definition MINI_LOG_OK :: int where "MINI_LOG_OK = 0"
definition MINI_LOG_ERR_PARAM :: int where "MINI_LOG_ERR_PARAM = - 160"
definition MINI_LOG_ERR_NOT_INIT :: int where "MINI_LOG_ERR_NOT_INIT = - 161"
definition MINI_LOG_ERR_TOO_LONG :: int where "MINI_LOG_ERR_TOO_LONG = - 162"
definition MINI_LOG_ERR_FLASH_OPEN :: int where "MINI_LOG_ERR_FLASH_OPEN = - 163"
definition MINI_LOG_ERR_FLASH_ERASE :: int where "MINI_LOG_ERR_FLASH_ERASE = - 164"
definition MINI_LOG_ERR_FLASH_WRITE :: int where "MINI_LOG_ERR_FLASH_WRITE = - 165"
definition MINI_LOG_ERR_FLASH_READ :: int where "MINI_LOG_ERR_FLASH_READ = - 166"

lemmas log_codes [simp] = MINI_LOG_OK_def MINI_LOG_ERR_PARAM_def MINI_LOG_ERR_NOT_INIT_def
  MINI_LOG_ERR_TOO_LONG_def MINI_LOG_ERR_FLASH_OPEN_def MINI_LOG_ERR_FLASH_ERASE_def
  MINI_LOG_ERR_FLASH_WRITE_def MINI_LOG_ERR_FLASH_READ_def

text \<open>The defaults of \<open>log_config.h\<close>.\<close>

definition MINI_LOG_MAX_LEN :: nat where "MINI_LOG_MAX_LEN = 128"
definition MINI_LOG_RING_SIZE :: u16 where "MINI_LOG_RING_SIZE = 1024"
definition MINI_LOG_FLASH_RING_SIZE :: nat where "MINI_LOG_FLASH_RING_SIZE = 512"
definition MINI_LOG_DEFAULT_ALIGIN :: nat where "MINI_LOG_DEFAULT_ALIGIN = 4"
definition MINI_LOG_MAGIC :: u16 where "MINI_LOG_MAGIC = 4"

lemmas log_config [simp] = MINI_LOG_MAX_LEN_def MINI_LOG_RING_SIZE_def MINI_LOG_FLASH_RING_SIZE_def
  MINI_LOG_DEFAULT_ALIGIN_def MINI_LOG_MAGIC_def

text \<open>Driver functions; \<open>None\<close> is a null pointer, and calling it faults.\<close>

record 'f flash_ops =
  fo_open :: "('f \<Rightarrow> u32 \<Rightarrow> nat \<Rightarrow> u16 \<Rightarrow> int \<times> 'f) option"
  fo_close :: "('f \<Rightarrow> 'f) option"
  fo_erase :: "('f \<Rightarrow> nat \<Rightarrow> nat \<Rightarrow> int \<times> 'f) option"
  fo_write :: "('f \<Rightarrow> nat \<Rightarrow> u8 list \<Rightarrow> int \<times> 'f) option"
  fo_read :: "('f \<Rightarrow> nat \<Rightarrow> nat \<Rightarrow> int \<times> u8 list \<times> 'f) option"

record flash_info =
  fi_base_addr :: u32
  fi_total_size :: nat
  fi_sector_size :: nat
  fi_write_gran :: nat

record 'f mini_log =
  log_ring :: fifo_uni_spsc
  log_flash_ring :: fifo_uni_spsc
  log_frame_buf :: "u8 list"
  log_ops :: "'f flash_ops"
  log_info :: flash_info
  log_write_offset :: nat
  log_is_initialized :: bool
  log_line_buf :: "u8 list"
  log_line_len :: nat
  log_resync :: bool
  log_crc :: crc_cache
  log_dev :: 'f
  log_console :: "u8 list"

subsection \<open>Record frames\<close>

record frame_header =
  fh_magic :: u16
  fh_len :: u16
  fh_tick :: u32
  fh_crc :: u16

definition FRAME_HDR :: nat where "FRAME_HDR = 10"

lemmas frame_hdr_size [simp] = FRAME_HDR_def

definition frame_bytes :: "frame_header \<Rightarrow> u8 list" where
  "frame_bytes h = le16 (fh_magic h) @ le16 (fh_len h) @ le32 (fh_tick h) @ le16 (fh_crc h)"

text \<open>The checksum over a header up to its \<open>crc\<close> field and a payload, with the model of \<open>log_config.h\<close>.\<close>

definition frame_crc_start :: "crc_stream_t option" where
  "frame_crc_start =
     crc_stream_start (Some \<lparr>cs_reg = 0, cs_poly = 0, cs_xor_out = 0, cs_width = 0, cs_refin = False, cs_refout = False\<rparr>)
       0xFFFF False False 0 0x1021 16"

definition frame_crc :: "crc_cache \<Rightarrow> u8 list \<Rightarrow> u8 list \<Rightarrow> (u16 \<times> crc_cache) option" where
  "frame_crc c hdr payload =
     do {
       (c1, s1) \<leftarrow> crc_stream_feed c frame_crc_start hdr;
       (c2, s2) \<leftarrow> crc_stream_feed c1 s1 payload;
       Some (ucast (crc_stream_finish s2), c2)
     }"

subsection \<open>Registration, erasing\<close>

definition mini_log_flash_register_cxt ::
    "'f mini_log \<Rightarrow> 'f flash_ops option \<Rightarrow> flash_info option \<Rightarrow> int \<times> 'f mini_log" where
  "mini_log_flash_register_cxt s ops info =
     (let s0 = s\<lparr>log_is_initialized := False, log_resync := False\<rparr> in
      case (ops, info) of
        (Some o', Some i) \<Rightarrow>
          if fo_open o' = None \<or> fo_close o' = None \<or> fo_erase o' = None \<or> fo_write o' = None \<or> fo_read o' = None
          then (MINI_LOG_ERR_PARAM, s0)
          else if fi_total_size i = 0 \<or> fi_sector_size i = 0 then (MINI_LOG_ERR_PARAM, s0)
          else if fi_total_size i mod fi_sector_size i \<noteq> 0 then (MINI_LOG_ERR_PARAM, s0)
          else if fi_write_gran i \<noteq> 0 \<and> fi_write_gran i AND (fi_write_gran i - 1) \<noteq> 0
          then (MINI_LOG_ERR_PARAM, s0)
          else (MINI_LOG_OK, s0\<lparr>log_ops := o', log_info := i, log_write_offset := 0, log_is_initialized := True\<rparr>)
      | _ \<Rightarrow> (MINI_LOG_ERR_PARAM, s0))"

definition mini_log_flash_clean_all :: "'f mini_log \<Rightarrow> (int \<times> 'f mini_log) option" where
  "mini_log_flash_clean_all s =
     (if \<not> log_is_initialized s then Some (MINI_LOG_ERR_NOT_INIT, s)
      else do {
        op \<leftarrow> fo_open (log_ops s); cl \<leftarrow> fo_close (log_ops s); er \<leftarrow> fo_erase (log_ops s);
        let i = log_info s;
        let (r, d) = op (log_dev s) (fi_base_addr i) (fi_sector_size i)
                       (of_nat (fi_total_size i div fi_sector_size i));
        if r \<noteq> 0 then Some (MINI_LOG_ERR_FLASH_OPEN, s\<lparr>log_dev := d\<rparr>)
        else do {
          let (r, d) = er d 0 (fi_total_size i);
          let s' = s\<lparr>log_dev := cl d\<rparr>;
          Some (if r \<noteq> 0 then (MINI_LOG_ERR_FLASH_ERASE, s')
                else (MINI_LOG_OK, s'\<lparr>log_write_offset := 0, log_resync := False\<rparr>))
        }
      })"

subsection \<open>Appending a record\<close>

definition log_align :: "flash_info \<Rightarrow> nat" where
  "log_align i = (if 0 < fi_write_gran i then fi_write_gran i else MINI_LOG_DEFAULT_ALIGIN)"

definition log_write_len :: "flash_info \<Rightarrow> nat \<Rightarrow> nat" where
  "log_write_len i len = sz_clear (sz_add (sz_add FRAME_HDR len) (log_align i - 1)) (log_align i - 1)"

definition log_erase_start :: "nat \<Rightarrow> nat \<Rightarrow> nat" where
  "log_erase_start off sec = (if off mod sec = 0 then off else sz_mul (off div sec + 1) sec)"

definition log_erase_end :: "nat \<Rightarrow> nat \<Rightarrow> nat" where
  "log_erase_end fin sec = sz_mul (sz_add fin (sec - 1) div sec) sec"

text \<open>The frame assembled in \<open>flash_frame_buf\<close>: filled with 0xFF, then the header, then the payload.\<close>

definition log_frame_image :: "u8 list \<Rightarrow> u8 list \<Rightarrow> u8 list option" where
  "log_frame_image hdr payload =
     do { b \<leftarrow> mem_copy (replicate MINI_LOG_FLASH_RING_SIZE 0xFF) 0 hdr 0 FRAME_HDR;
          mem_copy b FRAME_HDR payload 0 (length payload) }"

text \<open>The driver calls of one append, from opening the partition to closing it.\<close>

definition log_append_dev :: "'f flash_ops \<Rightarrow> flash_info \<Rightarrow> nat \<Rightarrow> u8 list \<Rightarrow> 'f \<Rightarrow> (int \<times> 'f) option" where
  "log_append_dev ops i off img v =
     do {
       op \<leftarrow> fo_open ops; cl \<leftarrow> fo_close ops; er \<leftarrow> fo_erase ops; wr \<leftarrow> fo_write ops;
       let sec = fi_sector_size i;
       let es = log_erase_start off sec;
       let ee = log_erase_end (sz_add off (length img)) sec;
       let (r, v) = op v (fi_base_addr i) sec (of_nat (fi_total_size i div sec));
       if r \<noteq> 0 then Some (MINI_LOG_ERR_FLASH_OPEN, v)
       else do {
         let (r, v) = (if es < ee then er v es (ee - es) else (0, v));
         if r \<noteq> 0 then Some (MINI_LOG_ERR_FLASH_ERASE, cl v)
         else do {
           let (r, v) = wr v off img;
           if r \<noteq> 0 then Some (MINI_LOG_ERR_FLASH_WRITE, cl v)
           else do {
             let off' = sz_add off (length img);
             let v = (if off' < fi_total_size i \<and> off' mod sec = 0 then snd (er v off' sec) else v);
             Some (MINI_LOG_OK, cl v)
           }
         }
       }
     }"

definition mini_log_flash_write_record ::
    "'f mini_log \<Rightarrow> u32 \<Rightarrow> u8 list option \<Rightarrow> nat \<Rightarrow> (int \<times> 'f mini_log) option" where
  "mini_log_flash_write_record s tick data len =
     (if \<not> log_is_initialized s then Some (MINI_LOG_ERR_NOT_INIT, s)
      else case data of
        None \<Rightarrow> Some (MINI_LOG_ERR_PARAM, s)
      | Some d \<Rightarrow>
          if len = 0 then Some (MINI_LOG_ERR_PARAM, s)
          else
            let i = log_info s; wl = log_write_len i len in
            if MINI_LOG_FLASH_RING_SIZE < wl \<or> fi_total_size i < wl then Some (MINI_LOG_ERR_TOO_LONG, s)
            else do {
              let off = (if fi_total_size i < sz_add (log_write_offset s) wl then 0 else log_write_offset s);
              let h = \<lparr>fh_magic = MINI_LOG_MAGIC, fh_len = of_nat len, fh_tick = tick, fh_crc = 0\<rparr>;
              payload \<leftarrow> mem_read d 0 len;
              (crc, c) \<leftarrow> frame_crc (log_crc s) (take 8 (frame_bytes h)) payload;
              buf \<leftarrow> log_frame_image (frame_bytes (h\<lparr>fh_crc := crc\<rparr>)) payload;
              (r, v) \<leftarrow> log_append_dev (log_ops s) i off (take wl buf) (log_dev s);
              Some (r, s\<lparr>log_write_offset := if r = MINI_LOG_OK then sz_add off wl else off,
                         log_crc := c, log_frame_buf := buf, log_dev := v\<rparr>)
            })"

subsection \<open>Reading back and recovery after power-up\<close>

definition mini_log_read_from_flash :: "'f mini_log \<Rightarrow> nat \<Rightarrow> nat \<Rightarrow> (int \<times> 'f mini_log) option" where
  "mini_log_read_from_flash s offset len =
     (if \<not> log_is_initialized s then Some (MINI_LOG_ERR_NOT_INIT, s)
      else if len = 0 \<or> fi_total_size (log_info s) \<le> offset then Some (MINI_LOG_ERR_PARAM, s)
      else do {
        let i = log_info s;
        let n = min (min len (fi_total_size i - offset)) MINI_LOG_FLASH_RING_SIZE;
        let sec = fi_sector_size i;
        let seg = of_nat (sz_add (sz_add offset n) (sec - 1) div sec);
        op \<leftarrow> fo_open (log_ops s); cl \<leftarrow> fo_close (log_ops s); rd \<leftarrow> fo_read (log_ops s);
        let (r, v) = op (log_dev s) (fi_base_addr i) sec seg;
        if r \<noteq> 0 then Some (MINI_LOG_ERR_FLASH_OPEN, s\<lparr>log_dev := v\<rparr>)
        else do {
          let (r, bytes, v) = rd v offset n;
          buf \<leftarrow> (if r = 0 then mem_copy (log_frame_buf s) 0 bytes 0 n else Some (log_frame_buf s));
          Some (if r = 0 then MINI_LOG_OK else MINI_LOG_ERR_FLASH_READ,
                s\<lparr>log_dev := cl v, log_frame_buf := buf\<rparr>)
        }
      })"

definition mini_log_frame_crc_ok :: "'f mini_log \<Rightarrow> nat \<Rightarrow> (bool \<times> 'f mini_log) option" where
  "mini_log_frame_crc_ok s payload_len =
     do {
       hdr \<leftarrow> mem_read (log_frame_buf s) 0 8;
       payload \<leftarrow> mem_read (log_frame_buf s) FRAME_HDR payload_len;
       (crc, c) \<leftarrow> frame_crc (log_crc s) hdr payload;
       Some (crc = rd16 (log_frame_buf s) 8, s\<lparr>log_crc := c\<rparr>)
     }"

fun recover_loop :: "nat \<Rightarrow> 'f mini_log \<Rightarrow> nat \<Rightarrow> u32 \<Rightarrow> (int \<times> bool \<times> nat \<times> u32 \<times> 'f mini_log) option" where
  "recover_loop 0 s offset frames = None"
| "recover_loop (Suc n) s offset frames =
     (if sz_add offset FRAME_HDR \<le> fi_total_size (log_info s) then do {
        rd \<leftarrow> fo_read (log_ops s);
        let (r, bytes, v) = rd (log_dev s) offset FRAME_HDR;
        let s = s\<lparr>log_dev := v\<rparr>;
        if r \<noteq> 0 then Some (MINI_LOG_ERR_FLASH_READ, False, offset, frames, s)
        else do {
          buf \<leftarrow> mem_copy (log_frame_buf s) 0 bytes 0 FRAME_HDR;
          let s = s\<lparr>log_frame_buf := buf\<rparr>;
          let len = unat (rd16 buf 2);
          let total = sz_add FRAME_HDR len;
          if rd16 buf 0 \<noteq> MINI_LOG_MAGIC
          then Some (MINI_LOG_OK, list_ex (\<lambda>b. b \<noteq> 0xFF) (take FRAME_HDR buf), offset, frames, s)
          else if len = 0 then Some (MINI_LOG_OK, True, offset, frames, s)
          else if MINI_LOG_FLASH_RING_SIZE < total \<or> fi_total_size (log_info s) < sz_add offset total
          then Some (MINI_LOG_OK, True, offset, frames, s)
          else do {
            let (r, bytes, v) = rd (log_dev s) (sz_add offset FRAME_HDR) len;
            let s = s\<lparr>log_dev := v\<rparr>;
            if r \<noteq> 0 then Some (MINI_LOG_ERR_FLASH_READ, False, offset, frames, s)
            else do {
              buf \<leftarrow> mem_copy (log_frame_buf s) FRAME_HDR bytes 0 len;
              (ok, s) \<leftarrow> mini_log_frame_crc_ok (s\<lparr>log_frame_buf := buf\<rparr>) len;
              if \<not> ok then Some (MINI_LOG_OK, True, offset, frames, s)
              else
                let al = log_align (log_info s) in
                recover_loop n s (sz_add offset (sz_clear (sz_add total (al - 1)) (al - 1))) (frames + 1)
            }
          }
        }
      }
      else Some (MINI_LOG_OK, False, offset, frames, s))"

text \<open>Every frame is longer than its header, so the partition size bounds the number of rounds.\<close>

definition mini_log_flash_recover :: "'f mini_log \<Rightarrow> (int \<times> u32 \<times> 'f mini_log) option" where
  "mini_log_flash_recover s =
     (if \<not> log_is_initialized s then Some (MINI_LOG_ERR_NOT_INIT, 0, s)
      else do {
        let i = log_info s; let sec = fi_sector_size i;
        op \<leftarrow> fo_open (log_ops s); cl \<leftarrow> fo_close (log_ops s);
        let (r, v) = op (log_dev s) (fi_base_addr i) sec (of_nat (fi_total_size i div sec));
        if r \<noteq> 0 then Some (MINI_LOG_ERR_FLASH_OPEN, 0, s\<lparr>log_dev := v\<rparr>)
        else do {
          (err, dirty, offset, frames, s) \<leftarrow> recover_loop (Suc (fi_total_size i)) (s\<lparr>log_dev := v\<rparr>) 0 0;
          let s = s\<lparr>log_dev := cl (log_dev s)\<rparr>;
          let offset = (if dirty then log_erase_end offset sec else offset);
          Some (err, frames,
                if err = MINI_LOG_OK
                then s\<lparr>log_write_offset := if fi_total_size i < offset then 0 else offset\<rparr> else s)
        }
      })"

subsection \<open>Staging, flushing, console\<close>

definition mini_log_get_tick :: "int option \<Rightarrow> int" where
  "mini_log_get_tick cb = (case cb of Some t \<Rightarrow> t | None \<Rightarrow> - 1)"

definition mini_log_tick_value :: "int option \<Rightarrow> u32" where
  "mini_log_tick_value cb = (let t = mini_log_get_tick cb in if t < 0 then 0 else of_int t)"

text \<open>
  What \<open>vsnprintf\<close> leaves in the 128-byte buffer for a formatted text: at most 127 bytes of it.
  Nothing is queued for an empty text, nor when the ring lacks room for all of it.
\<close>

definition log_format :: "u8 list \<Rightarrow> u8 list" where
  "log_format text = take (MINI_LOG_MAX_LEN - 1) text"

definition log_enqueue :: "u16 \<Rightarrow> fifo_uni_spsc \<Rightarrow> u8 list \<Rightarrow> (bool \<times> fifo_uni_spsc) option" where
  "log_enqueue cap r msg =
     (case fifo_uni_get_count (Some r) (Some 0) of
        (_, Some used) \<Rightarrow>
          if cap - used < of_nat (length msg) then Some (False, r)
          else do { (_, r', _) \<leftarrow> fifo_uni_write_block (Some r) (Some msg) (of_nat (length msg));
                    r' \<leftarrow> r'; Some (True, r') }
      | _ \<Rightarrow> None)"

fun log_flush_loop :: "nat \<Rightarrow> 'f mini_log \<Rightarrow> 'f mini_log option" where
  "log_flush_loop 0 s = None"
| "log_flush_loop (Suc n) s =
     do {
       (_, r, chunk, got) \<leftarrow> fifo_uni_read_block (Some (log_ring s)) (Some (replicate 128 0)) 128;
       r \<leftarrow> r; chunk \<leftarrow> chunk;
       let s = s\<lparr>log_ring := r\<rparr>;
       if got = 0 then Some s
       else log_flush_loop n (s\<lparr>log_console := log_console s @ take (unat got) chunk\<rparr>)
     }"

text \<open>A round that reads something empties at least one byte: the ring size bounds the rounds.\<close>

definition mini_log_flush :: "'f mini_log \<Rightarrow> 'f mini_log option" where
  "mini_log_flush s = log_flush_loop (Suc (unat (uni_size (log_ring s)))) s"

definition mini_log_default_output :: "'f mini_log \<Rightarrow> u8 list \<Rightarrow> 'f mini_log option" where
  "mini_log_default_output s text =
     (if text = [] then Some s
      else do { (queued, r) \<leftarrow> log_enqueue MINI_LOG_RING_SIZE (log_ring s) (log_format text);
                if queued then mini_log_flush (s\<lparr>log_ring := r\<rparr>) else Some s })"

definition mini_log_flash_output :: "'f mini_log \<Rightarrow> u8 list \<Rightarrow> 'f mini_log option" where
  "mini_log_flash_output s text =
     (if text = [] then Some s
      else do {
        let fmt = log_format text;
        (_, r) \<leftarrow> log_enqueue (of_nat MINI_LOG_FLASH_RING_SIZE) (log_flash_ring s) (fmt[length fmt - 1 := 10]);
        Some (s\<lparr>log_flash_ring := r\<rparr>)
      })"

fun flash_flush_chunk ::
    "('f mini_log \<Rightarrow> u32) \<Rightarrow> int \<Rightarrow> u8 list \<Rightarrow> 'f mini_log \<Rightarrow> (bool \<times> int \<times> 'f mini_log) option" where
  "flash_flush_chunk tick ret [] s = Some (False, ret, s)"
| "flash_flush_chunk tick ret (b # bs) s =
     (if log_resync s then flash_flush_chunk tick ret bs (if b = 10 then s\<lparr>log_resync := False\<rparr> else s)
      else do {
        lb \<leftarrow> arr_set (log_line_buf s) (log_line_len s) b;
        let s = s\<lparr>log_line_buf := lb, log_line_len := log_line_len s + 1\<rparr>;
        if b = 10 \<or> log_line_len s = MINI_LOG_MAX_LEN then do {
          (r, s) \<leftarrow> mini_log_flash_write_record s (tick s) (Some (log_line_buf s)) (log_line_len s);
          let s = s\<lparr>log_line_len := 0\<rparr>;
          if r \<noteq> MINI_LOG_OK
          then Some (True, r, if r = MINI_LOG_ERR_FLASH_OPEN \<or> r = MINI_LOG_ERR_FLASH_ERASE \<or> r = MINI_LOG_ERR_FLASH_WRITE
                              then s\<lparr>log_resync := True\<rparr> else s)
          else flash_flush_chunk tick r bs s
        }
        else flash_flush_chunk tick ret bs s
      })"

fun flash_flush_loop :: "nat \<Rightarrow> ('f mini_log \<Rightarrow> u32) \<Rightarrow> int \<Rightarrow> 'f mini_log \<Rightarrow> (int \<times> 'f mini_log) option" where
  "flash_flush_loop 0 tick ret s = None"
| "flash_flush_loop (Suc n) tick ret s =
     do {
       (_, r, chunk, got) \<leftarrow> fifo_uni_read_block (Some (log_flash_ring s)) (Some (replicate 128 0)) 128;
       r \<leftarrow> r; chunk \<leftarrow> chunk;
       let s = s\<lparr>log_flash_ring := r\<rparr>;
       if got = 0 then Some (ret, s)
       else do {
         (stop, ret, s) \<leftarrow> flash_flush_chunk tick ret (take (unat got) chunk) s;
         if stop then Some (ret, s) else flash_flush_loop n tick ret s
       }
     }"

definition mini_log_flash_flush :: "'f mini_log \<Rightarrow> ('f mini_log \<Rightarrow> u32) \<Rightarrow> (int \<times> 'f mini_log) option" where
  "mini_log_flash_flush s tick =
     (if \<not> log_is_initialized s then Some (MINI_LOG_ERR_NOT_INIT, s)
      else flash_flush_loop (Suc (unat (uni_size (log_flash_ring s)))) tick MINI_LOG_OK s)"

subsection \<open>Frames and their checksum\<close>

definition frame_crc_val :: "u8 list \<Rightarrow> u8 list \<Rightarrow> u16" where
  "frame_crc_val hdr payload = ucast (crc_stream_finish (crc_stream_feed_bitwise frame_crc_start (hdr @ payload)))"

lemma frame_crc_eq:
  assumes "cache_ok c"
  obtains c' where "cache_ok c'" "frame_crc c hdr payload = Some (frame_crc_val hdr payload, c')"
proof -
  obtain st where st: "frame_crc_start = Some st" "stream_ok st"
    using stream_start_ok [of _ "0xFFFF" False False 0 "0x1021" 16]
    by (auto simp: frame_crc_start_def crc_stream_start_def Let_def)
  obtain c1 s1 where 1: "cache_ok c1" "stream_ok s1" "crc_stream_feed c (Some st) hdr = Some (c1, Some s1)"
    "crc_stream_feed_bitwise (Some st) hdr = Some s1"
    by (rule stream_feed_eq [OF st(2) assms])
  obtain c2 s2 where 2: "cache_ok c2" "crc_stream_feed c1 (Some s1) payload = Some (c2, Some s2)"
    "crc_stream_feed_bitwise (Some s1) payload = Some s2"
    by (rule stream_feed_eq [OF 1(2,1)])
  from feed_bitwise_append [of "Some st" hdr payload] 1(4) 2(3)
  have "crc_stream_feed_bitwise (Some st) (hdr @ payload) = Some s2" by simp
  with 1(3) 2(1,2) st(1) show ?thesis by (intro that [of c2]) (simp_all add: frame_crc_def frame_crc_val_def)
qed

definition rec_header :: "u32 \<times> u8 list \<Rightarrow> frame_header" where
  "rec_header r = \<lparr>fh_magic = MINI_LOG_MAGIC, fh_len = of_nat (length (snd r)), fh_tick = fst r,
     fh_crc = frame_crc_val (take 8 (frame_bytes \<lparr>fh_magic = MINI_LOG_MAGIC, fh_len = of_nat (length (snd r)),
                               fh_tick = fst r, fh_crc = 0\<rparr>)) (snd r)\<rparr>"

definition rec_image :: "flash_info \<Rightarrow> u32 \<times> u8 list \<Rightarrow> u8 list" where
  "rec_image i r = frame_bytes (rec_header r) @ snd r @
     replicate (log_write_len i (length (snd r)) - 10 - length (snd r)) 0xFF"

definition flashlog :: "flash_info \<Rightarrow> (u32 \<times> u8 list) list \<Rightarrow> u8 list" where
  "flashlog i recs = concat (map (rec_image i) recs)"

lemma length_frame_bytes [simp]: "length (frame_bytes h) = 10"
  by (simp add: frame_bytes_def le16_def le32_def)

lemma take8_frame: "take 8 (frame_bytes (h\<lparr>fh_crc := c\<rparr>)) = take 8 (frame_bytes h)"
  by (simp add: frame_bytes_def le16_def le32_def)

lemma frame_fields:
  "rd16 (frame_bytes h @ xs) 0 = fh_magic h" "rd16 (frame_bytes h @ xs) 2 = fh_len h"
  "rd16 (frame_bytes h @ xs) 8 = fh_crc h"
  using rd16_at [of "[]" 0 "fh_magic h"] rd16_at [of "le16 (fh_magic h)" 2 "fh_len h"]
    rd16_at [of "le16 (fh_magic h) @ le16 (fh_len h) @ le32 (fh_tick h)" 8 "fh_crc h"]
  by (simp_all add: frame_bytes_def)

subsection \<open>Layout of the partition\<close>

text \<open>The checks of the registration, with all quantities below \<open>2 ^ 30\<close> so that no offset wraps.\<close>

definition info_ok :: "flash_info \<Rightarrow> bool" where
  "info_ok i \<longleftrightarrow> 0 < fi_total_size i \<and> 0 < fi_sector_size i \<and> fi_total_size i mod fi_sector_size i = 0 \<and>
     (fi_write_gran i = 0 \<or> fi_write_gran i AND (fi_write_gran i - 1) = 0) \<and>
     fi_total_size i < 2 ^ 30 \<and> fi_write_gran i < 2 ^ 30"

lemma log_align_pow2: "info_ok i \<Longrightarrow> 0 < log_align i \<and> log_align i AND (log_align i - 1) = 0 \<and> log_align i < 2 ^ 30"
  by (auto simp: info_ok_def log_align_def)

lemma log_write_len_bounds:
  assumes "info_ok i" "len < 2 ^ 30"
  shows "10 + len \<le> log_write_len i len" "log_write_len i len < 2 ^ 31 + 10"
    "log_write_len i len = sz_clear (sz_add (sz_add FRAME_HDR len) (log_align i - 1)) (log_align i - 1)"
proof -
  let ?a = "log_align i"
  have a: "0 < ?a" "?a AND (?a - 1) = 0" "?a < 2 ^ 30" using log_align_pow2 [OF assms(1)] by auto
  have s: "sz_add (sz_add 10 len) (?a - 1) = (10 + len) + (?a - 1)"
    using a(3) assms(2) by (simp add: sz_add_def)
  have e: "log_write_len i len = (10 + len) + (?a - 1) - ((10 + len) + (?a - 1)) mod ?a"
    unfolding log_write_len_def FRAME_HDR_def s by (rule sz_clear_mod [OF a(1,2)])
  show "10 + len \<le> log_write_len i len" using round_up(1) [OF a(1), of "10 + len"] e by simp
  show "log_write_len i len < 2 ^ 31 + 10"
    using round_up(2) [OF a(1), of "10 + len"] e a(3) assms(2) by simp
  show "log_write_len i len = sz_clear (sz_add (sz_add FRAME_HDR len) (log_align i - 1)) (log_align i - 1)"
    by (simp add: log_write_len_def)
qed

lemma sector_ceil:
  fixes sec total x :: nat
  assumes "0 < sec" "total mod sec = 0" "x \<le> total"
  shows "x mod sec \<noteq> 0 \<Longrightarrow> (x div sec + 1) * sec \<le> total"
    and "x mod sec \<noteq> 0 \<Longrightarrow> x < (x div sec + 1) * sec"
proof -
  assume m: "x mod sec \<noteq> 0"
  obtain q where q: "total = q * sec" using assms(2) by (metis mod_0_imp_dvd dvdE mult.commute)
  have x: "x = x div sec * sec + x mod sec" by simp
  have "x div sec * sec < q * sec" using m x assms(3) q by linarith
  then have "x div sec < q" using assms(1) by simp
  then show "(x div sec + 1) * sec \<le> total" unfolding q by (intro mult_le_mono1) simp
  have "x mod sec < sec" using assms(1) by simp
  then show "x < (x div sec + 1) * sec" using x unfolding add_mult_distrib by linarith
qed

lemma log_erase_end_eq:
  assumes "info_ok i" "x \<le> fi_total_size i"
  defines "sec \<equiv> fi_sector_size i"
  shows "log_erase_end x sec = (if x mod sec = 0 then x else (x div sec + 1) * sec)"
    and "x \<le> log_erase_end x sec" "log_erase_end x sec \<le> fi_total_size i" "log_erase_end x sec mod sec = 0"
proof -
  have i: "0 < sec" "fi_total_size i mod sec = 0" "fi_total_size i < 2 ^ 30" "0 < fi_total_size i"
    using assms(1) by (auto simp: info_ok_def sec_def)
  have "sec \<le> fi_total_size i" using i by (meson dvd_imp_le mod_0_imp_dvd)
  then have a: "sz_add x (sec - 1) = x + (sec - 1)" using i assms(2) by (simp add: sz_add_def)
  have d: "(x + (sec - 1)) div sec = (if x mod sec = 0 then x div sec else x div sec + 1)"
  proof -
    have "(x + (sec - 1)) div sec = (x div sec * sec + (x mod sec + (sec - 1))) div sec" by simp
    also have "\<dots> = x div sec + (x mod sec + (sec - 1)) div sec" using i(1) by (simp only: div_mult_self3)
    also have "(x mod sec + (sec - 1)) div sec = (if x mod sec = 0 then 0 else 1)"
      using i(1) mod_less_divisor [OF i(1), of x] by (auto intro: div_nat_eqI)
    finally show ?thesis by simp
  qed
  have le: "(if x mod sec = 0 then x else (x div sec + 1) * sec) \<le> fi_total_size i"
    using sector_ceil(1) [OF i(1,2) assms(2)] assms(2) by simp
  have "x mod sec = 0 \<Longrightarrow> x div sec * sec = x" by auto
  with le show e: "log_erase_end x sec = (if x mod sec = 0 then x else (x div sec + 1) * sec)"
    using i(3) unfolding log_erase_end_def a d sz_mul_def by (auto split: if_splits)
  show "x \<le> log_erase_end x sec" using sector_ceil(2) [OF i(1,2) assms(2)] e by auto
  show "log_erase_end x sec \<le> fi_total_size i" using e le by simp
  show "log_erase_end x sec mod sec = 0" using e by auto
qed

subsection \<open>The flash device\<close>

text \<open>
  What the driver's interface documents of a working device with contents \<open>mem\<close>: opening and closing keep the
  contents, an erase of whole sectors sets them to 0xFF, a write into an erased range stores the data, a read
  returns the contents. Nothing is assumed of a write into a range that is not erased.
\<close>

definition flash_device ::
    "'f flash_ops \<Rightarrow> ('f \<Rightarrow> u8 list) \<Rightarrow> flash_info \<Rightarrow> bool" where
  "flash_device ops mem i \<longleftrightarrow>
     (\<exists>op cl er wr rd. fo_open ops = Some op \<and> fo_close ops = Some cl \<and> fo_erase ops = Some er \<and>
        fo_write ops = Some wr \<and> fo_read ops = Some rd \<and>
        (\<forall>v. length (mem v) = fi_total_size i) \<and>
        (\<forall>v a b c. fst (op v a b c) = 0 \<and> mem (snd (op v a b c)) = mem v) \<and>
        (\<forall>v. mem (cl v) = mem v) \<and>
        (\<forall>v off n. off mod fi_sector_size i = 0 \<and> n mod fi_sector_size i = 0 \<and> off + n \<le> fi_total_size i \<longrightarrow>
           fst (er v off n) = 0 \<and> mem (snd (er v off n)) = blit (mem v) off (replicate n 0xFF)) \<and>
        (\<forall>v off d. off + length d \<le> fi_total_size i \<and> (\<forall>j<length d. mem v ! (off + j) = 0xFF) \<longrightarrow>
           fst (wr v off d) = 0 \<and> mem (snd (wr v off d)) = blit (mem v) off d) \<and>
        (\<forall>v off n. off + n \<le> fi_total_size i \<longrightarrow>
           fst (rd v off n) = 0 \<and> fst (snd (rd v off n)) = take n (drop off (mem v)) \<and>
           mem (snd (snd (rd v off n))) = mem v))"

text \<open>Up to where the bytes behind the cursor are known to be erased.\<close>

definition log_erased_to :: "flash_info \<Rightarrow> nat \<Rightarrow> nat" where
  "log_erased_to i w = (if w mod fi_sector_size i = 0 then min (fi_total_size i) (w + fi_sector_size i)
                        else (w div fi_sector_size i + 1) * fi_sector_size i)"

definition rec_ok :: "flash_info \<Rightarrow> u32 \<times> u8 list \<Rightarrow> bool" where
  "rec_ok i r \<longleftrightarrow> snd r \<noteq> [] \<and> length (snd r) < 2 ^ 30 \<and> log_write_len i (length (snd r)) \<le> 512"

definition log_inv :: "('f \<Rightarrow> u8 list) \<Rightarrow> flash_info \<Rightarrow> 'f flash_ops \<Rightarrow> (u32 \<times> u8 list) list \<Rightarrow> 'f mini_log \<Rightarrow> bool" where
  "log_inv mem i ops recs s \<longleftrightarrow>
     log_is_initialized s \<and> log_info s = i \<and> log_ops s = ops \<and> cache_ok (log_crc s) \<and>
     log_write_offset s = length (flashlog i recs) \<and> length (flashlog i recs) \<le> fi_total_size i \<and>
     take (length (flashlog i recs)) (mem (log_dev s)) = flashlog i recs \<and>
     (recs \<noteq> [] \<longrightarrow> (\<forall>j. length (flashlog i recs) \<le> j \<and> j < log_erased_to i (length (flashlog i recs)) \<longrightarrow>
        mem (log_dev s) ! j = 0xFF))"

lemma length_rec_image: "info_ok i \<Longrightarrow> rec_ok i r \<Longrightarrow> length (rec_image i r) = log_write_len i (length (snd r))"
  using log_write_len_bounds(1) [of i "length (snd r)"] by (simp add: rec_image_def rec_ok_def)

lemma log_frame_image_eq:
  assumes "length hdr = 10" "10 + length p \<le> 512"
  shows "log_frame_image hdr p = Some (hdr @ p @ replicate (502 - length p) 0xFF)"
  using assms by (simp add: log_frame_image_def blit_def)

lemma take_frame_image:
  assumes "info_ok i" "rec_ok i r"
  shows "take (log_write_len i (length (snd r)))
      (frame_bytes (rec_header r) @ snd r @ replicate (502 - length (snd r)) 0xFF) = rec_image i r"
  using assms log_write_len_bounds(1) [of i "length (snd r)"]
  by (simp add: rec_image_def rec_ok_def min_def) linarith

lemma flashlog_snoc: "flashlog i (recs @ [r]) = flashlog i recs @ rec_image i r"
  by (simp add: flashlog_def)

lemma take_blit_low: "n \<le> off \<Longrightarrow> off \<le> length b \<Longrightarrow> take n (blit b off xs) = take n b"
  by (simp add: blit_def)

text \<open>Erasing the sectors a frame enters makes its whole range erased.\<close>

lemma erase_covers:
  assumes i: "info_ok i" and inv: "log_inv mem i ops recs s" and fits: "w + wl \<le> fi_total_size i" and wl: "0 < wl"
    and w: "w = length (flashlog i recs)"
    and len: "length (mem (log_dev s)) = fi_total_size i"
  defines "es \<equiv> log_erase_start w (fi_sector_size i)"
    and "ee \<equiv> log_erase_end (w + wl) (fi_sector_size i)"
  defines "m \<equiv> (if es < ee then blit (mem (log_dev s)) es (replicate (ee - es) 0xFF) else mem (log_dev s))"
  shows "es < ee \<longrightarrow> es mod fi_sector_size i = 0 \<and> (ee - es) mod fi_sector_size i = 0 \<and> es + (ee - es) \<le> fi_total_size i"
    and "length m = fi_total_size i" "take w m = flashlog i recs"
    and "\<forall>j. w \<le> j \<and> j < ee \<longrightarrow> m ! j = 0xFF"
proof -
  let ?sec = "fi_sector_size i" and ?T = "fi_total_size i"
  have io: "0 < ?sec" "?T mod ?sec = 0" "?T < 2 ^ 30" using i by (auto simp: info_ok_def)
  have wT: "w \<le> ?T" using fits by simp
  have ee: "w + wl \<le> ee" "ee \<le> ?T" "ee mod ?sec = 0"
    using log_erase_end_eq(2-4) [OF i fits] by (simp_all add: ee_def)
  have es: "es = (if w mod ?sec = 0 then w else (w div ?sec + 1) * ?sec)"
    using sector_ceil(1) [OF io(1,2) wT] io(3) by (auto simp: es_def log_erase_start_def sz_mul_def)
  have esw: "w \<le> es" using sector_ceil(2) [OF io(1,2) wT] by (auto simp: es)
  have esm: "es mod ?sec = 0" by (auto simp: es)
  have known: "w \<le> j \<Longrightarrow> j < es \<Longrightarrow> mem (log_dev s) ! j = 0xFF" for j
  proof -
    assume j: "w \<le> j" "j < es"
    then have "w mod ?sec \<noteq> 0" by (auto simp: es split: if_splits)
    then have "w \<noteq> 0" by (cases w) auto
    then have "recs \<noteq> []" using w by (auto simp: flashlog_def)
    with inv j \<open>w mod ?sec \<noteq> 0\<close> show ?thesis by (auto simp: log_inv_def w es log_erased_to_def)
  qed
  show "es < ee \<longrightarrow> es mod ?sec = 0 \<and> (ee - es) mod ?sec = 0 \<and> es + (ee - es) \<le> ?T"
    using esm ee by (auto intro: dvd_diff_nat)
  show "length m = ?T" using len ee by (simp add: m_def length_blit)
  show "take w m = flashlog i recs"
    using inv esw w len ee by (auto simp: m_def log_inv_def blit_def)
  show "\<forall>j. w \<le> j \<and> j < ee \<longrightarrow> m ! j = 0xFF"
    using known len ee by (auto simp: m_def nth_blit)
qed

lemma log_append_dev_ok:
  assumes i: "info_ok i" and dev: "flash_device ops mem i" and inv: "log_inv mem i ops recs s"
    and fits: "length (flashlog i recs) + length img \<le> fi_total_size i" and ne: "img \<noteq> []"
  obtains v where "log_append_dev ops i (length (flashlog i recs)) img (log_dev s) = Some (MINI_LOG_OK, v)"
    "take (length (flashlog i recs) + length img) (mem v) = flashlog i recs @ img"
    "\<forall>j. length (flashlog i recs) + length img \<le> j \<and> j < log_erased_to i (length (flashlog i recs) + length img) \<longrightarrow>
       mem v ! j = 0xFF"
proof -
  let ?sec = "fi_sector_size i" and ?T = "fi_total_size i"
  define w where "w = length (flashlog i recs)"
  define w' where "w' = w + length img"
  obtain op cl er wr rd where ops: "fo_open ops = Some op" "fo_close ops = Some cl" "fo_erase ops = Some er"
    "fo_write ops = Some wr" "\<And>v. length (mem v) = ?T" "\<And>v a b c. fst (op v a b c) = 0 \<and> mem (snd (op v a b c)) = mem v"
    "\<And>v. mem (cl v) = mem v"
    "\<And>v off n. off mod ?sec = 0 \<and> n mod ?sec = 0 \<and> off + n \<le> ?T \<longrightarrow>
           fst (er v off n) = 0 \<and> mem (snd (er v off n)) = blit (mem v) off (replicate n 0xFF)"
    "\<And>v off d. off + length d \<le> ?T \<and> (\<forall>j<length d. mem v ! (off + j) = 0xFF) \<longrightarrow>
           fst (wr v off d) = 0 \<and> mem (snd (wr v off d)) = blit (mem v) off d"
    using dev unfolding flash_device_def by blast
  have io: "0 < ?sec" "?T mod ?sec = 0" "?T < 2 ^ 30" using i by (auto simp: info_ok_def)
  have f: "w' \<le> ?T" "sz_add w (length img) = w'" using fits io(3) by (simp_all add: w_def w'_def sz_add_def)
  let ?es = "log_erase_start w ?sec" and ?ee = "log_erase_end w' ?sec"
  have pos: "0 < length img" using ne by simp
  note ec = erase_covers [OF i inv fits pos refl ops(5), folded w_def, folded w'_def]
  define v1 where "v1 = snd (op (log_dev s) (fi_base_addr i) ?sec (of_nat (?T div ?sec)))"
  have v1: "op (log_dev s) (fi_base_addr i) ?sec (of_nat (?T div ?sec)) = (0, v1)" "mem v1 = mem (log_dev s)"
    using ops(6) by (simp_all add: v1_def prod_eq_iff)
  define v2 where "v2 = (if ?es < ?ee then snd (er v1 ?es (?ee - ?es)) else v1)"
  let ?m = "if ?es < ?ee then blit (mem (log_dev s)) ?es (replicate (?ee - ?es) 0xFF) else mem (log_dev s)"
  have v2: "(if ?es < ?ee then er v1 ?es (?ee - ?es) else (0, v1)) = (0, v2)" "mem v2 = ?m"
    using ec(1) ops(8) [of ?es "?ee - ?es" v1] v1(2) by (auto simp: v2_def prod_eq_iff)
  have le: "w' \<le> ?ee" using log_erase_end_eq(2) [OF i f(1)] by simp
  define v3 where "v3 = snd (wr v2 w img)"
  have "fst (wr v2 w img) = 0 \<and> mem (snd (wr v2 w img)) = blit (mem v2) w img"
    using ops(9) [of w img v2] f(1) ec(4) v2(2) le by (auto simp: w'_def)
  then have v3: "wr v2 w img = (0, v3)" "mem v3 = blit ?m w img" using v2(2) by (simp_all add: v3_def prod_eq_iff)
  define v4 where "v4 = (if w' < ?T \<and> w' mod ?sec = 0 then snd (er v3 w' ?sec) else v3)"
  have up: "w' < ?T \<Longrightarrow> w' mod ?sec = 0 \<Longrightarrow> w' + ?sec \<le> ?T"
    using io by (metis add.commute dvd_imp_mod_0 mod_0_imp_dvd nat_dvd_not_less dvd_diff_nat diff_is_0_eq' le_add_diff_inverse2
        add_le_cancel_right dvd_imp_le zero_less_diff less_imp_le)
  have v4: "mem v4 = (if w' < ?T \<and> w' mod ?sec = 0 then blit (mem v3) w' (replicate ?sec 0xFF) else mem v3)"
    using ops(8) [of w' ?sec v3] up by (simp add: v4_def)
  have r: "log_append_dev ops i w img (log_dev s) = Some (MINI_LOG_OK, cl v4)"
    using ops(1-4) v1(1) v2(1) v3(1) by (simp add: log_append_dev_def f(2) v4_def Let_def)
  have l3: "length (mem v3) = ?T" using ops(5) .
  have tk3: "take w' (mem v3) = flashlog i recs @ img"
    using ec(2,3) f(1) v3(2) take_blit [of w img ?m] by (simp add: w'_def)
  then have tk: "take w' (mem v4) = flashlog i recs @ img"
    using v4 l3 f(1) by (auto simp: take_blit_low)
  have hi: "mem v3 ! j = 0xFF" if "w' \<le> j" "j < ?ee" for j
  proof -
    have "j < ?T" using that(2) log_erase_end_eq(3) [OF i f(1)] by simp
    then show ?thesis using ec(2,4) that v3(2) f(1) nth_blit [of w img ?m j] by (auto simp: w'_def)
  qed
  have er: "\<forall>j. w' \<le> j \<and> j < log_erased_to i w' \<longrightarrow> mem v4 ! j = 0xFF"
  proof (cases "w' mod ?sec = 0")
    case True
    then show ?thesis using v4 l3 up f(1) by (auto simp: log_erased_to_def nth_blit)
  next
    case False
    then show ?thesis using v4 hi log_erase_end_eq(1) [OF i f(1)] by (simp add: log_erased_to_def)
  qed
  show ?thesis
    using that [of "cl v4"] r tk er ops(7) by (simp add: w_def w'_def)
qed

lemma write_record_ok:
  assumes i: "info_ok i" and dev: "flash_device ops mem i" and inv: "log_inv mem i ops recs s"
    and r: "rec_ok i (t, take len d)" "len \<le> length d"
    and fits: "length (flashlog i recs) + log_write_len i len \<le> fi_total_size i"
  obtains s' where "mini_log_flash_write_record s t (Some d) len = Some (MINI_LOG_OK, s')"
    "log_inv mem i ops (recs @ [(t, take len d)]) s'" "length (log_frame_buf s') = 512"
    "log_line_buf s' = log_line_buf s" "log_resync s' = log_resync s" "log_flash_ring s' = log_flash_ring s"
proof -
  let ?p = "take len d" and ?w = "length (flashlog i recs)" and ?wl = "log_write_len i len"
  let ?h = "\<lparr>fh_magic = MINI_LOG_MAGIC, fh_len = of_nat len, fh_tick = t, fh_crc = 0\<rparr>"
  have lp: "length ?p = len" using r(2) by simp
  have l0: "len \<noteq> 0" using r(1) lp by (auto simp: rec_ok_def)
  have wl: "10 + len \<le> ?wl" "?wl \<le> 512" "?w + ?wl < 2 ^ 32"
    using r(1) log_write_len_bounds(1) [OF i, of len] lp fits i by (auto simp: rec_ok_def info_ok_def)
  obtain c where c: "cache_ok c" "frame_crc (log_crc s) (take 8 (frame_bytes ?h)) ?p =
      Some (frame_crc_val (take 8 (frame_bytes ?h)) ?p, c)"
    using inv by (auto simp: log_inv_def intro: frame_crc_eq)
  define hd where "hd = frame_bytes (rec_header (t, ?p))"
  define buf where "buf = hd @ ?p @ replicate (502 - len) 0xFF"
  have hd: "frame_bytes (?h\<lparr>fh_crc := frame_crc_val (take 8 (frame_bytes ?h)) ?p\<rparr>) = hd"
    using lp by (simp add: hd_def rec_header_def)
  have img: "log_frame_image hd ?p = Some buf"
    using log_frame_image_eq [of hd ?p] wl lp by (simp add: buf_def hd_def)
  have im: "take ?wl buf = rec_image i (t, ?p)"
    using take_frame_image [OF i r(1)] lp by (simp add: buf_def hd_def)
  have li: "length (rec_image i (t, ?p)) = ?wl" using length_rec_image [OF i r(1)] lp by simp
  then have ne: "rec_image i (t, ?p) \<noteq> []" using wl by auto
  obtain v where v: "log_append_dev ops i ?w (rec_image i (t, ?p)) (log_dev s) = Some (MINI_LOG_OK, v)"
    "take (?w + ?wl) (mem v) = flashlog i recs @ rec_image i (t, ?p)"
    "\<forall>j. ?w + ?wl \<le> j \<and> j < log_erased_to i (?w + ?wl) \<longrightarrow> mem v ! j = 0xFF"
    using log_append_dev_ok [OF i dev inv, of "rec_image i (t, ?p)"] fits ne li by auto
  let ?s = "s\<lparr>log_write_offset := ?w + ?wl, log_crc := c, log_frame_buf := buf, log_dev := v\<rparr>"
  have "mini_log_flash_write_record s t (Some d) len = Some (MINI_LOG_OK, ?s)"
    using inv l0 wl fits r(2) c(2) hd img im v(1)
    by (simp add: mini_log_flash_write_record_def log_inv_def Let_def mem_read_def sz_add_def)
  moreover have "log_inv mem i ops (recs @ [(t, ?p)]) ?s"
    using inv c(1) v fits li by (simp add: log_inv_def flashlog_snoc)
  moreover have "length buf = 512" using wl lp by (simp add: buf_def hd_def)
  ultimately show ?thesis by (intro that [of ?s]) auto
qed

end
