(* ===== verification/Log_Recovery.thy ===== *)
theory Log_Recovery
  imports Mini_Log
begin

text \<open>
  The scan of \<^verbatim>\<open>mini_log_flash_recover\<close> after power-up finds exactly the records that
  \<^verbatim>\<open>mini_log_flash_write_record\<close> appended, and puts the cursor behind them.
\<close>

subsection \<open>The scan finds the frames\<close>

definition scan_inv :: "('f \<Rightarrow> u8 list) \<Rightarrow> flash_info \<Rightarrow> 'f flash_ops \<Rightarrow> u8 list \<Rightarrow> 'f mini_log \<Rightarrow> bool" where
  "scan_inv mem i ops m s \<longleftrightarrow> log_info s = i \<and> log_ops s = ops \<and> cache_ok (log_crc s) \<and>
     length (log_frame_buf s) = 512 \<and> mem (log_dev s) = m"

lemma device_read:
  assumes "flash_device ops mem i"
  obtains rd where "fo_read ops = Some rd"
    "\<And>v off n. off + n \<le> fi_total_size i \<Longrightarrow> \<exists>v'. rd v off n = (0, take n (drop off (mem v)), v') \<and> mem v' = mem v"
proof -
  obtain rd where rd: "fo_read ops = Some rd"
    "\<And>v off n. off + n \<le> fi_total_size i \<longrightarrow> fst (rd v off n) = 0 \<and>
       fst (snd (rd v off n)) = take n (drop off (mem v)) \<and> mem (snd (snd (rd v off n))) = mem v"
    using assms unfolding flash_device_def by blast
  show ?thesis
  proof (rule that [OF rd(1)])
    fix v off n assume "off + n \<le> fi_total_size i"
    with rd(2) [of off n v] show "\<exists>v'. rd v off n = (0, take n (drop off (mem v)), v') \<and> mem v' = mem v"
      by (intro exI [of _ "snd (snd (rd v off n))"]) (simp add: prod_eq_iff)
  qed
qed

lemma recover_frame:
  assumes i: "info_ok i" and dev: "flash_device ops mem i" and inv: "scan_inv mem i ops m s"
    and r: "rec_ok i (t, p)" and at: "off + length (rec_image i (t, p)) \<le> fi_total_size i"
    "take (length (rec_image i (t, p))) (drop off m) = rec_image i (t, p)"
  obtains s' where "recover_loop (Suc n) s off fr = recover_loop n s' (off + length (rec_image i (t, p))) (fr + 1)"
    "scan_inv mem i ops m s'"
proof -
  let ?T = "fi_total_size i" and ?len = "length p" and ?hb = "frame_bytes (rec_header (t, p))"
  obtain rd where rd: "fo_read ops = Some rd"
    "\<And>v off n. off + n \<le> ?T \<Longrightarrow> \<exists>v'. rd v off n = (0, take n (drop off (mem v)), v') \<and> mem v' = mem v"
    using device_read [OF dev] by metis
  have li: "length (rec_image i (t, p)) = log_write_len i ?len" using length_rec_image [OF i r] by simp
  have wl: "10 + ?len \<le> log_write_len i ?len" "log_write_len i ?len \<le> 512" "?len \<noteq> 0"
    using r log_write_len_bounds(1) [OF i, of ?len] by (auto simp: rec_ok_def)
  have T: "?T < 2 ^ 30" using i by (simp add: info_ok_def)
  have hb: "take 10 (drop off m) = ?hb"
    using arg_cong [OF at(2), of "take 10"] li wl by (simp add: rec_image_def min_def)
  have pb: "take ?len (drop (off + 10) m) = p"
    using arg_cong [OF at(2), of "\<lambda>x. take ?len (drop 10 x)"] li wl
    by (simp add: rec_image_def drop_take min_def add.commute split: if_splits)
  have mv: "mem (log_dev s) = m" "length (log_frame_buf s) = 512" using inv by (simp_all add: scan_inv_def)
  obtain v1 where v1: "rd (log_dev s) off 10 = (0, ?hb, v1)" "mem v1 = m"
    using rd(2) [of off 10 "log_dev s"] at(1) li wl hb mv(1) by auto
  obtain v2 where v2: "rd v1 (off + 10) ?len = (0, p, v2)" "mem v2 = m"
    using rd(2) [of "off + 10" ?len v1] at(1) li wl pb v1(2) by auto
  define b1 where "b1 = ?hb @ drop 10 (log_frame_buf s)"
  define b2 where "b2 = ?hb @ p @ drop (10 + ?len) (log_frame_buf s)"
  have c1: "mem_copy (log_frame_buf s) 0 ?hb 0 10 = Some b1" using mv(2) by (simp add: b1_def blit_def)
  have c2: "mem_copy b1 10 p 0 ?len = Some b2" using mv(2) wl by (simp add: b1_def b2_def blit_def add.commute)
  have f1: "rd16 b1 0 = MINI_LOG_MAGIC" "unat (rd16 b1 2) = ?len"
    using wl by (simp_all add: b1_def frame_fields rec_header_def unat_of_nat_u16)
  obtain c where c: "cache_ok c" "frame_crc (log_crc s) (take 8 ?hb) p = Some (frame_crc_val (take 8 ?hb) p, c)"
    using inv by (auto simp: scan_inv_def intro: frame_crc_eq)
  define h0 where "h0 = \<lparr>fh_magic = MINI_LOG_MAGIC, fh_len = of_nat ?len, fh_tick = t, fh_crc = 0\<rparr>"
  have "rec_header (t, p) = h0\<lparr>fh_crc := frame_crc_val (take 8 (frame_bytes h0)) p\<rparr>"
    by (simp add: rec_header_def h0_def)
  then have "fh_crc (rec_header (t, p)) = frame_crc_val (take 8 ?hb) p" using take8_frame by simp
  then have ok: "mini_log_frame_crc_ok (s\<lparr>log_dev := v2, log_frame_buf := b2\<rparr>) ?len =
      Some (True, s\<lparr>log_dev := v2, log_frame_buf := b2, log_crc := c\<rparr>)"
    using c(2) mv(2) wl by (simp add: mini_log_frame_crc_ok_def mem_read_def b2_def frame_fields)
  have adv: "sz_add off (sz_clear (sz_add (sz_add 10 ?len) (log_align i - 1)) (log_align i - 1)) = off + log_write_len i ?len"
    using log_write_len_bounds(3) [OF i, of ?len] r at(1) li T by (simp add: rec_ok_def sz_add_eq)
  have sz: "sz_add off 10 = off + 10" "sz_add 10 ?len = 10 + ?len" "sz_add off (10 + ?len) = off + (10 + ?len)"
    using at(1) li wl T by (simp_all add: sz_add_def)
  let ?s = "s\<lparr>log_dev := v2, log_frame_buf := b2, log_crc := c\<rparr>"
  have "recover_loop (Suc n) s off fr = recover_loop n ?s (off + log_write_len i ?len) (fr + 1)"
    using inv rd(1) v1(1) v2(1) c1 c2 f1 ok adv sz at(1) li wl
    by (simp add: scan_inv_def Let_def)
  moreover have "scan_inv mem i ops m ?s" using inv c(1) v2(2) mv(2) wl by (simp add: scan_inv_def b2_def)
  ultimately show ?thesis using li by (intro that [of ?s]) simp_all
qed

lemma scan_all:
  assumes i: "info_ok i" and dev: "flash_device ops mem i"
  shows "scan_inv mem i ops m s \<Longrightarrow> list_all (rec_ok i) ys \<Longrightarrow>
    take (length (flashlog i (xs @ ys))) m = flashlog i (xs @ ys) \<Longrightarrow>
    length (flashlog i (xs @ ys)) \<le> fi_total_size i \<Longrightarrow>
    \<exists>s'. recover_loop (length ys + k) s (length (flashlog i xs)) fr =
      recover_loop k s' (length (flashlog i (xs @ ys))) (fr + of_nat (length ys)) \<and> scan_inv mem i ops m s'"
proof (induction ys arbitrary: xs s fr)
  case Nil
  then show ?case by auto
next
  case (Cons r ys)
  obtain t p where r: "r = (t, p)" by fastforce
  have fl: "flashlog i (xs @ r # ys) = flashlog i xs @ rec_image i r @ flashlog i ys" by (simp add: flashlog_def)
  have at: "length (flashlog i xs) + length (rec_image i (t, p)) \<le> fi_total_size i"
    "take (length (rec_image i (t, p))) (drop (length (flashlog i xs)) m) = rec_image i (t, p)"
  proof -
    show "length (flashlog i xs) + length (rec_image i (t, p)) \<le> fi_total_size i" using Cons.prems(4) fl r by simp
    have "take (length (rec_image i r)) (drop (length (flashlog i xs)) (take (length (flashlog i (xs @ r # ys))) m)) = rec_image i r"
      by (subst Cons.prems(3)) (simp add: fl)
    then show "take (length (rec_image i (t, p))) (drop (length (flashlog i xs)) m) = rec_image i (t, p)"
      using r by (simp add: drop_take fl [unfolded r])
  qed
  obtain s1 where s1: "recover_loop (Suc (length ys + k)) s (length (flashlog i xs)) fr =
      recover_loop (length ys + k) s1 (length (flashlog i xs) + length (rec_image i (t, p))) (fr + 1)"
    "scan_inv mem i ops m s1"
    by (rule recover_frame [OF i dev Cons.prems(1) _ at]) (use Cons.prems(2) r in auto)
  have e: "length (flashlog i xs) + length (rec_image i (t, p)) = length (flashlog i (xs @ [r]))"
    using r by (simp add: flashlog_snoc)
  from Cons.IH [OF s1(2), of "xs @ [r]" "fr + 1"] Cons.prems(2-4) s1(1) show ?case unfolding e by (auto simp: algebra_simps)
qed

text \<open>Whether the ten bytes behind the last record look like a torn frame rather than erased flash.\<close>

definition log_torn :: "flash_info \<Rightarrow> u8 list \<Rightarrow> nat \<Rightarrow> bool" where
  "log_torn i m w \<longleftrightarrow> w + 10 \<le> fi_total_size i \<and> list_ex (\<lambda>b. b \<noteq> 0xFF) (take 10 (drop w m))"

lemma recover_end:
  assumes i: "info_ok i" and dev: "flash_device ops mem i" and inv: "scan_inv mem i ops m s"
    and len: "length m = fi_total_size i" and w: "w < fi_total_size i \<longrightarrow> m ! w = 0xFF" "w \<le> fi_total_size i"
  obtains s' where "recover_loop (Suc k) s w fr =
    Some (MINI_LOG_OK, log_torn i m w, w, fr, s')" "log_info s' = i"
proof (cases "w + 10 \<le> fi_total_size i")
  case False
  then have "sz_add w FRAME_HDR = w + 10" using w(2) i by (simp add: info_ok_def sz_add_def)
  with False inv show ?thesis by (intro that [of s]) (simp_all add: scan_inv_def log_torn_def)
next
  case True
  let ?T = "fi_total_size i" and ?b = "take 10 (drop w m)"
  obtain rd where rd: "fo_read ops = Some rd"
    "\<And>v off n. off + n \<le> ?T \<Longrightarrow> \<exists>v'. rd v off n = (0, take n (drop off (mem v)), v') \<and> mem v' = mem v"
    using device_read [OF dev] by metis
  have mv: "mem (log_dev s) = m" "length (log_frame_buf s) = 512" using inv by (simp_all add: scan_inv_def)
  obtain v1 where v1: "rd (log_dev s) w 10 = (0, ?b, v1)"
    using rd(2) [of w 10 "log_dev s"] True mv(1) by auto
  have lb: "length ?b = 10" using True len by simp
  define b1 where "b1 = ?b @ drop 10 (log_frame_buf s)"
  have c1: "mem_copy (log_frame_buf s) 0 ?b 0 10 = Some b1" using mv(2) lb by (simp add: b1_def blit_def)
  have b0: "b1 ! 0 = 0xFF" using w(1) True len lb by (simp add: b1_def nth_append)
  have "rd16 b1 0 \<noteq> 4"
  proof
    assume "rd16 b1 0 = 4"
    then have "bit (rd16 b1 0) 0 = bit (4 :: u16) 0" by simp
    moreover have "bit (rd16 b1 0) 0" by (simp only: rd16_def b0 bit_or_iff) simp
    ultimately show False by (simp add: bit_0)
  qed
  moreover have "take 10 b1 = ?b" using lb by (simp add: b1_def)
  moreover have "sz_add w FRAME_HDR = w + 10" using True i by (simp add: info_ok_def sz_add_def)
  ultimately have "recover_loop (Suc k) s w fr =
      Some (MINI_LOG_OK, log_torn i m w, w, fr, s\<lparr>log_dev := v1, log_frame_buf := b1\<rparr>)"
    using True inv rd(1) v1 c1 by (simp add: scan_inv_def Let_def log_torn_def)
  with inv show ?thesis by (intro that [of "s\<lparr>log_dev := v1, log_frame_buf := b1\<rparr>"]) (simp_all add: scan_inv_def)
qed

lemma length_flashlog_ge: "info_ok i \<Longrightarrow> list_all (rec_ok i) recs \<Longrightarrow> length recs \<le> length (flashlog i recs)"
proof (induction recs)
  case (Cons r recs)
  then have "11 \<le> length (rec_image i r)" 
    using length_rec_image [of i r] log_write_len_bounds(1) [of i "length (snd r)"] by (cases "snd r") (auto simp: rec_ok_def)
  with Cons show ?case by (simp add: flashlog_def)
qed (simp add: flashlog_def)

subsection \<open>Records survive a restart\<close>

text \<open>A sequence of appends that all succeed.\<close>

fun log_write_all :: "'f mini_log \<Rightarrow> (u32 \<times> u8 list) list \<Rightarrow> 'f mini_log option" where
  "log_write_all s [] = Some s"
| "log_write_all s ((t, p) # rs) =
     do { (r, s') \<leftarrow> mini_log_flash_write_record s t (Some p) (length p);
          if r = MINI_LOG_OK then log_write_all s' rs else None }"

lemma write_all_ok:
  assumes i: "info_ok i" and dev: "flash_device ops mem i"
  shows "log_inv mem i ops xs s \<Longrightarrow> list_all (rec_ok i) ys \<Longrightarrow> length (flashlog i (xs @ ys)) \<le> fi_total_size i \<Longrightarrow>
    \<exists>s'. log_write_all s ys = Some s' \<and> log_inv mem i ops (xs @ ys) s'"
proof (induction ys arbitrary: xs s)
  case (Cons r ys)
  obtain t p where r: "r = (t, p)" by fastforce
  have ok: "rec_ok i (t, take (length p) p)" using Cons.prems(2) r by simp
  have "length (flashlog i xs) + log_write_len i (length p) \<le> fi_total_size i"
    using Cons.prems(3) length_rec_image [OF i, of r] ok r by (simp add: flashlog_def)
  then obtain s1 where s1: "mini_log_flash_write_record s t (Some p) (length p) = Some (MINI_LOG_OK, s1)"
    "log_inv mem i ops (xs @ [r]) s1"
    using write_record_ok [OF i dev Cons.prems(1) ok] r by auto
  with Cons.IH [OF s1(2)] Cons.prems(2,3) r show ?case by simp
qed simp

lemma register_ok:
  assumes "info_ok i" "flash_device ops mem i"
  obtains s1 where "mini_log_flash_register_cxt s (Some ops) (Some i) = (MINI_LOG_OK, s1)"
    "log_is_initialized s1" "log_info s1 = i" "log_ops s1 = ops" "log_crc s1 = log_crc s" "log_dev s1 = log_dev s"
    "log_frame_buf s1 = log_frame_buf s" "log_write_offset s1 = 0"
proof -
  let ?s = "s\<lparr>log_is_initialized := False, log_resync := False, log_ops := ops, log_info := i, log_write_offset := 0,
    log_is_initialized := True\<rparr>"
  obtain op cl er wr rd where "fo_open ops = Some op" "fo_close ops = Some cl" "fo_erase ops = Some er"
    "fo_write ops = Some wr" "fo_read ops = Some rd"
    using assms(2) unfolding flash_device_def by blast
  with assms(1) have "mini_log_flash_register_cxt s (Some ops) (Some i) = (MINI_LOG_OK, ?s)"
    by (simp add: mini_log_flash_register_cxt_def info_ok_def Let_def)
  then show ?thesis by (intro that [of ?s]) simp_all
qed

lemma recover_all:
  assumes i: "info_ok i" and dev: "flash_device ops mem i" and inv: "scan_inv mem i ops m s" "log_is_initialized s"
    and recs: "list_all (rec_ok i) recs" "take (length (flashlog i recs)) m = flashlog i recs"
    and w: "w = length (flashlog i recs)" "w \<le> fi_total_size i" "w < fi_total_size i \<longrightarrow> m ! w = 0xFF"
  shows "\<exists>s'. mini_log_flash_recover s = Some (MINI_LOG_OK, of_nat (length recs), s') \<and>
    log_write_offset s' = (if log_torn i m w then log_erase_end w (fi_sector_size i) else w)"
proof -
  let ?T = "fi_total_size i" and ?sec = "fi_sector_size i"
  obtain op cl where ops: "fo_open ops = Some op" "fo_close ops = Some cl" "\<forall>v. length (mem v) = ?T"
    "\<forall>v a b c. fst (op v a b c) = 0 \<and> mem (snd (op v a b c)) = mem v"
    using dev unfolding flash_device_def by blast
  obtain v where v: "op (log_dev s) (fi_base_addr i) ?sec (of_nat (?T div ?sec)) = (0, v)" "mem v = m"
    using ops(4) inv(1) by (metis prod.collapse scan_inv_def)
  have inv1: "scan_inv mem i ops m (s\<lparr>log_dev := v\<rparr>)" using inv(1) v(2) by (simp add: scan_inv_def)
  have lm: "length m = ?T" using ops(3) v(2) by blast
  define k where "k = ?T - length recs"
  have k: "Suc ?T = length recs + Suc k" using length_flashlog_ge [OF i recs(1)] w(1,2) by (simp add: k_def)
  obtain s1 where s1: "recover_loop (Suc ?T) (s\<lparr>log_dev := v\<rparr>) 0 0 = recover_loop (Suc k) s1 w (of_nat (length recs))"
    "scan_inv mem i ops m s1"
    using scan_all [OF i dev inv1 recs(1), of "[]" "Suc k" 0] recs(2) w(1,2) unfolding k by (auto simp: flashlog_def)
  obtain s2 where s2: "recover_loop (Suc k) s1 w (of_nat (length recs)) =
      Some (MINI_LOG_OK, log_torn i m w, w, of_nat (length recs), s2)" "log_info s2 = i"
    by (rule recover_end [OF i dev s1(2) lm w(3,2)])
  have "log_erase_end w ?sec \<le> ?T" by (rule log_erase_end_eq(3) [OF i w(2)])
  then show ?thesis using inv ops(1,2) v(1) s1(1) s2(1) w(2)
    by (simp add: mini_log_flash_recover_def scan_inv_def Let_def)
qed

lemma log_inv_next:
  assumes "info_ok i" "log_inv mem i ops recs s" "recs \<noteq> []" "length (flashlog i recs) < fi_total_size i"
  shows "mem (log_dev s) ! length (flashlog i recs) = 0xFF"
proof -
  let ?w = "length (flashlog i recs)" and ?sec = "fi_sector_size i"
  have "?w < log_erased_to i ?w"
    using assms(1,4) sector_ceil(2) [of ?sec "fi_total_size i" ?w] by (auto simp: log_erased_to_def info_ok_def)
  with assms(2,3) show ?thesis by (simp add: log_inv_def)
qed

text \<open>
  C17. On a working flash device every record that fits is appended, and after a restart the scan finds exactly
  the appended records and puts the write cursor behind the last one (at the next sector boundary when the
  bytes there are not erased).
\<close>

theorem mini_log_recover_roundtrip:
  assumes i: "info_ok i" and dev: "flash_device ops mem i" and c: "cache_ok (log_crc s0)"
    and recs: "recs \<noteq> []" "list_all (rec_ok i) recs" "length (flashlog i recs) \<le> fi_total_size i"
  shows "\<exists>s1 s2. mini_log_flash_register_cxt s0 (Some ops) (Some i) = (MINI_LOG_OK, s1) \<and>
    log_write_all s1 recs = Some s2 \<and>
    (\<forall>r0. mem (log_dev r0) = mem (log_dev s2) \<and> cache_ok (log_crc r0) \<and> length (log_frame_buf r0) = 512 \<longrightarrow>
      (\<exists>r1 r2. mini_log_flash_register_cxt r0 (Some ops) (Some i) = (MINI_LOG_OK, r1) \<and>
        mini_log_flash_recover r1 = Some (MINI_LOG_OK, of_nat (length recs), r2) \<and>
        log_write_offset r2 = (let w = length (flashlog i recs) in
          if log_torn i (mem (log_dev s2)) w then log_erase_end w (fi_sector_size i) else w)))"
proof -
  let ?w = "length (flashlog i recs)"
  obtain s1 where s1: "mini_log_flash_register_cxt s0 (Some ops) (Some i) = (MINI_LOG_OK, s1)"
    "log_is_initialized s1" "log_info s1 = i" "log_ops s1 = ops" "log_crc s1 = log_crc s0" "log_write_offset s1 = 0"
    by (rule register_ok [OF i dev])
  then have "log_inv mem i ops [] s1" using c by (simp add: log_inv_def flashlog_def)
  then obtain s2 where s2: "log_write_all s1 recs = Some s2" "log_inv mem i ops recs s2"
    using write_all_ok [OF i dev, of "[]" s1 recs] recs(2,3) by auto
  have "\<exists>r1 r2. mini_log_flash_register_cxt r0 (Some ops) (Some i) = (MINI_LOG_OK, r1) \<and>
      mini_log_flash_recover r1 = Some (MINI_LOG_OK, of_nat (length recs), r2) \<and>
      log_write_offset r2 = (let w = ?w in
        if log_torn i (mem (log_dev s2)) w then log_erase_end w (fi_sector_size i) else w)"
    if r0: "mem (log_dev r0) = mem (log_dev s2)" "cache_ok (log_crc r0)" "length (log_frame_buf r0) = 512" for r0
  proof -
    obtain r1 where r1: "mini_log_flash_register_cxt r0 (Some ops) (Some i) = (MINI_LOG_OK, r1)"
      "log_is_initialized r1" "log_info r1 = i" "log_ops r1 = ops" "log_crc r1 = log_crc r0" "log_dev r1 = log_dev r0"
      "log_frame_buf r1 = log_frame_buf r0"
      by (rule register_ok [OF i dev])
    then have "scan_inv mem i ops (mem (log_dev s2)) r1" using r0 by (simp add: scan_inv_def)
    from recover_all [OF i dev this r1(2) recs(2) _ refl recs(3)] s2(2) log_inv_next [OF i s2(2) recs(1)] r1(1)
    show ?thesis by (auto simp: log_inv_def Let_def)
  qed
  with s1(1) s2(1) show ?thesis by blast
qed

text \<open>A device in RAM: 64 bytes in two sectors.\<close>

definition ram_info :: flash_info where
  "ram_info = \<lparr>fi_base_addr = 0x1000, fi_total_size = 64, fi_sector_size = 32, fi_write_gran = 4\<rparr>"

definition ram_mem :: "(nat \<Rightarrow> u8) \<Rightarrow> u8 list" where
  "ram_mem v = map v [0..<64]"

definition ram_ops :: "(nat \<Rightarrow> u8) flash_ops" where
  "ram_ops = \<lparr>fo_open = Some (\<lambda>v _ _ _. (0, v)), fo_close = Some (\<lambda>v. v),
     fo_erase = Some (\<lambda>v off n. (0, \<lambda>j. if off \<le> j \<and> j < off + n then 0xFF else v j)),
     fo_write = Some (\<lambda>v off d. (0, \<lambda>j. if off \<le> j \<and> j < off + length d then d ! (j - off) else v j)),
     fo_read = Some (\<lambda>v off n. (0, map v [off..<off + n], v))\<rparr>"

lemma ram_device: "flash_device ram_ops ram_mem ram_info"
proof -
  have "ram_mem (\<lambda>j. if off \<le> j \<and> j < off + length d then d ! (j - off) else v j) = blit (ram_mem v) off d"
    if "off + length d \<le> 64" for v :: "nat \<Rightarrow> u8" and off d
    using that by (intro nth_equalityI) (simp_all add: ram_mem_def nth_blit)
  moreover have "ram_mem (\<lambda>j. if off \<le> j \<and> j < off + n then 0xFF else v j) = blit (ram_mem v) off (replicate n 0xFF)"
    if "off + n \<le> 64" for v :: "nat \<Rightarrow> u8" and off n
    using that by (intro nth_equalityI) (auto simp: ram_mem_def nth_blit)
  moreover have "map v [off..<off + n] = take n (drop off (ram_mem v))" if "off + n \<le> 64" for v :: "nat \<Rightarrow> u8" and off n
    using that by (intro nth_equalityI) (simp_all add: ram_mem_def)
  ultimately show ?thesis by (simp add: flash_device_def ram_ops_def ram_info_def ram_mem_def)
qed

lemma ram_info_ok: "info_ok ram_info"
  by (simp add: info_ok_def ram_info_def)

definition ram_ring :: "u16 \<Rightarrow> fifo_uni_spsc" where
  "ram_ring n = \<lparr>uni_buf = replicate (unat n) 0, uni_size = n, uni_item_size = 1, uni_mask = n - 1, uni_w_ptr = 0, uni_r_ptr = 0\<rparr>"

definition ram_log :: "(nat \<Rightarrow> u8) mini_log" where
  "ram_log = \<lparr>log_ring = ram_ring 1024, log_flash_ring = ram_ring 512, log_frame_buf = replicate 512 0, log_ops = ram_ops,
     log_info = ram_info, log_write_offset = 0, log_is_initialized = False, log_line_buf = replicate 128 0,
     log_line_len = 0, log_resync = False, log_crc = crc_cache_init, log_dev = (\<lambda>_. 0), log_console = []\<rparr>"

lemma ram_write_len: "log_write_len ram_info (Suc (Suc (Suc 0))) = 16"
  "log_write_len ram_info (Suc (Suc (Suc (Suc (Suc 0))))) = 16"
  by (simp_all add: log_write_len_def log_align_def ram_info_def sz_add_def sz_clear_mod [of 4, simplified])

theorem mini_log_recover_roundtrip_witness:
  "\<exists>s1 s2. mini_log_flash_register_cxt ram_log (Some ram_ops) (Some ram_info) = (MINI_LOG_OK, s1) \<and>
    log_write_all s1 [(7, [72, 105, 10]), (9, [1, 2, 3, 4, 10])] = Some s2 \<and>
    (\<exists>r1 r2. mini_log_flash_register_cxt (ram_log\<lparr>log_dev := log_dev s2\<rparr>) (Some ram_ops) (Some ram_info) = (MINI_LOG_OK, r1) \<and>
      mini_log_flash_recover r1 = Some (MINI_LOG_OK, 2, r2) \<and> log_write_offset r2 = 32)"
proof -
  let ?recs = "[(7, [72, 105, 10]), (9, [1, 2, 3, 4, 10])] :: (u32 \<times> u8 list) list"
  have ok: "list_all (rec_ok ram_info) ?recs" using ram_write_len by (simp add: rec_ok_def)
  have w: "length (flashlog ram_info ?recs) = 32"
    using ok ram_write_len by (simp add: flashlog_def length_rec_image [OF ram_info_ok])
  let ?w = "length (flashlog ram_info ?recs)"
  have c: "cache_ok (log_crc ram_log)" by (simp add: ram_log_def cache_ok_def crc_cache_init_def)
  have le: "?w \<le> fi_total_size ram_info" by (simp only: w) (simp add: ram_info_def)
  have e: "log_erase_end 32 (fi_sector_size ram_info) = 32"
    by (simp add: log_erase_end_def ram_info_def sz_add_def sz_mul_def)
  obtain s1 s2 where s: "mini_log_flash_register_cxt ram_log (Some ram_ops) (Some ram_info) = (MINI_LOG_OK, s1)"
    "log_write_all s1 ?recs = Some s2"
    "\<forall>r0. ram_mem (log_dev r0) = ram_mem (log_dev s2) \<and> cache_ok (log_crc r0) \<and> length (log_frame_buf r0) = 512 \<longrightarrow>
      (\<exists>r1 r2. mini_log_flash_register_cxt r0 (Some ram_ops) (Some ram_info) = (MINI_LOG_OK, r1) \<and>
        mini_log_flash_recover r1 = Some (MINI_LOG_OK, of_nat (length ?recs), r2) \<and>
        log_write_offset r2 = (let w = ?w in
          if log_torn ram_info (ram_mem (log_dev s2)) w then log_erase_end w (fi_sector_size ram_info) else w))"
    using mini_log_recover_roundtrip [OF ram_info_ok ram_device c _ ok le] by blast
  have "cache_ok (log_crc (ram_log\<lparr>log_dev := log_dev s2\<rparr>))" using c by simp
  moreover have "length (log_frame_buf (ram_log\<lparr>log_dev := log_dev s2\<rparr>)) = 512" by (simp add: ram_log_def)
  moreover have "ram_mem (log_dev (ram_log\<lparr>log_dev := log_dev s2\<rparr>)) = ram_mem (log_dev s2)" by simp
  ultimately obtain r1 r2 where r:
    "mini_log_flash_register_cxt (ram_log\<lparr>log_dev := log_dev s2\<rparr>) (Some ram_ops) (Some ram_info) = (MINI_LOG_OK, r1)"
    "mini_log_flash_recover r1 = Some (MINI_LOG_OK, of_nat (length ?recs), r2)" "log_write_offset r2 = 32"
    using s(3) [unfolded w Let_def e if_cancel] by blast
  have "of_nat (length ?recs) = (2 :: u32)" by simp
  with r s(1,2) show ?thesis by metis
qed

end
