(* ===== verification/Log_Flush.thy ===== *)
theory Log_Flush
  imports Log_Recovery
begin

text \<open>
  Draining the rings of \<^verbatim>\<open>log.c\<close>: \<^verbatim>\<open>mini_log_flash_flush\<close> cuts the staged bytes into lines and
  appends one record per line; \<^verbatim>\<open>mini_log_default_output\<close> passes a text through the console ring.
\<close>

subsection \<open>Reading a ring in chunks\<close>

declare length_fifo_uni_bytes [simp del]

lemma ring_read_chunk:
  assumes "uni_byte_inv r" "fifo_uni_bytes r \<noteq> []"
  obtains r' k where "fifo_uni_read_block (Some r) (Some (replicate 128 0)) 128 =
      Some (BUFF_OK, Some r', Some (take (unat k) (fifo_uni_bytes r) @ drop (unat k) (replicate 128 0)), k)"
    "unat k = min 128 (length (fifo_uni_bytes r))" "uni_byte_inv r'"
    "fifo_uni_bytes r' = drop (unat k) (fifo_uni_bytes r)" "uni_size r' = uni_size r"
proof -
  have inv: "fifo_uni_inv r" "uni_isz r = 1" using assms(1) by (simp_all add: uni_byte_inv_def)
  have len: "length (fifo_uni_bytes r) = uni_used r" using inv by (simp add: length_fifo_uni_bytes)
  then have "0 < uni_used r" using assms(2) by (metis gr0I length_0_conv)
  with fifo_uni_read_block_ok [OF inv(1), of 128 "replicate 128 0"] inv(2) len that assms(1)
  show ?thesis by (auto simp: uni_byte_inv_def)
qed

lemma ring_read_empty:
  assumes "uni_byte_inv r" "fifo_uni_bytes r = []"
  shows "fifo_uni_read_block (Some r) (Some (replicate 128 0)) 128 = Some (BUFF_ERR_EMPTY, Some r, Some (replicate 128 0), 0)"
proof -
  have "length (fifo_uni_bytes r) = uni_used r" using assms(1) by (simp add: uni_byte_inv_def length_fifo_uni_bytes)
  then show ?thesis using assms by (intro fifo_uni_read_block_empty) (simp_all add: uni_byte_inv_def)
qed


subsection \<open>One record per line\<close>

text \<open>The lines of a byte sequence behind an unfinished line \<open>acc\<close>: cut after a newline or at 128 bytes.\<close>

fun log_lines :: "u8 list \<Rightarrow> u8 list \<Rightarrow> u8 list list \<times> u8 list" where
  "log_lines acc [] = ([], acc)"
| "log_lines acc (b # bs) =
     (if b = 10 \<or> length acc + 1 = MINI_LOG_MAX_LEN
      then let (ls, rest) = log_lines [] bs in ((acc @ [b]) # ls, rest)
      else log_lines (acc @ [b]) bs)"

lemma log_lines_append:
  "log_lines acc (xs @ ys) = (let (ls, r) = log_lines acc xs; (ls', r') = log_lines r ys in (ls @ ls', r'))"
  by (induction acc xs rule: log_lines.induct) (auto simp: Let_def split: prod.splits)

lemma log_lines_rest: "length acc < 128 \<Longrightarrow> log_lines acc xs = (ls, r) \<Longrightarrow> length r < 128"
  by (induction acc xs arbitrary: ls r rule: log_lines.induct) (auto simp: Let_def split: if_splits prod.splits)

lemma log_lines_concat: "log_lines acc xs = (ls, r) \<Longrightarrow> concat ls @ r = acc @ xs"
  by (induction acc xs arbitrary: ls r rule: log_lines.induct) (auto simp: Let_def split: if_splits prod.splits)

lemma log_lines_len: "length acc < 128 \<Longrightarrow> log_lines acc xs = (ls, r) \<Longrightarrow> l \<in> set ls \<Longrightarrow> l \<noteq> [] \<and> length l \<le> 128"
  by (induction acc xs arbitrary: ls r rule: log_lines.induct) (auto simp: Let_def split: if_splits prod.splits)

text \<open>The line assembled so far in \<open>line_buf\<close>.\<close>

definition line_inv :: "u8 list \<Rightarrow> 'f mini_log \<Rightarrow> bool" where
  "line_inv acc s \<longleftrightarrow> \<not> log_resync s \<and> length (log_line_buf s) = 128 \<and> log_line_len s = length acc \<and>
     length acc < 128 \<and> take (length acc) (log_line_buf s) = acc"

lemma line_push:
  assumes "line_inv acc s"
  obtains lb where "arr_set (log_line_buf s) (log_line_len s) b = Some lb" "length lb = 128"
    "take (length acc + 1) lb = acc @ [b]"
proof -
  have l: "length acc < length (log_line_buf s)" using assms by (simp add: line_inv_def)
  have "take (length acc + 1) ((log_line_buf s)[length acc := b]) = take (length acc) (log_line_buf s) @ [b]"
    using l by (simp add: take_Suc_conv_app_nth)
  with assms l show ?thesis
    by (intro that [of "(log_line_buf s)[length acc := b]"]) (simp_all add: arr_set_def line_inv_def)
qed

lemma flash_flush_chunk_ok:
  assumes i: "info_ok i" and dev: "flash_device ops mem i"
  shows "log_inv mem i ops recs s \<Longrightarrow> line_inv acc s \<Longrightarrow> log_lines acc bs = (ls, rest) \<Longrightarrow>
    list_all (rec_ok i) (map (Pair t) ls) \<Longrightarrow>
    length (flashlog i (recs @ map (Pair t) ls)) \<le> fi_total_size i \<Longrightarrow>
    \<exists>s'. flash_flush_chunk (\<lambda>_. t) MINI_LOG_OK bs s = Some (False, MINI_LOG_OK, s') \<and>
      log_inv mem i ops (recs @ map (Pair t) ls) s' \<and> line_inv rest s' \<and> log_flash_ring s' = log_flash_ring s"
proof (induction bs arbitrary: recs s acc ls)
  case Nil
  then show ?case by auto
next
  case (Cons b bs)
  let ?s1 = "\<lambda>lb. s\<lparr>log_line_buf := lb, log_line_len := length acc + 1\<rparr>"
  obtain lb where lb: "arr_set (log_line_buf s) (log_line_len s) b = Some lb" "length lb = 128"
    "take (length acc + 1) lb = acc @ [b]"
    by (rule line_push [OF Cons.prems(2)])
  have st: "\<not> log_resync s" "log_line_len s = length acc" "length acc < 128"
    using Cons.prems(2) by (simp_all add: line_inv_def)
  have inv1: "log_inv mem i ops recs (?s1 lb)" using Cons.prems(1) by (simp add: log_inv_def)
  show ?case
  proof (cases "b = 10 \<or> length acc + 1 = 128")
    case False
    have "line_inv (acc @ [b]) (?s1 lb)" using lb(2,3) st False by (simp add: line_inv_def)
    from Cons.IH [OF inv1 this] Cons.prems(3-5) False lb(1) st show ?thesis by auto
  next
    case True
    obtain ls1 where ls: "ls = (acc @ [b]) # ls1" "log_lines [] bs = (ls1, rest)"
      using Cons.prems(3) True by (auto split: prod.splits if_splits)
    have ok: "rec_ok i (t, take (length acc + 1) lb)" using Cons.prems(4) ls(1) lb(3) by simp
    have li: "length (rec_image i (t, acc @ [b])) = log_write_len i (length acc + 1)"
      using length_rec_image [OF i ok] by (simp only: lb(3) snd_conv length_append) simp
    have fits: "length (flashlog i recs) + log_write_len i (length acc + 1) \<le> fi_total_size i"
      using Cons.prems(5) ls(1) li by (simp add: flashlog_def)
    obtain s2 where s2: "mini_log_flash_write_record (?s1 lb) t (Some lb) (length acc + 1) = Some (MINI_LOG_OK, s2)"
      "log_inv mem i ops (recs @ [(t, acc @ [b])]) s2" "log_line_buf s2 = lb" "\<not> log_resync s2"
      "log_flash_ring s2 = log_flash_ring s"
      using write_record_ok [OF i dev inv1 ok _ fits] lb(2,3) st by auto
    let ?s3 = "s2\<lparr>log_line_len := 0\<rparr>"
    have "log_inv mem i ops (recs @ [(t, acc @ [b])]) ?s3" using s2(2) by (simp add: log_inv_def)
    moreover have "line_inv [] ?s3" using s2(3,4) lb(2) by (simp add: line_inv_def)
    ultimately obtain s' where "flash_flush_chunk (\<lambda>_. t) MINI_LOG_OK bs ?s3 = Some (False, MINI_LOG_OK, s')"
      "log_inv mem i ops (recs @ map (Pair t) ls) s'" "line_inv rest s'" "log_flash_ring s' = log_flash_ring s"
      using Cons.IH [of "recs @ [(t, acc @ [b])]" ?s3 "[]" ls1] Cons.prems(4,5) ls s2(5) by auto
    with True lb(1) st s2(1) show ?thesis by auto
  qed
qed

lemma flash_flush_loop_ok:
  assumes i: "info_ok i" and dev: "flash_device ops mem i"
  shows "log_inv mem i ops recs s \<Longrightarrow> line_inv acc s \<Longrightarrow> uni_byte_inv (log_flash_ring s) \<Longrightarrow>
    log_lines acc (fifo_uni_bytes (log_flash_ring s)) = (ls, rest) \<Longrightarrow> list_all (rec_ok i) (map (Pair t) ls) \<Longrightarrow>
    length (flashlog i (recs @ map (Pair t) ls)) \<le> fi_total_size i \<Longrightarrow>
    length (fifo_uni_bytes (log_flash_ring s)) < n \<Longrightarrow>
    \<exists>s'. flash_flush_loop n (\<lambda>_. t) MINI_LOG_OK s = Some (MINI_LOG_OK, s') \<and>
      log_inv mem i ops (recs @ map (Pair t) ls) s' \<and> line_inv rest s' \<and> fifo_uni_bytes (log_flash_ring s') = []"
proof (induction n arbitrary: recs s acc ls)
  case (Suc n)
  let ?q = "fifo_uni_bytes (log_flash_ring s)"
  show ?case
  proof (cases "?q = []")
    case True
    then show ?thesis using Suc.prems ring_read_empty [OF Suc.prems(3) True] by (auto simp: log_inv_def line_inv_def)
  next
    case False
    obtain r' k where rd: "fifo_uni_read_block (Some (log_flash_ring s)) (Some (replicate 128 0)) 128 =
        Some (BUFF_OK, Some r', Some (take (unat k) ?q @ drop (unat k) (replicate 128 0)), k)"
      "unat k = min 128 (length ?q)" "uni_byte_inv r'" "fifo_uni_bytes r' = drop (unat k) ?q"
      by (rule ring_read_chunk [OF Suc.prems(3) False])
    let ?s1 = "s\<lparr>log_flash_ring := r'\<rparr>" and ?c = "take (unat k) ?q"
    have k: "k \<noteq> 0" "take (unat k) (take (unat k) ?q @ drop (unat k) (replicate 128 0)) = ?c"
      "length (drop (unat k) ?q) < n"
      using rd(2) False Suc.prems(7) length_greater_0_conv [of ?q] by (auto simp: min_def simp del: length_greater_0_conv split: if_splits)
    obtain ls1 r1 ls2 where ls: "log_lines acc ?c = (ls1, r1)" "log_lines r1 (drop (unat k) ?q) = (ls2, rest)" "ls = ls1 @ ls2"
      using Suc.prems(4) log_lines_append [of acc ?c "drop (unat k) ?q"] by (auto simp: Let_def split: prod.splits)
    have "log_inv mem i ops recs ?s1" "line_inv acc ?s1" using Suc.prems(1,2) by (simp_all add: log_inv_def line_inv_def)
    then obtain s2 where s2: "flash_flush_chunk (\<lambda>_. t) MINI_LOG_OK ?c ?s1 = Some (False, MINI_LOG_OK, s2)"
      "log_inv mem i ops (recs @ map (Pair t) ls1) s2" "line_inv r1 s2" "log_flash_ring s2 = r'"
      using flash_flush_chunk_ok [OF i dev, of recs ?s1 acc ?c ls1 r1 t] ls(1,3) Suc.prems(5,6) by (auto simp: flashlog_def)
    from Suc.IH [OF s2(2,3), of ls2] s2(4) rd(3,4) ls(2,3) Suc.prems(5,6) k(3)
    obtain s' where "flash_flush_loop n (\<lambda>_. t) MINI_LOG_OK s2 = Some (MINI_LOG_OK, s')"
      "log_inv mem i ops (recs @ map (Pair t) ls) s'" "line_inv rest s'" "fifo_uni_bytes (log_flash_ring s') = []" by auto
    with rd(1) k(1,2) s2(1) show ?thesis by simp
  qed
qed simp

text \<open>
  C30. Flushing the staging ring on a working device with room appends one record per line of the staged bytes
  (a line ends at a newline or at 128 bytes), in order, empties the ring and keeps the unfinished line for the
  next flush.
\<close>

theorem mini_log_flash_flush_records:
  assumes "info_ok i" "flash_device ops mem i" "log_inv mem i ops recs s" "line_inv acc s"
    and "uni_byte_inv (log_flash_ring s)" "log_lines acc (fifo_uni_bytes (log_flash_ring s)) = (ls, rest)"
    and "list_all (rec_ok i) (map (Pair t) ls)" "length (flashlog i (recs @ map (Pair t) ls)) \<le> fi_total_size i"
  shows "\<exists>s'. mini_log_flash_flush s (\<lambda>_. t) = Some (MINI_LOG_OK, s') \<and>
    log_inv mem i ops (recs @ map (Pair t) ls) s' \<and> line_inv rest s' \<and> fifo_uni_bytes (log_flash_ring s') = [] \<and>
    concat ls @ rest = acc @ fifo_uni_bytes (log_flash_ring s)"
proof -
  have "log_is_initialized s" using assms(3) by (simp add: log_inv_def)
  moreover have "length (fifo_uni_bytes (log_flash_ring s)) < Suc (unat (uni_size (log_flash_ring s)))"
    using uf.bounded [OF assms(5)] by simp
  ultimately show ?thesis
    using flash_flush_loop_ok [OF assms] log_lines_concat [OF assms(6)]
    by (simp add: mini_log_flash_flush_def del: flash_flush_loop.simps)
qed

theorem mini_log_flash_flush_records_witness:
  "\<exists>s'. mini_log_flash_flush (ram_log\<lparr>log_is_initialized := True, log_flash_ring :=
        \<lparr>uni_buf = [72, 105, 10, 120, 0, 0, 0, 0], uni_size = 8, uni_item_size = 1, uni_mask = 7, uni_w_ptr = 4, uni_r_ptr = 0\<rparr>\<rparr>)
      (\<lambda>_. 5) = Some (MINI_LOG_OK, s') \<and>
    log_inv ram_mem ram_info ram_ops [(5, [72, 105, 10])] s' \<and> line_inv [120] s'"
proof -
  let ?r = "\<lparr>uni_buf = [72, 105, 10, 120, 0, 0, 0, 0], uni_size = 8, uni_item_size = 1, uni_mask = 7, uni_w_ptr = 4, uni_r_ptr = 0\<rparr>"
  let ?s = "ram_log\<lparr>log_is_initialized := True, log_flash_ring := ?r\<rparr>"
  have b: "fifo_uni_bytes ?r = [72, 105, 10, 120]" by code_simp
  have "uni_byte_inv ?r" by (simp add: uni_byte_inv_def fifo_uni_inv_def pow2_u16_def)
  moreover have "log_inv ram_mem ram_info ram_ops [] ?s"
    by (simp add: log_inv_def flashlog_def ram_log_def cache_ok_def crc_cache_init_def)
  moreover have "line_inv [] ?s" by (simp add: line_inv_def ram_log_def)
  moreover have "log_lines [] (fifo_uni_bytes ?r) = ([[72, 105, 10]], [120])" by (simp add: b)
  moreover have ok: "list_all (rec_ok ram_info) (map (Pair (5 :: u32)) [[72, 105, 10]])"
    using ram_write_len by (simp add: rec_ok_def)
  moreover have "length (flashlog ram_info ([] @ map (Pair (5 :: u32)) [[72, 105, 10]])) \<le> fi_total_size ram_info"
    using ok ram_write_len by (simp add: flashlog_def length_rec_image [OF ram_info_ok]) (simp add: ram_info_def)
  ultimately show ?thesis
    using mini_log_flash_flush_records [OF ram_info_ok ram_device, of "[]" ?s "[]" "[[72, 105, 10]]" "[120]" 5] by auto
qed

subsection \<open>A device that cannot be opened\<close>

definition dead_device :: "'f flash_ops \<Rightarrow> bool" where
  "dead_device ops \<longleftrightarrow> (\<exists>op. fo_open ops = Some op \<and> (\<forall>v a b c. fst (op v a b c) \<noteq> 0 \<and> snd (op v a b c) = v)) \<and>
     fo_close ops \<noteq> None \<and> fo_erase ops \<noteq> None \<and> fo_write ops \<noteq> None"

definition dead_log :: "flash_info \<Rightarrow> 'f mini_log \<Rightarrow> bool" where
  "dead_log i s \<longleftrightarrow> log_is_initialized s \<and> log_info s = i \<and> dead_device (log_ops s) \<and> cache_ok (log_crc s)"

lemma write_record_dead:
  assumes i: "info_ok i" and s: "dead_log i s" and r: "rec_ok i (t, take len d)" "len \<le> length d"
    and fits: "log_write_len i len \<le> fi_total_size i"
  obtains s' where "mini_log_flash_write_record s t (Some d) len = Some (MINI_LOG_ERR_FLASH_OPEN, s')"
    "log_dev s' = log_dev s" "log_flash_ring s' = log_flash_ring s"
proof -
  let ?p = "take len d" and ?h = "\<lparr>fh_magic = MINI_LOG_MAGIC, fh_len = of_nat len, fh_tick = t, fh_crc = 0\<rparr>"
  have lp: "length ?p = len" using r(2) by simp
  have rl: "?p \<noteq> []" "len < 2 ^ 30" "log_write_len i len \<le> 512" using r(1) [unfolded rec_ok_def snd_conv lp] by blast+
  then have l: "len \<noteq> 0" "log_write_len i len \<le> 512" "10 + len \<le> 512" "length ?p = len"
    using log_write_len_bounds(1) [OF i rl(2)] lp by auto
  obtain c crc where c: "frame_crc (log_crc s) (take 8 (frame_bytes ?h)) ?p = Some (crc, c)"
    using s by (auto simp: dead_log_def intro: frame_crc_eq)
  obtain buf where buf: "log_frame_image (frame_bytes (?h\<lparr>fh_crc := crc\<rparr>)) ?p = Some buf"
    using log_frame_image_eq [of "frame_bytes (?h\<lparr>fh_crc := crc\<rparr>)" ?p] l by simp
  define off where "off = (if fi_total_size i < sz_add (log_write_offset s) (log_write_len i len) then 0 else log_write_offset s)"
  obtain op cl er wr where ops: "fo_open (log_ops s) = Some op" "fo_close (log_ops s) = Some cl" "fo_erase (log_ops s) = Some er"
    "fo_write (log_ops s) = Some wr" "\<forall>v a b c. fst (op v a b c) \<noteq> 0 \<and> snd (op v a b c) = v"
    using s by (auto simp: dead_log_def dead_device_def)
  have "log_append_dev (log_ops s) i off x (log_dev s) = Some (MINI_LOG_ERR_FLASH_OPEN, log_dev s)" for x
    using ops by (simp add: log_append_dev_def Let_def split_beta)
  then show ?thesis using s l r(2) c buf fits
    by (intro that [of "s\<lparr>log_write_offset := off, log_crc := c, log_frame_buf := buf\<rparr>"])
      (simp_all add: mini_log_flash_write_record_def dead_log_def Let_def mem_read_def off_def)
qed

lemma flash_flush_chunk_dead:
  assumes i: "info_ok i"
  shows "dead_log i s \<Longrightarrow> line_inv acc s \<Longrightarrow> log_lines acc bs = (l # ls, rest) \<Longrightarrow> rec_ok i (t, l) \<Longrightarrow>
    log_write_len i (length l) \<le> fi_total_size i \<Longrightarrow>
    \<exists>s'. flash_flush_chunk (\<lambda>_. t) MINI_LOG_OK bs s = Some (True, MINI_LOG_ERR_FLASH_OPEN, s') \<and>
      log_dev s' = log_dev s \<and> log_resync s' \<and> log_line_len s' = 0 \<and> log_flash_ring s' = log_flash_ring s"
proof (induction bs arbitrary: s acc)
  case (Cons b bs)
  let ?s1 = "\<lambda>lb. s\<lparr>log_line_buf := lb, log_line_len := length acc + 1\<rparr>"
  obtain lb where lb: "arr_set (log_line_buf s) (log_line_len s) b = Some lb" "length lb = 128"
    "take (length acc + 1) lb = acc @ [b]"
    by (rule line_push [OF Cons.prems(2)])
  have st: "\<not> log_resync s" "log_line_len s = length acc" "length acc < 128"
    using Cons.prems(2) by (simp_all add: line_inv_def)
  have d1: "dead_log i (?s1 lb)" using Cons.prems(1) by (simp add: dead_log_def)
  show ?case
  proof (cases "b = 10 \<or> length acc + 1 = 128")
    case False
    have "line_inv (acc @ [b]) (?s1 lb)" using lb(2,3) st False by (simp add: line_inv_def)
    from Cons.IH [OF d1 this] Cons.prems(3-5) False lb(1) st show ?thesis by auto
  next
    case True
    then have l: "l = acc @ [b]" using Cons.prems(3) by (auto split: prod.splits if_splits)
    then have ok: "rec_ok i (t, take (length acc + 1) lb)" "log_write_len i (length acc + 1) \<le> fi_total_size i"
      using Cons.prems(4,5) lb(3) by simp_all
    obtain s2 where "mini_log_flash_write_record (?s1 lb) t (Some lb) (length acc + 1) = Some (MINI_LOG_ERR_FLASH_OPEN, s2)"
      "log_dev s2 = log_dev (?s1 lb)" "log_flash_ring s2 = log_flash_ring (?s1 lb)"
      by (rule write_record_dead [OF i d1 ok(1) _ ok(2)]) (use lb(2) st(3) in simp_all)
    with True lb(1) st show ?thesis by auto
  qed
qed simp

text \<open>A line that is complete in the first \<open>n\<close> bytes is the first line of all bytes.\<close>

lemma log_lines_first:
  assumes "log_lines acc xs = (l # ls, rest)" "length acc < 128" "128 \<le> n"
  obtains ls' rest' where "log_lines acc (take n xs) = (l # ls', rest')"
proof -
  have "\<exists>ls' rest'. log_lines acc (take n xs) = (l # ls', rest')"
    if "log_lines acc xs = (l # ls, rest)" "length acc < 128" "128 \<le> length acc + n" for acc xs n
    using that
  proof (induction xs arbitrary: acc n)
    case (Cons b xs)
    then obtain m where n: "n = Suc m" by (cases n) auto
    show ?case
    proof (cases "b = 10 \<or> length acc + 1 = 128")
      case True
      with Cons.prems n show ?thesis by (auto split: prod.splits)
    next
      case False
      with Cons.IH [of "acc @ [b]" m] Cons.prems n show ?thesis by simp
    qed
  qed simp
  from this [OF assms(1,2), of n] assms(3) that show ?thesis by auto
qed

text \<open>
  C35. When the device cannot be opened, a flush with a complete line reports the error, writes nothing, and drops
  up to 128 staged bytes with the line: the lines behind it in that chunk are lost, although the interface
  promises that the remaining data stays in the staging ring; the next flush also skips to the following newline.
\<close>

theorem mini_log_flash_flush_open_error:
  assumes "info_ok i" "dead_log i s" "line_inv acc s" "uni_byte_inv (log_flash_ring s)"
    and "log_lines acc (fifo_uni_bytes (log_flash_ring s)) = (l # ls, rest)"
    and "rec_ok i (t, l)" "log_write_len i (length l) \<le> fi_total_size i"
  shows "\<exists>s'. mini_log_flash_flush s (\<lambda>_. t) = Some (MINI_LOG_ERR_FLASH_OPEN, s') \<and> log_dev s' = log_dev s \<and>
    fifo_uni_bytes (log_flash_ring s') = drop 128 (fifo_uni_bytes (log_flash_ring s)) \<and> log_resync s' \<and> log_line_len s' = 0"
proof -
  let ?q = "fifo_uni_bytes (log_flash_ring s)"
  have ne: "?q \<noteq> []" using assms(5) by auto
  obtain r' k where rd: "fifo_uni_read_block (Some (log_flash_ring s)) (Some (replicate 128 0)) 128 =
      Some (BUFF_OK, Some r', Some (take (unat k) ?q @ drop (unat k) (replicate 128 0)), k)"
    "unat k = min 128 (length ?q)" "uni_byte_inv r'" "fifo_uni_bytes r' = drop (unat k) ?q"
    by (rule ring_read_chunk [OF assms(4) ne])
  have k: "k \<noteq> 0" "take (unat k) (take (unat k) ?q @ drop (unat k) (replicate 128 0)) = take 128 ?q" "drop (unat k) ?q = drop 128 ?q"
    using rd(2) ne by (auto simp: min_def split: if_splits)
  have acc: "length acc < 128" using assms(3) by (simp add: line_inv_def)
  obtain ls' rest' where l: "log_lines acc (take 128 ?q) = (l # ls', rest')"
    by (rule log_lines_first [OF assms(5) acc order_refl])
  have "dead_log i (s\<lparr>log_flash_ring := r'\<rparr>)" "line_inv acc (s\<lparr>log_flash_ring := r'\<rparr>)"
    using assms(2,3) by (simp_all add: dead_log_def line_inv_def)
  from flash_flush_chunk_dead [OF assms(1) this l assms(6,7)] rd(1,4) k assms(2) show ?thesis
    by (auto simp: mini_log_flash_flush_def dead_log_def)
qed

theorem mini_log_flash_flush_open_error_witness:
  "\<exists>s'. mini_log_flash_flush (ram_log\<lparr>log_is_initialized := True, log_ops := ram_ops\<lparr>fo_open := Some (\<lambda>v _ _ _. (-1, v))\<rparr>,
        log_flash_ring := \<lparr>uni_buf = [97, 98, 10, 99, 100, 10, 0, 0], uni_size = 8, uni_item_size = 1, uni_mask = 7,
          uni_w_ptr = 6, uni_r_ptr = 0\<rparr>\<rparr>) (\<lambda>_. 5) = Some (MINI_LOG_ERR_FLASH_OPEN, s') \<and>
    fifo_uni_bytes (log_flash_ring s') = [] \<and> log_resync s'"
proof -
  let ?r = "\<lparr>uni_buf = [97, 98, 10, 99, 100, 10, 0, 0], uni_size = 8, uni_item_size = 1, uni_mask = 7, uni_w_ptr = 6, uni_r_ptr = 0\<rparr>"
  let ?s = "ram_log\<lparr>log_is_initialized := True, log_ops := ram_ops\<lparr>fo_open := Some (\<lambda>v _ _ _. (-1, v))\<rparr>, log_flash_ring := ?r\<rparr>"
  have b: "fifo_uni_bytes ?r = [97, 98, 10, 99, 100, 10]" by code_simp
  have "uni_byte_inv ?r" by (simp add: uni_byte_inv_def fifo_uni_inv_def pow2_u16_def)
  moreover have "dead_log ram_info ?s"
    by (simp add: dead_log_def dead_device_def ram_log_def ram_ops_def cache_ok_def crc_cache_init_def)
  moreover have "line_inv [] ?s" by (simp add: line_inv_def ram_log_def)
  moreover have "log_lines [] (fifo_uni_bytes ?r) = ([97, 98, 10] # [[99, 100, 10]], [])" by (simp add: b)
  moreover have "rec_ok ram_info (5, [97, 98, 10])" using ram_write_len by (simp add: rec_ok_def)
  moreover have "log_write_len ram_info (length [97, 98, 10 :: u8]) \<le> fi_total_size ram_info"
    using ram_write_len by (simp add: ram_info_def)
  ultimately show ?thesis
    using mini_log_flash_flush_open_error [OF ram_info_ok, of ?s "[]" "[97, 98, 10]" "[[99, 100, 10]]" "[]" 5] b by auto
qed

subsection \<open>The console\<close>

lemma log_enqueue_ok:
  assumes inv: "uni_byte_inv r" "fifo_uni_bytes r = []" and sz: "uni_size r = MINI_LOG_RING_SIZE"
    and len: "msg \<noteq> []" "length msg \<le> 127"
  obtains r' where "log_enqueue MINI_LOG_RING_SIZE r msg = Some (True, r')" "uni_byte_inv r'" "fifo_uni_bytes r' = msg"
    "uni_size r' = uni_size r"
proof -
  have i: "fifo_uni_inv r" "uni_isz r = 1" using inv(1) by (simp_all add: uni_byte_inv_def)
  have u: "uni_used r = 0" using inv length_fifo_uni_bytes [of r] i(2) by simp
  have l: "unat (of_nat (length msg) :: u16) = length msg" using len(2) by (simp add: unat_of_nat_u16)
  then have nz: "(of_nat (length msg) :: u16) \<noteq> 0" using len(1) by (metis length_0_conv unat_0)
  obtain h' k where w: "fifo_uni_write_block (Some r) (Some msg) (of_nat (length msg)) = Some (BUFF_OK, Some h', k)"
    "unat k = min (unat (of_nat (length msg) :: u16)) (uni_cap r - uni_used r)" "fifo_uni_inv h'" "uni_size h' = uni_size r"
    "uni_item_size h' = uni_item_size r" "fifo_uni_bytes h' = fifo_uni_bytes r @ take (unat k * uni_isz r) msg"
    by (rule fifo_uni_write_block_ok [OF i(1) nz, of msg]) (use l i(2) u sz in simp_all)
  have k: "unat k = length msg" using w(2) u sz len(2) l by (simp add: min_def)
  have "\<not> MINI_LOG_RING_SIZE - (uni_w_ptr r - uni_r_ptr r) < of_nat (length msg)"
    using u len(2) l by (simp add: unat_eq_zero word_less_nat_alt)
  then show ?thesis using w k inv i(2) by (intro that [of h']) (simp_all add: log_enqueue_def fifo_uni_get_count_def uni_byte_inv_def)
qed

lemma log_flush_loop_ok:
  "uni_byte_inv (log_ring s) \<Longrightarrow> length (fifo_uni_bytes (log_ring s)) < n \<Longrightarrow>
   \<exists>s'. log_flush_loop n s = Some s' \<and> log_console s' = log_console s @ fifo_uni_bytes (log_ring s) \<and>
     uni_byte_inv (log_ring s') \<and> fifo_uni_bytes (log_ring s') = [] \<and> uni_size (log_ring s') = uni_size (log_ring s)"
proof (induction n arbitrary: s)
  case (Suc n)
  let ?q = "fifo_uni_bytes (log_ring s)"
  show ?case
  proof (cases "?q = []")
    case True
    then show ?thesis using Suc.prems ring_read_empty [OF Suc.prems(1) True] by auto
  next
    case False
    obtain r' k where rd: "fifo_uni_read_block (Some (log_ring s)) (Some (replicate 128 0)) 128 =
        Some (BUFF_OK, Some r', Some (take (unat k) ?q @ drop (unat k) (replicate 128 0)), k)"
      "unat k = min 128 (length ?q)" "uni_byte_inv r'" "fifo_uni_bytes r' = drop (unat k) ?q" "uni_size r' = uni_size (log_ring s)"
      by (rule ring_read_chunk [OF Suc.prems(1) False])
    have k: "k \<noteq> 0" "take (unat k) (take (unat k) ?q @ drop (unat k) (replicate 128 0)) = take (unat k) ?q"
      "length (drop (unat k) ?q) < n"
      using rd(2) False Suc.prems(2) length_greater_0_conv [of ?q] by (auto simp: min_def simp del: length_greater_0_conv split: if_splits)
    from Suc.IH [of "s\<lparr>log_ring := r', log_console := log_console s @ take (unat k) ?q\<rparr>"] rd k show ?thesis by simp
  qed
qed simp

fun log_outputs :: "'f mini_log \<Rightarrow> u8 list list \<Rightarrow> 'f mini_log option" where
  "log_outputs s [] = Some s"
| "log_outputs s (t # ts) = do { s' \<leftarrow> mini_log_default_output s t; log_outputs s' ts }"

lemma default_output_ok:
  assumes inv: "uni_byte_inv (log_ring s)" "fifo_uni_bytes (log_ring s) = []" "uni_size (log_ring s) = MINI_LOG_RING_SIZE"
  shows "\<exists>s'. mini_log_default_output s t = Some s' \<and> log_console s' = log_console s @ log_format t \<and>
    uni_byte_inv (log_ring s') \<and> fifo_uni_bytes (log_ring s') = [] \<and> uni_size (log_ring s') = MINI_LOG_RING_SIZE"
proof (cases "t = []")
  case True
  with inv show ?thesis by (simp add: mini_log_default_output_def log_format_def)
next
  case False
  then have "log_format t \<noteq> []" "length (log_format t) \<le> 127" by (auto simp: log_format_def)
  then obtain r' where r: "log_enqueue MINI_LOG_RING_SIZE (log_ring s) (log_format t) = Some (True, r')" "uni_byte_inv r'"
    "fifo_uni_bytes r' = log_format t" "uni_size r' = uni_size (log_ring s)"
    by (rule log_enqueue_ok [OF inv])
  have "length (log_format t) < Suc (unat (uni_size r'))" using uf.bounded [OF r(2)] r(3) by simp
  then show ?thesis using False r inv(3) log_flush_loop_ok [of "s\<lparr>log_ring := r'\<rparr>"]
    by (simp add: mini_log_default_output_def mini_log_flush_def del: log_flush_loop.simps)
qed

text \<open>
  C36. Printing a sequence of texts through the console ring never drops a text: each call returns, the ring is
  drained again, and the console receives the texts in order, each cut to 127 bytes.
\<close>

theorem mini_log_default_output_console:
  assumes "uni_byte_inv (log_ring s)" "fifo_uni_bytes (log_ring s) = []" "uni_size (log_ring s) = MINI_LOG_RING_SIZE"
  shows "\<exists>s'. log_outputs s ts = Some s' \<and> log_console s' = log_console s @ concat (map log_format ts) \<and>
    fifo_uni_bytes (log_ring s') = []"
  using assms
proof (induction ts arbitrary: s)
  case (Cons t ts)
  from default_output_ok [OF Cons.prems, of t] obtain s1 where s1: "mini_log_default_output s t = Some s1"
    "log_console s1 = log_console s @ log_format t" "uni_byte_inv (log_ring s1)" "fifo_uni_bytes (log_ring s1) = []"
    "uni_size (log_ring s1) = MINI_LOG_RING_SIZE" by auto
  with Cons.IH [OF s1(3-5)] show ?case by auto
qed simp

lemma ram_ring_ok: "pow2_u16 n \<Longrightarrow> uni_byte_inv (ram_ring n) \<and> fifo_uni_bytes (ram_ring n) = []"
  by (auto simp: uni_byte_inv_def ram_ring_def fifo_uni_inv_def fifo_uni_bytes_def pow2_u16_def)

theorem mini_log_default_output_console_witness:
  "\<exists>s'. log_outputs ram_log [[104, 105], [], [10]] = Some s' \<and> log_console s' = [104, 105, 10]"
proof -
  have "pow2_u16 1024" by (simp add: pow2_u16_def)
  with ram_ring_ok [of 1024] mini_log_default_output_console [of ram_log "[[104, 105], [], [10]]"]
  show ?thesis by (auto simp: ram_log_def ram_ring_def log_format_def)
qed

end
