(* ===== verification/Status.thy ===== *)
theory Status
  imports MT_Prelude
begin

text \<open>
  \<^verbatim>\<open>core/include/status.h\<close> and \<^verbatim>\<open>core/src/status.c\<close>: the error codes of the stack, the sectors their
  magnitudes fall into, and the coding of an error in a pointer above the linker symbol
  \<^verbatim>\<open>ERR_SECTION_BASE\<close>, which is an argument here.
\<close>

definition MINI_OK :: int where "MINI_OK = 0"
definition MINI_ERR_INVAL :: int where "MINI_ERR_INVAL = - 1"
definition MINI_ERR_ISR :: int where "MINI_ERR_ISR = - 2"
definition MINI_ERR_NOMEM :: int where "MINI_ERR_NOMEM = - 3"
definition MINI_ERR_IO :: int where "MINI_ERR_IO = - 4"
definition MINI_ERR_BUSY :: int where "MINI_ERR_BUSY = - 5"
definition MINI_ERR_AGAIN :: int where "MINI_ERR_AGAIN = - 6"
definition MINI_ERR_NOSPC :: int where "MINI_ERR_NOSPC = - 7"
definition MINI_ERR_TIMEOUT :: int where "MINI_ERR_TIMEOUT = - 8"
definition MINI_ERR_HW_FATAL :: int where "MINI_ERR_HW_FATAL = - 9"
definition MINI_ERR_DEFER :: int where "MINI_ERR_DEFER = - 10"
definition MINI_ERR_NODEV :: int where "MINI_ERR_NODEV = - 11"
definition MINI_ERR_NOTSUPP :: int where "MINI_ERR_NOTSUPP = - 12"
definition MINI_ERR_STATE :: int where "MINI_ERR_STATE = - 13"
definition MINI_ERR_RANGE :: int where "MINI_ERR_RANGE = - 14"
definition MINI_ERR_NOENT :: int where "MINI_ERR_NOENT = - 15"
definition MINI_ERR_EXIST :: int where "MINI_ERR_EXIST = - 16"
definition MINI_ERR_NOTINIT :: int where "MINI_ERR_NOTINIT = - 17"
definition MINI_ERR_NODATA :: int where "MINI_ERR_NODATA = - 18"
definition MINI_ERR_CORRUPT :: int where "MINI_ERR_CORRUPT = - 19"
definition MINI_ERR_CRC :: int where "MINI_ERR_CRC = - 20"
definition MINI_ERR_PARITY :: int where "MINI_ERR_PARITY = - 21"
definition MINI_ERR_OVERFLOW :: int where "MINI_ERR_OVERFLOW = - 22"
definition MINI_ERR_NOTREADY :: int where "MINI_ERR_NOTREADY = - 23"
definition MINI_ERR_CANCELED :: int where "MINI_ERR_CANCELED = - 24"
definition MINI_ERR_PERM :: int where "MINI_ERR_PERM = - 25"
definition MINI_ERR_PROTO :: int where "MINI_ERR_PROTO = - 26"
definition MINI_ERR_AUTH :: int where "MINI_ERR_AUTH = - 27"

lemmas mini_codes [simp] = MINI_OK_def MINI_ERR_INVAL_def MINI_ERR_ISR_def MINI_ERR_NOMEM_def MINI_ERR_IO_def MINI_ERR_BUSY_def MINI_ERR_AGAIN_def
   MINI_ERR_NOSPC_def MINI_ERR_TIMEOUT_def MINI_ERR_HW_FATAL_def MINI_ERR_DEFER_def MINI_ERR_NODEV_def
   MINI_ERR_NOTSUPP_def MINI_ERR_STATE_def MINI_ERR_RANGE_def MINI_ERR_NOENT_def MINI_ERR_EXIST_def
   MINI_ERR_NOTINIT_def MINI_ERR_NODATA_def MINI_ERR_CORRUPT_def MINI_ERR_CRC_def MINI_ERR_PARITY_def
   MINI_ERR_OVERFLOW_def MINI_ERR_NOTREADY_def MINI_ERR_CANCELED_def MINI_ERR_PERM_def MINI_ERR_PROTO_def
   MINI_ERR_AUTH_def

definition MINI_ERR_TO_STR :: "int \<Rightarrow> string" where
  "MINI_ERR_TO_STR err =
     (if err = MINI_OK then ''MINI_OK''
      else if err = MINI_ERR_INVAL then ''MINI_ERR_INVAL''
      else if err = MINI_ERR_ISR then ''MINI_ERR_ISR''
      else if err = MINI_ERR_NOMEM then ''MINI_ERR_NOMEM''
      else if err = MINI_ERR_IO then ''MINI_ERR_IO''
      else if err = MINI_ERR_BUSY then ''MINI_ERR_BUSY''
      else if err = MINI_ERR_AGAIN then ''MINI_ERR_AGAIN''
      else if err = MINI_ERR_NOSPC then ''MINI_ERR_NOSPC''
      else if err = MINI_ERR_TIMEOUT then ''MINI_ERR_TIMEOUT''
      else if err = MINI_ERR_HW_FATAL then ''MINI_ERR_HW_FATAL''
      else if err = MINI_ERR_DEFER then ''MINI_ERR_DEFER''
      else if err = MINI_ERR_NODEV then ''MINI_ERR_NODEV''
      else if err = MINI_ERR_NOTSUPP then ''MINI_ERR_NOTSUPP''
      else if err = MINI_ERR_STATE then ''MINI_ERR_STATE''
      else if err = MINI_ERR_RANGE then ''MINI_ERR_RANGE''
      else if err = MINI_ERR_NOENT then ''MINI_ERR_NOENT''
      else if err = MINI_ERR_EXIST then ''MINI_ERR_EXIST''
      else if err = MINI_ERR_NOTINIT then ''MINI_ERR_NOTINIT''
      else if err = MINI_ERR_NODATA then ''MINI_ERR_NODATA''
      else if err = MINI_ERR_CORRUPT then ''MINI_ERR_CORRUPT''
      else if err = MINI_ERR_CRC then ''MINI_ERR_CRC''
      else if err = MINI_ERR_PARITY then ''MINI_ERR_PARITY''
      else if err = MINI_ERR_OVERFLOW then ''MINI_ERR_OVERFLOW''
      else if err = MINI_ERR_NOTREADY then ''MINI_ERR_NOTREADY''
      else if err = MINI_ERR_CANCELED then ''MINI_ERR_CANCELED''
      else if err = MINI_ERR_PERM then ''MINI_ERR_PERM''
      else if err = MINI_ERR_PROTO then ''MINI_ERR_PROTO''
      else if err = MINI_ERR_AUTH then ''MINI_ERR_AUTH''
      else ''MINI_ERR_UNKNOWN'')"

definition MINI_ERR_MAX :: u32 where "MINI_ERR_MAX = 511"
definition MINI_ERR_SECTOR_COMMON_LAST :: u32 where "MINI_ERR_SECTOR_COMMON_LAST = 63"
definition MINI_ERR_SECTOR_SUBSYS_FIRST :: u32 where "MINI_ERR_SECTOR_SUBSYS_FIRST = 64"
definition MINI_ERR_SUBSYS_SLOT_SIZE :: u32 where "MINI_ERR_SUBSYS_SLOT_SIZE = 32"
definition MINI_ERR_SUBSYS_SLOT_COUNT :: u32 where "MINI_ERR_SUBSYS_SLOT_COUNT = 14"
definition MINI_ERR_SUBSYS_DRIVER_SLOT :: u32 where "MINI_ERR_SUBSYS_DRIVER_SLOT = 5"

definition MINI_ERR_SUBSYS_SLOT_BASE :: "u32 \<Rightarrow> u32" where
  "MINI_ERR_SUBSYS_SLOT_BASE slot = MINI_ERR_SECTOR_SUBSYS_FIRST + slot * MINI_ERR_SUBSYS_SLOT_SIZE"

definition MINI_ERR_SUBSYS_SLOT_LAST :: "u32 \<Rightarrow> u32" where
  "MINI_ERR_SUBSYS_SLOT_LAST slot = MINI_ERR_SUBSYS_SLOT_BASE slot + MINI_ERR_SUBSYS_SLOT_SIZE - 1"

lemmas status_consts [simp] = MINI_ERR_MAX_def MINI_ERR_SECTOR_COMMON_LAST_def MINI_ERR_SECTOR_SUBSYS_FIRST_def
  MINI_ERR_SUBSYS_SLOT_SIZE_def MINI_ERR_SUBSYS_SLOT_COUNT_def MINI_ERR_SUBSYS_DRIVER_SLOT_def
  MINI_ERR_SUBSYS_SLOT_BASE_def MINI_ERR_SUBSYS_SLOT_LAST_def

definition MINI_ERR_MAGNITUDE :: "int \<Rightarrow> u32" where
  "MINI_ERR_MAGNITUDE err = 0 - of_int err"

datatype mt_err_sector = MINI_ERR_SECTOR_INVALID | MINI_ERR_SECTOR_COMMON | MINI_ERR_SECTOR_SUBSYS | MINI_ERR_SECTOR_DRIVER

definition MINI_ERR_SECTOR_OF :: "int \<Rightarrow> mt_err_sector" where
  "MINI_ERR_SECTOR_OF err =
     (if 0 \<le> err then MINI_ERR_SECTOR_INVALID
      else
        let mag = MINI_ERR_MAGNITUDE err in
        if MINI_ERR_MAX < mag then MINI_ERR_SECTOR_INVALID
        else if mag \<le> MINI_ERR_SECTOR_COMMON_LAST then MINI_ERR_SECTOR_COMMON
        else if MINI_ERR_SUBSYS_SLOT_BASE MINI_ERR_SUBSYS_DRIVER_SLOT \<le> mag \<and>
                mag \<le> MINI_ERR_SUBSYS_SLOT_LAST MINI_ERR_SUBSYS_DRIVER_SLOT then MINI_ERR_SECTOR_DRIVER
        else MINI_ERR_SECTOR_SUBSYS)"

definition MINI_ERR_IS_COMMON :: "int \<Rightarrow> bool" where
  "MINI_ERR_IS_COMMON err \<longleftrightarrow> MINI_ERR_SECTOR_OF err = MINI_ERR_SECTOR_COMMON"

definition MINI_ERR_IS_SUBSYS :: "int \<Rightarrow> bool" where
  "MINI_ERR_IS_SUBSYS err \<longleftrightarrow> MINI_ERR_SECTOR_OF err = MINI_ERR_SECTOR_SUBSYS"

definition MINI_ERR_IS_DRIVER :: "int \<Rightarrow> bool" where
  "MINI_ERR_IS_DRIVER err \<longleftrightarrow> MINI_ERR_SECTOR_OF err = MINI_ERR_SECTOR_DRIVER"

definition MINI_ERR_SUBSYS_SLOT_OF :: "int \<Rightarrow> u32" where
  "MINI_ERR_SUBSYS_SLOT_OF err =
     (if 0 \<le> err then MINI_ERR_SUBSYS_SLOT_COUNT
      else
        let mag = MINI_ERR_MAGNITUDE err in
        if mag < MINI_ERR_SECTOR_SUBSYS_FIRST \<or> MINI_ERR_MAX < mag then MINI_ERR_SUBSYS_SLOT_COUNT
        else (mag - MINI_ERR_SECTOR_SUBSYS_FIRST) div MINI_ERR_SUBSYS_SLOT_SIZE)"

definition ERR_PTR :: "uintptr \<Rightarrow> int \<Rightarrow> uintptr" where
  "ERR_PTR base err =
     (let mag = MINI_ERR_MAGNITUDE err;
          mag = (if MINI_ERR_MAX < mag then MINI_ERR_MAGNITUDE MINI_ERR_INVAL else mag)
      in base + ucast mag)"

definition PTR_ERR :: "uintptr \<Rightarrow> uintptr \<Rightarrow> int" where
  "PTR_ERR base p = - sint (ucast (p - base) :: u32)"

definition IS_ERR :: "uintptr \<Rightarrow> uintptr \<Rightarrow> bool" where
  "IS_ERR base p \<longleftrightarrow> base \<le> p"

definition IS_ERR_OR_NULL :: "uintptr \<Rightarrow> uintptr \<Rightarrow> bool" where
  "IS_ERR_OR_NULL base p \<longleftrightarrow> p = 0 \<or> IS_ERR base p"

subsection \<open>Magnitudes\<close>

lemma unat_magnitude:
  assumes "- (2 ^ 31) \<le> err" "err < 2 ^ 31"
  shows "unat (MINI_ERR_MAGNITUDE err) = nat (if err \<le> 0 then - err else 2 ^ 32 - err)"
proof -
  have "unat (MINI_ERR_MAGNITUDE err) = nat ((- err) mod 2 ^ 32)"
    by (simp add: MINI_ERR_MAGNITUDE_def unat_eq_nat_uint uint_word_ariths uint_word_of_int mod_minus_eq)
  also have "(- err) mod 2 ^ 32 = (if err \<le> 0 then - err else 2 ^ 32 - err)"
  proof (cases "err \<le> 0")
    case False
    have "(- err) mod 2 ^ 32 = (2 ^ 32 + - err) mod 2 ^ 32" by (simp only: mod_add_self1)
    also have "\<dots> = 2 ^ 32 + - err" using False assms by (intro mod_pos_pos_trivial) auto
    finally show ?thesis using False by simp
  qed (use assms in \<open>simp add: mod_pos_pos_trivial\<close>)
  finally show ?thesis .
qed


lemma magnitude_le:
  assumes "- (2 ^ 31) \<le> err" "err < 0" "unat n < 2 ^ 31"
  shows "MINI_ERR_MAGNITUDE err \<le> n \<longleftrightarrow> nat (- err) \<le> unat n" "n \<le> MINI_ERR_MAGNITUDE err \<longleftrightarrow> unat n \<le> nat (- err)"
  using unat_magnitude [of err] assms by (auto simp: word_le_nat_alt)

lemma unat_slot_div: "unat ((m - 64) div 32) = (unat m - 64) div 32" if "64 \<le> m" for m :: u32
proof -
  have "unat (m - 64) = unat m - 64" using that by (simp add: unat_sub)
  then show ?thesis by (simp add: unat_div)
qed

text \<open>
  The sectors of negative codes: 1..63 common, 64..511 subsystem except the driver slot 224..255; codes
  outside have no sector; a slot number below 14 is returned exactly for subsystem and driver codes, and 5
  exactly for driver codes.
\<close>

theorem mini_err_sectors:
  assumes "- (2 ^ 31) \<le> err" "err < 2 ^ 31"
  shows "MINI_ERR_SECTOR_OF err =
      (if - 63 \<le> err \<and> err < 0 then MINI_ERR_SECTOR_COMMON
       else if - 255 \<le> err \<and> err \<le> - 224 then MINI_ERR_SECTOR_DRIVER
       else if - 511 \<le> err \<and> err \<le> - 64 then MINI_ERR_SECTOR_SUBSYS else MINI_ERR_SECTOR_INVALID) \<and>
    (MINI_ERR_SUBSYS_SLOT_OF err < MINI_ERR_SUBSYS_SLOT_COUNT \<longleftrightarrow> MINI_ERR_IS_SUBSYS err \<or> MINI_ERR_IS_DRIVER err) \<and>
    (MINI_ERR_SUBSYS_SLOT_OF err = MINI_ERR_SUBSYS_DRIVER_SLOT \<longleftrightarrow> MINI_ERR_IS_DRIVER err)"
proof (cases "0 \<le> err")
  case True
  then show ?thesis
    by (auto simp: MINI_ERR_SECTOR_OF_def MINI_ERR_SUBSYS_SLOT_OF_def MINI_ERR_IS_SUBSYS_def MINI_ERR_IS_DRIVER_def)
next
  case False
  let ?m = "MINI_ERR_MAGNITUDE err"
  have neg: "err < 0" using False by simp
  note le = magnitude_le [OF assms(1) neg]
  have sector: "MINI_ERR_SECTOR_OF err =
      (if - 63 \<le> err \<and> err < 0 then MINI_ERR_SECTOR_COMMON
       else if - 255 \<le> err \<and> err \<le> - 224 then MINI_ERR_SECTOR_DRIVER
       else if - 511 \<le> err \<and> err \<le> - 64 then MINI_ERR_SECTOR_SUBSYS else MINI_ERR_SECTOR_INVALID)"
    using neg by (auto simp: MINI_ERR_SECTOR_OF_def Let_def le not_le [symmetric])
  have slot: "unat (MINI_ERR_SUBSYS_SLOT_OF err) = (if - 511 \<le> err \<and> err \<le> - 64 then (nat (- err) - 64) div 32 else 14)"
  proof (cases "- 511 \<le> err \<and> err \<le> - 64")
    case True
    then have "64 \<le> ?m" by (auto simp: le)
    with True unat_slot_div [OF this] unat_magnitude [OF assms] show ?thesis
      by (auto simp: MINI_ERR_SUBSYS_SLOT_OF_def Let_def le not_le [symmetric])
  next
    case False
    with neg have "\<not> 64 \<le> ?m \<or> \<not> ?m \<le> 511" by (auto simp: le)
    then show ?thesis using False neg by (auto simp: MINI_ERR_SUBSYS_SLOT_OF_def Let_def not_le)
  qed
  have d: "x div 32 = 5 \<longleftrightarrow> 160 \<le> x \<and> x < 192" "x < 448 \<longleftrightarrow> x div 32 < 14" for x :: nat
    using less_eq_div_iff_mult_less_eq [of 32 5 x] div_less_iff_less_mult [of 32 x 6] div_less_iff_less_mult [of 32 x 14] by auto
  have "MINI_ERR_SUBSYS_SLOT_OF err < 14 \<longleftrightarrow> - 511 \<le> err \<and> err \<le> - 64"
    using slot d(2) [of "nat (- err) - 64"] by (auto simp: word_less_nat_alt)
  moreover have "MINI_ERR_SUBSYS_SLOT_OF err = 5 \<longleftrightarrow> - 255 \<le> err \<and> err \<le> - 224"
    using slot d(1) [of "nat (- err) - 64"] word_unat_eq_iff [of "MINI_ERR_SUBSYS_SLOT_OF err" 5] by auto
  ultimately show ?thesis using sector by (auto simp: MINI_ERR_IS_SUBSYS_def MINI_ERR_IS_DRIVER_def)
qed

theorem mini_err_sectors_witness:
  "MINI_ERR_SECTOR_OF (- 230) = MINI_ERR_SECTOR_DRIVER \<and> MINI_ERR_SUBSYS_SLOT_OF (- 230) = 5"
  using mini_err_sectors [of "- 230"] by (simp add: MINI_ERR_IS_DRIVER_def)

text \<open>
  When 511 addresses lie above the error base, coding a code in a pointer and decoding it returns the code,
  \<open>IS_ERR\<close> recognises it, and a code outside -511..0 is replaced by \<open>MINI_ERR_INVAL\<close>.
\<close>

theorem mini_err_ptr_roundtrip:
  assumes "- (2 ^ 31) \<le> err" "err < 2 ^ 31" "unat base + 511 < 2 ^ 32"
  shows "IS_ERR base (ERR_PTR base err) \<and>
    PTR_ERR base (ERR_PTR base err) = (if - 511 \<le> err \<and> err \<le> 0 then err else MINI_ERR_INVAL)"
proof -
  define mag where "mag = (if MINI_ERR_MAX < MINI_ERR_MAGNITUDE err then MINI_ERR_MAGNITUDE MINI_ERR_INVAL else MINI_ERR_MAGNITUDE err)"
  have m: "unat mag = nat (if - 511 \<le> err \<and> err \<le> 0 then - err else 1)"
    using unat_magnitude [OF assms(1,2)] unat_magnitude [of "- 1"] assms(2) by (auto simp: mag_def word_less_nat_alt)
  then have m511: "unat mag \<le> 511" by auto
  have p: "ERR_PTR base err = base + mag" by (simp add: ERR_PTR_def mag_def Let_def)
  have "base \<le> base + mag" using m511 assms(3) by (simp add: word_le_nat_alt unat_word_ariths)
  moreover have "sint mag = int (unat mag)"
  proof -
    have "uint mag \<le> 511" using m511 by (simp only: unat_eq_nat_uint)
    then show ?thesis using signed_take_bit_int_eq_self [of 31 "uint mag"] uint_ge_0 [of mag] by (simp add: sint_uint)
  qed
  ultimately show ?thesis using m by (auto simp: p IS_ERR_def PTR_ERR_def)
qed

theorem mini_err_ptr_roundtrip_witness:
  "PTR_ERR 0x1000 (ERR_PTR 0x1000 MINI_ERR_TIMEOUT) = MINI_ERR_TIMEOUT"
  using mini_err_ptr_roundtrip [of MINI_ERR_TIMEOUT "0x1000"] by simp

end
