(* ===== verification/Config_Store.thy ===== *)
theory Config_Store
  imports Bytes Status
begin

text \<open>
  \<^verbatim>\<open>board/src/config_store.c\<close>: the table of configuration entries, its factory defaults parsed from a JSON
  text, its binary form, and the two storage slots with a checksum and a flag that names the valid one.
  A C string is the list of its bytes before the terminating zero. The storage driver
  (\<^verbatim>\<open>hal_storage.h\<close>) and the float conversion of the C library are arguments.
\<close>

definition MAX_ENTRIES :: nat where "MAX_ENTRIES = 8"
definition BLOB_MAX :: nat where "BLOB_MAX = 4096"
definition FLAG_A_VALID :: u8 where "FLAG_A_VALID = 0xA0"
definition FLAG_B_VALID :: u8 where "FLAG_B_VALID = 0x0B"

lemmas cs_consts [simp] = MAX_ENTRIES_def BLOB_MAX_def FLAG_A_VALID_def FLAG_B_VALID_def

text \<open>The union and its tag as one value; \<open>CS_RAW\<close> is a tag outside the enumeration, read from a blob.\<close>

datatype cs_value = CS_INT u32 | CS_FLOAT u32 | CS_BOOL bool | CS_STRING "u8 list" | CS_RAW u8

record cs_entry =
  ce_key :: "u8 list"
  ce_value :: cs_value
  ce_dirty :: bool

record 'd storage_ops =
  st_init :: "'d \<Rightarrow> int \<times> 'd"
  st_read_flag :: "'d \<Rightarrow> int \<times> u8 option \<times> 'd"
  st_write_flag :: "u8 \<Rightarrow> 'd \<Rightarrow> int \<times> 'd"
  st_read_blob :: "u8 \<Rightarrow> nat \<Rightarrow> 'd \<Rightarrow> int \<times> u8 list \<times> 'd"
  st_write_blob :: "u8 \<Rightarrow> u8 list \<Rightarrow> 'd \<Rightarrow> int \<times> 'd"
  st_erase_all :: "'d \<Rightarrow> int \<times> 'd"

record 'd config_store =
  cs_json :: "u8 list option"
  cs_json_size :: nat
  cs_entries :: "cs_entry list"
  cs_health :: int
  cs_ready :: bool
  cs_hook :: "('d \<Rightarrow> u8 list \<Rightarrow> int \<times> 'd) option"
  cs_dev :: 'd

definition config_store_bind_source :: "'d config_store \<Rightarrow> u8 list option \<Rightarrow> nat \<Rightarrow> 'd config_store" where
  "config_store_bind_source s buffer n = s\<lparr>cs_json := buffer, cs_json_size := n\<rparr>"

definition crc32_table :: "u32 list" where
  "crc32_table = [0x00000000, 0x77073096, 0xEE0E612C, 0x990951BA, 0x076DC419, 0x706AF48F, 0xE963A535, 0x9E6495A3,
      0x0EDB8832, 0x79DCB8A4, 0xE0D5E91E, 0x97D2D988, 0x09B64C2B, 0x7EB17CBD, 0xE7B82D07, 0x90BF1D91,
      0x1DB71064, 0x6AB020F2, 0xF3B97148, 0x84BE41DE, 0x1ADAD47D, 0x6DDDE4EB, 0xF4D4B551, 0x83D385C7,
      0x136C9856, 0x646BA8C0, 0xFD62F97A, 0x8A65C9EC, 0x14015C4F, 0x63066CD9, 0xFA0F3D63, 0x8D080DF5,
      0x3B6E20C8, 0x4C69105E, 0xD56041E4, 0xA2677172, 0x3C03E4D1, 0x4B04D447, 0xD20D85FD, 0xA50AB56B,
      0x35B5A8FA, 0x42B2986C, 0xDBBBC9D6, 0xACBCF940, 0x32D86CE3, 0x45DF5C75, 0xDCD60DCF, 0xABD13D59,
      0x26D930AC, 0x51DE003A, 0xC8D75180, 0xBFD06116, 0x21B4F4B5, 0x56B3C423, 0xCFBA9599, 0xB8BDA50F,
      0x2802B89E, 0x5F058808, 0xC60CD9B2, 0xB10BE924, 0x2F6F7C87, 0x58684C11, 0xC1611DAB, 0xB6662D3D,
      0x76DC4190, 0x01DB7106, 0x98D220BC, 0xEFD5102A, 0x71B18589, 0x06B6B51F, 0x9FBFE4A5, 0xE8B8D433,
      0x7807C9A2, 0x0F00F934, 0x9609A88E, 0xE10E9818, 0x7F6A0DBB, 0x086D3D2D, 0x91646C97, 0xE6635C01,
      0x6B6B51F4, 0x1C6C6162, 0x856530D8, 0xF262004E, 0x6C0695ED, 0x1B01A57B, 0x8208F4C1, 0xF50FC457,
      0x65B0D9C6, 0x12B7E950, 0x8BBEB8EA, 0xFCB9887C, 0x62DD1DDF, 0x15DA2D49, 0x8CD37CF3, 0xFBD44C65,
      0x4DB26158, 0x3AB551CE, 0xA3BC0074, 0xD4BB30E2, 0x4ADFA541, 0x3DD895D7, 0xA4D1C46D, 0xD3D6F4FB,
      0x4369E96A, 0x346ED9FC, 0xAD678846, 0xDA60B8D0, 0x44042D73, 0x33031DE5, 0xAA0A4C5F, 0xDD0D7CC9,
      0x5005713C, 0x270241AA, 0xBE0B1010, 0xC90C2086, 0x5768B525, 0x206F85B3, 0xB966D409, 0xCE61E49F,
      0x5EDEF90E, 0x29D9C998, 0xB0D09822, 0xC7D7A8B4, 0x59B33D17, 0x2EB40D81, 0xB7BD5C3B, 0xC0BA6CAD,
      0xEDB88320, 0x9ABFB3B6, 0x03B6E20C, 0x74B1D29A, 0xEAD54739, 0x9DD277AF, 0x04DB2615, 0x73DC1683,
      0xE3630B12, 0x94643B84, 0x0D6D6A3E, 0x7A6A5AA8, 0xE40ECF0B, 0x9309FF9D, 0x0A00AE27, 0x7D079EB1,
      0xF00F9344, 0x8708A3D2, 0x1E01F268, 0x6906C2FE, 0xF762575D, 0x806567CB, 0x196C3671, 0x6E6B06E7,
      0xFED41B76, 0x89D32BE0, 0x10DA7A5A, 0x67DD4ACC, 0xF9B9DF6F, 0x8EBEEFF9, 0x17B7BE43, 0x60B08ED5,
      0xD6D6A3E8, 0xA1D1937E, 0x38D8C2C4, 0x4FDFF252, 0xD1BB67F1, 0xA6BC5767, 0x3FB506DD, 0x48B2364B,
      0xD80D2BDA, 0xAF0A1B4C, 0x36034AF6, 0x41047A60, 0xDF60EFC3, 0xA867DF55, 0x316E8EEF, 0x4669BE79,
      0xCB61B38C, 0xBC66831A, 0x256FD2A0, 0x5268E236, 0xCC0C7795, 0xBB0B4703, 0x220216B9, 0x5505262F,
      0xC5BA3BBE, 0xB2BD0B28, 0x2BB45A92, 0x5CB36A04, 0xC2D7FFA7, 0xB5D0CF31, 0x2CD99E8B, 0x5BDEAE1D,
      0x9B64C2B0, 0xEC63F226, 0x756AA39C, 0x026D930A, 0x9C0906A9, 0xEB0E363F, 0x72076785, 0x05005713,
      0x95BF4A82, 0xE2B87A14, 0x7BB12BAE, 0x0CB61B38, 0x92D28E9B, 0xE5D5BE0D, 0x7CDCEFB7, 0x0BDBDF21,
      0x86D3D2D4, 0xF1D4E242, 0x68DDB3F8, 0x1FDA836E, 0x81BE16CD, 0xF6B9265B, 0x6FB077E1, 0x18B74777,
      0x88085AE6, 0xFF0F6A70, 0x66063BCA, 0x11010B5C, 0x8F659EFF, 0xF862AE69, 0x616BFFD3, 0x166CCF45,
      0xA00AE278, 0xD70DD2EE, 0x4E048354, 0x3903B3C2, 0xA7672661, 0xD06016F7, 0x4969474D, 0x3E6E77DB,
      0xAED16A4A, 0xD9D65ADC, 0x40DF0B66, 0x37D83BF0, 0xA9BCAE53, 0xDEBB9EC5, 0x47B2CF7F, 0x30B5FFE9,
      0xBDBDF21C, 0xCABAC28A, 0x53B39330, 0x24B4A3A6, 0xBAD03605, 0xCDD70693, 0x54DE5729, 0x23D967BF,
      0xB3667A2E, 0xC4614AB8, 0x5D681B02, 0x2A6F2B94, 0xB40BBE37, 0xC30C8EA1, 0x5A05DF1B, 0x2D02EF8D]"

definition crc32_le :: "u32 \<Rightarrow> u8 list \<Rightarrow> u32" where
  "crc32_le crc buf = foldl (\<lambda>c b. crc32_table ! unat ((c XOR ucast b) AND 0xFF) XOR drop_bit 8 c) crc buf"

subsection \<open>C strings\<close>

definition cstr :: "u8 list \<Rightarrow> u8 list" where
  "cstr b = takeWhile (\<lambda>x. x \<noteq> 0) b"

definition str_chr :: "u8 \<Rightarrow> u8 list \<Rightarrow> nat \<Rightarrow> nat option" where
  "str_chr c js i = (let k = i + length (takeWhile (\<lambda>x. x \<noteq> c) (drop i js)) in if k < length js then Some k else None)"

fun str_str :: "u8 list \<Rightarrow> u8 list \<Rightarrow> u8 list option" where
  "str_str pat [] = (if pat = [] then Some [] else None)"
| "str_str pat (x # xs) = (if take (length pat) (x # xs) = pat then Some (x # xs) else str_str pat xs)"

definition skip_ws :: "u8 list \<Rightarrow> nat \<Rightarrow> nat" where
  "skip_ws js i = i + length (takeWhile (\<lambda>c. c = 32 \<or> c = 9 \<or> c = 10 \<or> c = 13) (drop i js))"

fun dec_digits :: "int \<Rightarrow> u8 list \<Rightarrow> int" where
  "dec_digits acc [] = acc"
| "dec_digits acc (c # cs) = (if 48 \<le> c \<and> c \<le> 57 then dec_digits (10 * acc + int (unat (c - 48))) cs else acc)"

text \<open>\<open>atoi\<close>; a value outside the range of \<open>int\<close> is undefined.\<close>

definition atoi :: "u8 list \<Rightarrow> u32 option" where
  "atoi str =
     (let t = dropWhile (\<lambda>c. c = 32 \<or> 9 \<le> c \<and> c \<le> 13) str;
          v = (case t of c # cs \<Rightarrow> if c = 45 then - dec_digits 0 cs else if c = 43 then dec_digits 0 cs else dec_digits 0 t
               | [] \<Rightarrow> 0)
      in if - (2 ^ 31) \<le> v \<and> v < 2 ^ 31 then Some (of_int v) else None)"

subsection \<open>The table\<close>

definition find_json_value :: "'d config_store \<Rightarrow> u8 list \<Rightarrow> u8 list option" where
  "find_json_value s key =
     (case cs_json s of
        None \<Rightarrow> None
      | Some js \<Rightarrow>
          if 63 < length key + 3 then None
          else case str_str ([34] @ key @ [34, 58]) js of None \<Rightarrow> None | Some r \<Rightarrow> Some (drop (length key + 3) r))"

fun find_entry :: "cs_entry list \<Rightarrow> u8 list \<Rightarrow> nat option" where
  "find_entry [] key = None"
| "find_entry (e # es) key = (if ce_key e = key then Some 0 else map_option Suc (find_entry es key))"

definition cs_zero :: "u8 \<Rightarrow> cs_value" where
  "cs_zero type = (if type = 0 then CS_INT 0 else if type = 1 then CS_FLOAT 0 else if type = 2 then CS_BOOL False
                   else if type = 3 then CS_STRING [] else CS_RAW type)"

definition cs_type :: "cs_value \<Rightarrow> u8" where
  "cs_type v = (case v of CS_INT _ \<Rightarrow> 0 | CS_FLOAT _ \<Rightarrow> 1 | CS_BOOL _ \<Rightarrow> 2 | CS_STRING _ \<Rightarrow> 3 | CS_RAW t \<Rightarrow> t)"

definition add_entry :: "cs_entry list \<Rightarrow> u8 list \<Rightarrow> u8 \<Rightarrow> cs_entry list option" where
  "add_entry es key type =
     (if MAX_ENTRIES \<le> length es then None
      else Some (es @ [\<lparr>ce_key = take 31 key, ce_value = cs_zero type, ce_dirty = False\<rparr>]))"

definition set_last :: "cs_value \<Rightarrow> cs_entry list \<Rightarrow> cs_entry list" where
  "set_last v es = es[length es - 1 := (es ! (length es - 1))\<lparr>ce_value := v\<rparr>]"

subsection \<open>Factory defaults\<close>

definition factory_type :: "u8 list \<Rightarrow> nat \<Rightarrow> u8" where
  "factory_type js vs =
     (let c = (if vs < length js then js ! vs else 0) in
      if c = 34 then 3 else if c = 116 \<or> c = 102 then 2 else if str_chr 46 js vs \<noteq> None then 1 else 0)"

definition factory_value :: "(u8 list \<Rightarrow> u32) \<Rightarrow> u8 list \<Rightarrow> nat \<Rightarrow> cs_value option" where
  "factory_value atof js vs =
     (let type = factory_type js vs in
      if type = 2 then Some (CS_BOOL (take 4 (drop vs js) = [116, 114, 117, 101]))
      else if type = 0 then map_option CS_INT (atoi (drop vs js))
      else if type = 1 then Some (CS_FLOAT (atof (drop vs js)))
      else Some (CS_STRING (case str_chr 34 js vs of
             None \<Rightarrow> []
           | Some q1 \<Rightarrow> (case str_chr 34 js (q1 + 1) of
                 None \<Rightarrow> []
               | Some q2 \<Rightarrow> take (min (q2 - q1 - 1) 63) (drop (q1 + 1) js)))))"

definition factory_entry :: "(u8 list \<Rightarrow> u32) \<Rightarrow> u8 list \<Rightarrow> u8 list \<Rightarrow> nat \<Rightarrow> cs_entry list \<Rightarrow> cs_entry list option" where
  "factory_entry atof js key vs es =
     (case add_entry es key (factory_type js vs) of
        None \<Rightarrow> Some es
      | Some es' \<Rightarrow> do { v \<leftarrow> factory_value atof js vs; Some (set_last v es') })"

lemma str_chr_ge: "str_chr c js i = Some k \<Longrightarrow> i \<le> k \<and> k < length js"
  by (auto simp: str_chr_def Let_def split: if_splits)

function factory_loop :: "(u8 list \<Rightarrow> u32) \<Rightarrow> u8 list \<Rightarrow> nat \<Rightarrow> nat \<Rightarrow> cs_entry list \<Rightarrow> cs_entry list option" where
  "factory_loop atof js sz cursor es =
     (if sz \<le> cursor then Some es
      else if length js < cursor then None
      else case str_chr 34 js cursor of
        None \<Rightarrow> Some es
      | Some q \<Rightarrow> (case str_chr 34 js (q + 1) of
          None \<Rightarrow> Some es
        | Some key_end \<Rightarrow>
            if 32 \<le> key_end - (q + 1) then factory_loop atof js sz (key_end + 1) es
            else case str_chr 58 js key_end of
              None \<Rightarrow> factory_loop atof js sz (key_end + 1) es
            | Some colon \<Rightarrow>
                let vs = skip_ws js (colon + 1) in
                case factory_entry atof js (take (key_end - (q + 1)) (drop (q + 1) js)) vs es of
                  None \<Rightarrow> None
                | Some es' \<Rightarrow> factory_loop atof js sz (vs + 1) es'))"
  by pat_completeness auto
termination
  by (relation "measure (\<lambda>(atof, js, sz, cursor, es). sz - cursor)")
    (auto dest!: str_chr_ge simp: skip_ws_def intro!: diff_less_mono2)

definition load_factory_defaults :: "(u8 list \<Rightarrow> u32) \<Rightarrow> 'd config_store \<Rightarrow> (bool \<times> 'd config_store) option" where
  "load_factory_defaults atof s =
     (case cs_json s of
        None \<Rightarrow> Some (False, s)
      | Some js \<Rightarrow>
          if cs_json_size s = 0 then Some (False, s)
          else do { es \<leftarrow> factory_loop atof js (cs_json_size s) 0 []; Some (True, s\<lparr>cs_entries := es\<rparr>) })"

declare factory_loop.simps [simp del]

subsection \<open>The binary form\<close>

definition cs_payload :: "cs_value \<Rightarrow> u8 list" where
  "cs_payload v =
     (case v of CS_INT i \<Rightarrow> le32 i | CS_FLOAT f \<Rightarrow> le32 f | CS_BOOL b \<Rightarrow> [if b then 1 else 0]
      | CS_STRING str \<Rightarrow> le16 (of_nat (length str)) @ str | CS_RAW _ \<Rightarrow> [])"

text \<open>The outer option is a write behind the buffer, the inner one the result \<open>false\<close>.\<close>

fun serialize_loop :: "nat \<Rightarrow> cs_entry list \<Rightarrow> u8 list \<Rightarrow> u8 list option option" where
  "serialize_loop cap [] out = Some (Some out)"
| "serialize_loop cap (e # es) out =
     (let kl = of_nat (length (ce_key e)) :: u8 in
      if cap < length out + 1 + unat kl + 1 + 8 then Some None
      else
        let out' = out @ [kl] @ take (unat kl) (ce_key e) @ [cs_type (ce_value e)] @ cs_payload (ce_value e) in
        if cap < length out' then None else serialize_loop cap es out')"

definition blob_serialize :: "nat \<Rightarrow> cs_entry list \<Rightarrow> u8 list option option" where
  "blob_serialize cap es = (if cap < 2 then Some None else serialize_loop cap es (le16 (of_nat (length es))))"

text \<open>The value of a given type at \<open>pos\<close>, with the position behind it.\<close>

definition read_value :: "u8 list \<Rightarrow> u8 \<Rightarrow> nat \<Rightarrow> (cs_value \<times> nat) option" where
  "read_value buf type pos =
     (if type = 0 then (if length buf < pos + 4 then None else Some (CS_INT (rd32 buf pos), pos + 4))
      else if type = 1 then (if length buf < pos + 4 then None else Some (CS_FLOAT (rd32 buf pos), pos + 4))
      else if type = 2 then (if length buf \<le> pos then None else Some (CS_BOOL (buf ! pos \<noteq> 0), pos + 1))
      else if type = 3 then
        (if length buf < pos + 2 then None
         else
           let slen = unat (rd16 buf pos) in
           if length buf < pos + 2 + slen then None
           else let n = min slen 63 in Some (CS_STRING (cstr (take n (drop (pos + 2) buf))), pos + 2 + n))
      else Some (CS_RAW type, pos))"

fun deserialize_loop :: "nat \<Rightarrow> u8 list \<Rightarrow> nat \<Rightarrow> cs_entry list \<Rightarrow> bool \<times> cs_entry list" where
  "deserialize_loop 0 buf pos es = (True, es)"
| "deserialize_loop (Suc n) buf pos es =
     (if length buf \<le> pos then (False, es)
      else
        let kl = unat (buf ! pos); kp = pos + 1 in
        if length buf < kp + kl \<or> 32 \<le> kl then (False, es)
        else if length buf \<le> kp + kl then (False, es)
        else
          let type = buf ! (kp + kl); vp = kp + kl + 1 in
          case add_entry es (cstr (take kl (drop kp buf))) type of
            None \<Rightarrow> deserialize_loop n buf vp es
          | Some es' \<Rightarrow>
              (case read_value buf type vp of
                 None \<Rightarrow> (False, es')
               | Some (v, next) \<Rightarrow> deserialize_loop n buf next (set_last v es')))"

definition blob_deserialize :: "u8 list \<Rightarrow> cs_entry list \<Rightarrow> bool \<times> cs_entry list" where
  "blob_deserialize buf es = (if length buf < 2 then (False, es) else deserialize_loop (unat (rd16 buf 0)) buf 2 es)"

subsection \<open>The two slots\<close>

definition read_slot_flag :: "'d storage_ops \<Rightarrow> 'd config_store \<Rightarrow> u8 \<times> 'd config_store" where
  "read_slot_flag ops s =
     (if \<not> cs_ready s then (0xFF, s)
      else let (_, f, d) = st_read_flag ops (cs_dev s) in ((case f of Some v \<Rightarrow> v | None \<Rightarrow> 0xFF), s\<lparr>cs_dev := d\<rparr>))"

definition write_slot_flag :: "'d storage_ops \<Rightarrow> u8 \<Rightarrow> 'd config_store \<Rightarrow> bool \<times> 'd config_store" where
  "write_slot_flag ops flag s =
     (if \<not> cs_ready s then (False, s)
      else let (r, d) = st_write_flag ops flag (cs_dev s) in (r = MINI_OK, s\<lparr>cs_dev := d\<rparr>))"

definition slot_flag :: "u8 \<Rightarrow> u8" where
  "slot_flag slot = (if slot = 0 then FLAG_A_VALID else FLAG_B_VALID)"

definition crc_fallback :: "(u8 list \<Rightarrow> u32) \<Rightarrow> 'd config_store \<Rightarrow> (bool \<times> 'd config_store) option" where
  "crc_fallback atof s = do { (_, s') \<leftarrow> load_factory_defaults atof (s\<lparr>cs_health := - 1\<rparr>); Some (True, s') }"

partial_function (option) load_from_storage ::
    "(u8 list \<Rightarrow> u32) \<Rightarrow> 'd storage_ops \<Rightarrow> u8 \<Rightarrow> 'd config_store \<Rightarrow> (bool \<times> 'd config_store) option" where
  "load_from_storage atof ops slot s =
     (case st_read_blob ops slot BLOB_MAX (cs_dev s) of
        (r, buf, d) \<Rightarrow>
          let s1 = s\<lparr>cs_dev := d\<rparr> in
          if r \<noteq> MINI_OK then Some (False, s1)
          else if BLOB_MAX < length buf then None
          else if length buf < 6 then Some (False, s1)
          else if rd32 buf 0 \<noteq> crc32_le 0 (drop 4 buf) then
            let alt = (if slot = 0 then 1 else 0) in
            (case read_slot_flag ops s1 of
               (flag, s2) \<Rightarrow>
                 if flag \<noteq> slot_flag alt then
                   do { (ok, s3) \<leftarrow> load_from_storage atof ops alt s2;
                        if ok then Some (True, (snd (write_slot_flag ops (slot_flag alt) s3))\<lparr>cs_health := 1\<rparr>)
                        else crc_fallback atof s3 }
                 else crc_fallback atof s2)
          else
            let (ok, es) = blob_deserialize (drop 4 buf) (cs_entries s1) in Some (ok, s1\<lparr>cs_entries := es\<rparr>))"

definition save_to_storage :: "'d storage_ops \<Rightarrow> u8 \<Rightarrow> 'd config_store \<Rightarrow> (bool \<times> 'd config_store) option" where
  "save_to_storage ops slot s =
     do {
       r \<leftarrow> blob_serialize (BLOB_MAX - 4) (cs_entries s);
       case r of
         None \<Rightarrow> Some (False, s)
       | Some body \<Rightarrow>
           let buf = le32 (crc32_le 0 body) @ body; (r, d) = st_write_blob ops slot buf (cs_dev s) in
           if r \<noteq> MINI_OK then Some (False, s\<lparr>cs_dev := d\<rparr>)
           else
             let (r, verify, d) = st_read_blob ops slot BLOB_MAX d in
             if r \<noteq> MINI_OK then Some (False, s\<lparr>cs_dev := d\<rparr>)
             else if BLOB_MAX < length verify then None
             else Some (verify = buf, s\<lparr>cs_dev := d\<rparr>)
     }"

definition config_store_init :: "(u8 list \<Rightarrow> u32) \<Rightarrow> 'd storage_ops \<Rightarrow> 'd config_store \<Rightarrow> (int \<times> 'd config_store) option" where
  "config_store_init atof ops s =
     (let (r, d) = st_init ops (cs_dev s) in
      do {
        (ok, s) \<leftarrow> load_factory_defaults atof (s\<lparr>cs_dev := d, cs_ready := (r = MINI_OK)\<rparr>);
        if \<not> ok then Some (MINI_ERR_INVAL, s)
        else if \<not> cs_ready s then Some (MINI_OK, s)
        else
          let (flag, s) = read_slot_flag ops s in
          if flag = FLAG_A_VALID then do { (_, s) \<leftarrow> load_from_storage atof ops 0 s; Some (MINI_OK, s) }
          else if flag = FLAG_B_VALID then do { (_, s) \<leftarrow> load_from_storage atof ops 1 s; Some (MINI_OK, s) }
          else Some (MINI_OK, s)
      })"

subsection \<open>Access\<close>

definition str_prefix :: "u8 list \<Rightarrow> u8 list \<Rightarrow> bool" where
  "str_prefix pat str \<longleftrightarrow> str_str pat str = Some str"

definition cs_lookup :: "'d config_store \<Rightarrow> u8 list \<Rightarrow> cs_value option" where
  "cs_lookup s key = map_option (\<lambda>i. ce_value (cs_entries s ! i)) (find_entry (cs_entries s) key)"

definition config_store_get_bool :: "'d config_store \<Rightarrow> u8 list \<Rightarrow> bool \<Rightarrow> bool" where
  "config_store_get_bool s key default_value =
     (case cs_lookup s key of
        Some (CS_BOOL b) \<Rightarrow> b
      | _ \<Rightarrow> (case find_json_value s key of
          None \<Rightarrow> default_value
        | Some v \<Rightarrow>
            if str_prefix [116, 114, 117, 101] v \<or> str_prefix [32, 116, 114, 117, 101] v then True
            else if str_prefix [102, 97, 108, 115, 101] v \<or> str_prefix [32, 102, 97, 108, 115, 101] v then False
            else default_value))"

definition config_store_get_int :: "'d config_store \<Rightarrow> u8 list \<Rightarrow> u32 \<Rightarrow> u32 option" where
  "config_store_get_int s key default_value =
     (case cs_lookup s key of
        Some (CS_INT i) \<Rightarrow> Some i
      | _ \<Rightarrow> (case find_json_value s key of None \<Rightarrow> Some default_value | Some v \<Rightarrow> atoi v))"

definition config_store_get_float :: "(u8 list \<Rightarrow> u32) \<Rightarrow> 'd config_store \<Rightarrow> u8 list \<Rightarrow> u32 \<Rightarrow> u32" where
  "config_store_get_float atof s key default_value =
     (case cs_lookup s key of
        Some (CS_FLOAT f) \<Rightarrow> f
      | _ \<Rightarrow> (case find_json_value s key of None \<Rightarrow> default_value | Some v \<Rightarrow> atof v))"

definition config_store_get_string :: "'d config_store \<Rightarrow> u8 list \<Rightarrow> u8 list \<Rightarrow> u8 list" where
  "config_store_get_string s key default_value =
     (case cs_lookup s key of
        Some (CS_STRING str) \<Rightarrow> str
      | _ \<Rightarrow> (case find_json_value s key of
          None \<Rightarrow> default_value
        | Some v \<Rightarrow> (case str_chr 34 v 0 of None \<Rightarrow> default_value | Some q \<Rightarrow> drop (q + 1) v)))"

text \<open>What the four setters share: an existing entry gets the new type and value, or one is added.\<close>

definition cs_set :: "'d config_store \<Rightarrow> u8 list \<Rightarrow> cs_value \<Rightarrow> int \<times> 'd config_store" where
  "cs_set s key v =
     (case find_entry (cs_entries s) key of
        Some i \<Rightarrow>
          (MINI_OK, s\<lparr>cs_entries := (cs_entries s)[i := (cs_entries s ! i)\<lparr>ce_value := v, ce_dirty := True\<rparr>]\<rparr>)
      | None \<Rightarrow>
          (case add_entry (cs_entries s) key (cs_type v) of
             None \<Rightarrow> (MINI_ERR_INVAL, s)
           | Some es \<Rightarrow>
               (MINI_OK, s\<lparr>cs_entries := es[length es - 1 := (es ! (length es - 1))\<lparr>ce_value := v, ce_dirty := True\<rparr>]\<rparr>)))"

definition config_store_set_bool :: "'d config_store \<Rightarrow> u8 list \<Rightarrow> bool \<Rightarrow> int \<times> 'd config_store" where
  "config_store_set_bool s key value = cs_set s key (CS_BOOL value)"

definition config_store_set_int :: "'d config_store \<Rightarrow> u8 list \<Rightarrow> u32 \<Rightarrow> int \<times> 'd config_store" where
  "config_store_set_int s key value = cs_set s key (CS_INT value)"

definition config_store_set_float :: "'d config_store \<Rightarrow> u8 list \<Rightarrow> u32 \<Rightarrow> int \<times> 'd config_store" where
  "config_store_set_float s key value = cs_set s key (CS_FLOAT value)"

definition config_store_set_string :: "'d config_store \<Rightarrow> u8 list \<Rightarrow> u8 list \<Rightarrow> int \<times> 'd config_store" where
  "config_store_set_string s key value = cs_set s key (CS_STRING (take 63 value))"

definition config_store_register_write_hook ::
    "'d config_store \<Rightarrow> ('d \<Rightarrow> u8 list \<Rightarrow> int \<times> 'd) option \<Rightarrow> 'd config_store" where
  "config_store_register_write_hook s hook = s\<lparr>cs_hook := hook\<rparr>"

definition clear_dirty :: "cs_entry list \<Rightarrow> cs_entry list" where
  "clear_dirty es = map (\<lambda>e. e\<lparr>ce_dirty := False\<rparr>) es"

definition config_store_commit :: "'d storage_ops \<Rightarrow> 'd config_store \<Rightarrow> (int \<times> 'd config_store) option" where
  "config_store_commit ops s =
     do {
       r \<leftarrow> blob_serialize BLOB_MAX (cs_entries s);
       case r of
         None \<Rightarrow> Some (MINI_ERR_NOSPC, s)
       | Some buf \<Rightarrow>
           (case cs_hook s of
              Some hook \<Rightarrow>
                (let (ret, d) = hook (cs_dev s) buf; s = s\<lparr>cs_dev := d\<rparr> in
                 Some (ret, if ret = MINI_OK then s\<lparr>cs_entries := clear_dirty (cs_entries s)\<rparr> else s))
            | None \<Rightarrow>
                if \<not> cs_ready s then Some (MINI_ERR_AGAIN, s)
                else do {
                  let (current, s) = read_slot_flag ops s;
                  let target = (if current = FLAG_A_VALID then 1 else 0);
                  (ok, s) \<leftarrow> save_to_storage ops target s;
                  if \<not> ok then Some (MINI_ERR_IO, s)
                  else do {
                    let (ok, s) = write_slot_flag ops (slot_flag target) s;
                    Some (if \<not> ok then (MINI_ERR_IO, s) else (MINI_OK, s\<lparr>cs_entries := clear_dirty (cs_entries s)\<rparr>))
                  }
                })
     }"

definition config_store_factory_reset ::
    "(u8 list \<Rightarrow> u32) \<Rightarrow> 'd storage_ops \<Rightarrow> 'd config_store \<Rightarrow> (int \<times> 'd config_store) option" where
  "config_store_factory_reset atof ops s =
     (if \<not> cs_ready s then do {
        (ok, s) \<leftarrow> load_factory_defaults atof (s\<lparr>cs_entries := []\<rparr>);
        Some (if ok then MINI_OK else MINI_ERR_INVAL, s)
      }
      else do {
        let (_, d) = st_erase_all ops (cs_dev s);
        (ok, s) \<leftarrow> load_factory_defaults atof (s\<lparr>cs_dev := d, cs_entries := [], cs_health := 0\<rparr>);
        if \<not> ok then Some (MINI_ERR_INVAL, s)
        else do {
          (ok, s) \<leftarrow> save_to_storage ops 0 s;
          if \<not> ok then Some (MINI_ERR_IO, s)
          else do {
            let (ok, s) = write_slot_flag ops FLAG_A_VALID s;
            Some (if ok then MINI_OK else MINI_ERR_IO, s)
          }
        }
      })"

definition config_store_health :: "'d config_store \<Rightarrow> int" where
  "config_store_health s = cs_health s"

end
