(* ===== verification/Config_Blob.thy ===== *)
theory Config_Blob
  imports Config_Store
begin

text \<open>
  The binary form of the configuration table: what \<^verbatim>\<open>blob_serialize\<close> writes, \<^verbatim>\<open>blob_deserialize\<close>
  reads back; the table stays well formed under every operation.
\<close>

subsection \<open>Well-formed tables\<close>

fun value_ok :: "cs_value \<Rightarrow> bool" where
  "value_ok (CS_STRING str) \<longleftrightarrow> length str \<le> 63 \<and> 0 \<notin> set str"
| "value_ok (CS_RAW t) \<longleftrightarrow> 3 < t"
| "value_ok _ \<longleftrightarrow> True"

definition entry_ok :: "cs_entry \<Rightarrow> bool" where
  "entry_ok e \<longleftrightarrow> length (ce_key e) \<le> 31 \<and> 0 \<notin> set (ce_key e) \<and> value_ok (ce_value e)"

definition table_ok :: "cs_entry list \<Rightarrow> bool" where
  "table_ok es \<longleftrightarrow> length es \<le> MAX_ENTRIES \<and> list_all entry_ok es"

definition entry_bytes :: "cs_entry \<Rightarrow> u8 list" where
  "entry_bytes e = of_nat (length (ce_key e)) # ce_key e @ cs_type (ce_value e) # cs_payload (ce_value e)"

lemma payload_len: "value_ok v \<Longrightarrow> length (cs_payload v) \<le> 65"
  by (cases v) (auto simp: cs_payload_def)

lemma entry_len: "entry_ok e \<Longrightarrow> length (entry_bytes e) \<le> 98"
  using payload_len [of "ce_value e"] by (simp add: entry_bytes_def entry_ok_def)

lemma unat_key_len: "n \<le> 31 \<Longrightarrow> unat (of_nat n :: u8) = n"
  by (simp add: unat_of_nat)

lemma serialize_loop_eq:
  "list_all entry_ok es \<Longrightarrow> length out + 98 * length es \<le> cap \<Longrightarrow>
   serialize_loop cap es out = Some (Some (out @ concat (map entry_bytes es)))"
proof (induction es arbitrary: out)
  case (Cons e es)
  have l: "length (ce_key e) \<le> 31" "length (entry_bytes e) \<le> 98" using Cons.prems(1) entry_len [of e] by (simp_all add: entry_ok_def)
  have "serialize_loop cap (e # es) out = serialize_loop cap es (out @ entry_bytes e)"
    using Cons.prems(2) l by (simp add: unat_key_len entry_bytes_def Let_def)
  with Cons.IH [of "out @ entry_bytes e"] Cons.prems l(2) show ?case by simp
qed simp

lemma read_value_at:
  assumes "value_ok v"
  shows "read_value (pre @ cs_payload v @ post) (cs_type v) (length pre) = Some (v, length pre + length (cs_payload v))"
proof (cases v)
  case (CS_STRING str)
  then have "unat (of_nat (length str) :: u16) = length str" using assms by (simp add: unat_of_nat)
  moreover have "takeWhile (\<lambda>x. x \<noteq> 0) str = str" using assms CS_STRING by (auto simp: takeWhile_eq_all_conv)
  ultimately show ?thesis using assms CS_STRING rd16_at [of pre "length pre"]
    by (simp add: read_value_def cs_payload_def cs_type_def cstr_def Let_def min_def)
next
  case (CS_RAW t)
  then have "t \<noteq> 0 \<and> t \<noteq> 1 \<and> t \<noteq> 2 \<and> t \<noteq> 3" using assms by auto
  with CS_RAW show ?thesis by (simp add: read_value_def cs_payload_def cs_type_def)
qed (use rd32_at [of pre "length pre"] in \<open>simp_all add: read_value_def cs_payload_def cs_type_def nth_append\<close>)

lemma set_last_snoc [simp]: "set_last v (es @ [e]) = es @ [e\<lparr>ce_value := v\<rparr>]"
  by (simp add: set_last_def)

lemma cstr_id: "0 \<notin> set str \<Longrightarrow> cstr str = str"
  by (auto simp: cstr_def takeWhile_eq_all_conv)

lemma deserialize_step:
  assumes ok: "entry_ok e" and room: "length acc < 8"
  shows "deserialize_loop (Suc n) (pre @ entry_bytes e @ post) (length pre) acc =
    deserialize_loop n (pre @ entry_bytes e @ post) (length pre + length (entry_bytes e)) (acc @ [e\<lparr>ce_dirty := False\<rparr>])"
proof -
  let ?k = "ce_key e" and ?v = "ce_value e"
  let ?buf = "pre @ entry_bytes e @ post" and ?vp = "length pre + 1 + length ?k + 1"
  let ?pre' = "pre @ of_nat (length ?k) # ?k @ [cs_type ?v]"
  have k: "length ?k \<le> 31" "0 \<notin> set ?k" "value_ok ?v" using ok by (simp_all add: entry_ok_def)
  have split: "?buf = ?pre' @ cs_payload ?v @ post" by (simp add: entry_bytes_def)
  have rv: "read_value ?buf (cs_type ?v) ?vp = Some (?v, length pre + length (entry_bytes e))"
    using read_value_at [OF k(3), of ?pre' post] unfolding split by (simp add: entry_bytes_def add.commute add.left_commute)
  have at: "?buf ! length pre = of_nat (length ?k)" "take (length ?k) (drop (length pre + 1) ?buf) = ?k"
    "?buf ! (length pre + 1 + length ?k) = cs_type ?v" "length pre + 1 + length ?k < length ?buf"
    by (simp_all add: entry_bytes_def nth_append)
  have "add_entry acc ?k (cs_type ?v) = Some (acc @ [\<lparr>ce_key = ?k, ce_value = cs_zero (cs_type ?v), ce_dirty = False\<rparr>])"
    using room k(1) by (simp add: add_entry_def)
  moreover have "e\<lparr>ce_dirty := False\<rparr> = \<lparr>ce_key = ?k, ce_value = ?v, ce_dirty = False\<rparr>" by simp
  moreover have "unat (of_nat (length ?k) :: u8) = length ?k" using k(1) by (rule unat_key_len)
  moreover have "entry_bytes e \<noteq> []" by (simp add: entry_bytes_def)
  ultimately show ?thesis using at rv k(1,2)
    by (simp only: deserialize_loop.simps Let_def cstr_id) (simp add: cstr_id)
qed

lemma deserialize_loop_eq:
  "list_all entry_ok es \<Longrightarrow> length acc + length es \<le> 8 \<Longrightarrow>
   deserialize_loop (length es) (pre @ concat (map entry_bytes es)) (length pre) acc = (True, acc @ clear_dirty es)"
proof (induction es arbitrary: pre acc)
  case (Cons e es)
  have "deserialize_loop (length (e # es)) (pre @ concat (map entry_bytes (e # es))) (length pre) acc =
      deserialize_loop (length es) ((pre @ entry_bytes e) @ concat (map entry_bytes es)) (length (pre @ entry_bytes e))
        (acc @ [e\<lparr>ce_dirty := False\<rparr>])"
    using deserialize_step [of e acc "length es" pre "concat (map entry_bytes es)"] Cons.prems by simp
  also have "\<dots> = (True, acc @ clear_dirty (e # es))"
    using Cons.IH [of "acc @ [e\<lparr>ce_dirty := False\<rparr>]" "pre @ entry_bytes e"] Cons.prems by (simp add: clear_dirty_def)
  finally show ?case .
qed (simp add: clear_dirty_def)

definition table_bytes :: "cs_entry list \<Rightarrow> u8 list" where
  "table_bytes es = le16 (of_nat (length es)) @ concat (map entry_bytes es)"

lemma serialize_eq:
  assumes "table_ok es" "786 \<le> cap"
  shows "blob_serialize cap es = Some (Some (table_bytes es))"
  using assms serialize_loop_eq [of es "le16 (of_nat (length es))" cap]
  by (simp add: blob_serialize_def table_ok_def table_bytes_def)

lemma deserialize_eq:
  assumes "list_all entry_ok es" "length acc + length es \<le> 8"
  shows "blob_deserialize (table_bytes es) acc = (True, acc @ clear_dirty es)"
proof -
  have "rd16 (table_bytes es) 0 = of_nat (length es)"
    using rd16_at [of "[]" 0 "of_nat (length es)" "concat (map entry_bytes es)"] by (simp add: table_bytes_def)
  moreover have "unat (of_nat (length es) :: u16) = length es" using assms(2) by (simp add: unat_of_nat)
  ultimately show ?thesis
    using deserialize_loop_eq [OF assms, of "le16 (of_nat (length es))"] by (simp add: blob_deserialize_def table_bytes_def)
qed

text \<open>
  C18. A well-formed table always fits the blob buffer, and reading the blob into an empty table gives the table
  back with the dirty marks cleared.
\<close>

theorem config_blob_roundtrip:
  assumes "table_ok es"
  shows "\<exists>b. blob_serialize (BLOB_MAX - 4) es = Some (Some b) \<and> length b \<le> 786 \<and> blob_deserialize b [] = (True, clear_dirty es)"
proof -
  have "length (concat (map entry_bytes es)) \<le> 98 * length es" if "list_all entry_ok es" for es
    using that by (induction es) (auto dest: entry_len)
  from this [of es] assms have "length (table_bytes es) \<le> 786" by (simp add: table_bytes_def table_ok_def)
  with serialize_eq [OF assms, of "BLOB_MAX - 4"] deserialize_eq [of es "[]"] assms show ?thesis by (simp add: table_ok_def)
qed

theorem config_blob_roundtrip_witness:
  "\<exists>b. blob_serialize (BLOB_MAX - 4) [\<lparr>ce_key = [97], ce_value = CS_INT 7, ce_dirty = True\<rparr>,
       \<lparr>ce_key = [98], ce_value = CS_STRING [104, 105], ce_dirty = False\<rparr>] = Some (Some b) \<and>
     blob_deserialize b [] = (True, [\<lparr>ce_key = [97], ce_value = CS_INT 7, ce_dirty = False\<rparr>,
       \<lparr>ce_key = [98], ce_value = CS_STRING [104, 105], ce_dirty = False\<rparr>])"
  using config_blob_roundtrip [of "[\<lparr>ce_key = [97], ce_value = CS_INT 7, ce_dirty = True\<rparr>,
       \<lparr>ce_key = [98], ce_value = CS_STRING [104, 105], ce_dirty = False\<rparr>]"]
  by (auto simp: table_ok_def entry_ok_def clear_dirty_def simp del: serialize_loop.simps)

end
