(* ===== verification/Config_Slots.thy ===== *)
theory Config_Slots
  imports Config_Blob
begin

text \<open>
  The configuration store over its two slots: setters and getters, well-formedness of the table after start-up
  from any storage contents, safety of a commit, and what a restart reads back.
\<close>

subsection \<open>Tables stay well formed\<close>

lemma zero_ok: "value_ok (cs_zero t)"
  by (auto simp: cs_zero_def word_less_nat_alt word_unat_eq_iff)

lemma add_entry_ok:
  "table_ok es \<Longrightarrow> 0 \<notin> set key \<Longrightarrow> add_entry es key t = Some es' \<Longrightarrow>
   table_ok es' \<and> (\<exists>e. es' = es @ [e] \<and> entry_ok e)"
  using zero_ok [of t] by (auto simp: add_entry_def table_ok_def entry_ok_def dest: in_set_takeD split: if_splits)

lemma add_set_ok:
  assumes "table_ok es" "0 \<notin> set key" "add_entry es key t = Some es'" "value_ok v"
  shows "table_ok (set_last v es') \<and> (\<exists>e. set_last v es' = es @ [e])"
proof -
  obtain e where "es' = es @ [e]" "entry_ok e" using add_entry_ok [OF assms(1-3)] by auto
  with add_entry_ok [OF assms(1-3)] assms(4) show ?thesis by (auto simp: table_ok_def entry_ok_def)
qed

lemma cstr_zero: "0 \<notin> set (cstr b)"
  by (auto simp: cstr_def dest: set_takeWhileD)

lemma length_cstr_take: "length (cstr (take n b)) \<le> n"
  using length_takeWhile_le [of "\<lambda>x. x \<noteq> 0" "take n b"] by (simp add: cstr_def)

lemma read_value_ok: "read_value buf t pos = Some (v, next) \<Longrightarrow> value_ok v"
  using cstr_zero length_cstr_take [of "min (unat (rd16 buf pos)) 63" "drop (pos + 2) buf"]
  by (auto simp: read_value_def Let_def word_less_nat_alt word_unat_eq_iff split: if_splits)

lemma deserialize_appends:
  "table_ok es \<Longrightarrow> deserialize_loop n buf pos es = (ok, es') \<Longrightarrow> table_ok es' \<and> (\<exists>ys. es' = es @ ys)"
proof (induction n arbitrary: pos es)
  case (Suc n)
  show ?case
  proof (cases "length buf \<le> pos \<or> length buf < pos + 1 + unat (buf ! pos) \<or> 32 \<le> unat (buf ! pos) \<or>
      length buf \<le> pos + 1 + unat (buf ! pos)")
    case True
    with Suc.prems show ?thesis by (auto simp: Let_def split: if_splits)
  next
    case False
    let ?kl = "unat (buf ! pos)"
    let ?key = "cstr (take ?kl (drop (Suc pos) buf))" and ?t = "buf ! Suc (pos + ?kl)" and ?vp = "Suc (Suc (pos + ?kl))"
    have e: "deserialize_loop (Suc n) buf pos es =
        (case add_entry es ?key ?t of None \<Rightarrow> deserialize_loop n buf ?vp es
         | Some es' \<Rightarrow> (case read_value buf ?t ?vp of None \<Rightarrow> (False, es')
             | Some (v, next) \<Rightarrow> deserialize_loop n buf next (set_last v es')))"
      using False by (simp add: Let_def)
    show ?thesis
    proof (cases "add_entry es ?key ?t")
      case None
      with Suc e show ?thesis by auto
    next
      case (Some es1)
      note a = add_entry_ok [OF Suc.prems(1) cstr_zero Some]
      show ?thesis
      proof (cases "read_value buf ?t ?vp")
        case None
        with a Some e Suc.prems(2) show ?thesis by auto
      next
        case (Some w)
        obtain v nx where w: "w = (v, nx)" by fastforce
        from add_set_ok [OF Suc.prems(1) cstr_zero \<open>add_entry es ?key ?t = Some es1\<close>, of v] read_value_ok [of buf ?t ?vp v nx]
        have t: "table_ok (set_last v es1)" "\<exists>e. set_last v es1 = es @ [e]" using Some w by auto
        from Suc.IH [OF t(1), of nx] t(2) Suc.prems(2) e \<open>add_entry es ?key ?t = Some es1\<close> Some w show ?thesis by auto
      qed
    qed
  qed
qed auto

lemma factory_entry_ok:
  assumes "table_ok es" "0 \<notin> set js" "factory_entry atof js key vs es = Some es'" "set key \<subseteq> set js"
  shows "table_ok es'"
proof (cases "add_entry es key (factory_type js vs)")
  case None
  with assms(1,3) show ?thesis by (simp add: factory_entry_def)
next
  case (Some es1)
  then obtain v where v: "factory_value atof js vs = Some v" "es' = set_last v es1"
    using assms(3) by (auto simp: factory_entry_def bind_eq_Some_conv)
  have "value_ok v"
    using v(1) assms(2) by (auto simp: factory_value_def Let_def split: if_splits option.splits dest!: in_set_takeD in_set_dropD)
  moreover have "0 \<notin> set key" using assms(2,4) by auto
  ultimately show ?thesis using add_set_ok [OF assms(1) _ Some] v(2) by simp
qed

lemma factory_loop_ok:
  "table_ok es \<Longrightarrow> 0 \<notin> set js \<Longrightarrow> factory_loop atof js sz cursor es = Some es' \<Longrightarrow> table_ok es'"
proof (induction atof js sz cursor es rule: factory_loop.induct)
  case (1 atof js sz cursor es)
  have sub: "set (take n (drop m js)) \<subseteq> set js" for n m by (meson set_drop_subset set_take_subset subset_trans)
  from 1(6) show ?case
    by (subst (asm) factory_loop.simps)
      (use 1(1-5) factory_entry_ok [OF 1(4,5)] sub in \<open>auto simp: Let_def split: if_splits option.splits\<close>)
qed

text \<open>The state at and after start-up: the source parses to \<open>es0\<close>, and the table starts with it.\<close>

definition started :: "(u8 list \<Rightarrow> u32) \<Rightarrow> cs_entry list \<Rightarrow> 'd config_store \<Rightarrow> bool" where
  "started atof es0 s \<longleftrightarrow>
     (\<exists>js. cs_json s = Some js \<and> 0 \<notin> set js \<and> cs_json_size s \<noteq> 0 \<and> factory_loop atof js (cs_json_size s) 0 [] = Some es0) \<and>
     (\<exists>ys. cs_entries s = es0 @ ys) \<and> table_ok (cs_entries s)"

lemma started_frame [simp]:
  "started atof es0 (s\<lparr>cs_dev := d\<rparr>) = started atof es0 s" "started atof es0 (s\<lparr>cs_health := h\<rparr>) = started atof es0 s"
  "started atof es0 (snd (write_slot_flag ops f s)) = started atof es0 s"
  "started atof es0 (snd (read_slot_flag ops s)) = started atof es0 s"
  by (simp_all add: started_def write_slot_flag_def read_slot_flag_def Let_def split_beta)

lemma load_defaults_started:
  "started atof es0 s \<Longrightarrow> \<exists>s'. load_factory_defaults atof s = Some (True, s') \<and> started atof es0 s' \<and> cs_entries s' = es0 \<and>
     cs_dev s' = cs_dev s \<and> cs_ready s' = cs_ready s \<and> cs_health s' = cs_health s"
  using factory_loop_ok [of "[]"] by (auto simp: started_def load_factory_defaults_def table_ok_def)

lemma crc_fallback_started: "started atof es0 s \<Longrightarrow> crc_fallback atof s = Some (ok, s') \<Longrightarrow> started atof es0 s'"
  using load_defaults_started [of atof es0 "s\<lparr>cs_health := - 1\<rparr>"] by (auto simp: crc_fallback_def)

lemma blob_deserialize_started:
  assumes "started atof es0 s" "blob_deserialize b (cs_entries s) = (ok, es)"
  shows "started atof es0 (s\<lparr>cs_entries := es\<rparr>)"
proof (cases "length b < 2")
  case False
  with assms deserialize_appends [of "cs_entries s" "unat (rd16 b 0)" b 2 ok es] show ?thesis
    by (auto simp: started_def blob_deserialize_def)
qed (use assms in \<open>auto simp: blob_deserialize_def started_def\<close>)

lemma load_started:
  assumes "load_from_storage atof ops slot s = Some r"
  shows "started atof es0 s \<longrightarrow> started atof es0 (snd r)"
proof (rule load_from_storage.raw_induct [where P = "\<lambda>atof ops slot s r. started atof es0 s \<longrightarrow> started atof es0 (snd r)", OF _ assms],
    rule impI, goal_cases)
  case (1 f atof ops slot s r)
  obtain rc buf d where rb: "st_read_blob ops slot BLOB_MAX (cs_dev s) = (rc, buf, d)" by (metis prod_cases3)
  let ?s1 = "s\<lparr>cs_dev := d\<rparr>" and ?alt = "if slot = 0 then 1 else 0 :: u8"
  obtain flag s2 where fl: "read_slot_flag ops ?s1 = (flag, s2)" by fastforce
  have st2: "started atof es0 s2" using fl 1(3) by (metis started_frame(1,4) snd_conv)
  show ?case
  proof (cases "rc = MINI_OK \<and> 6 \<le> length buf \<and> rd32 buf 0 \<noteq> crc32_le 0 (drop 4 buf) \<and> flag \<noteq> slot_flag ?alt")
    case True
    then obtain ok s3 where f: "f atof ops ?alt s2 = Some (ok, s3)"
      using 1(2) rb fl by (auto simp: Let_def bind_eq_Some_conv split: if_splits)
    then have st3: "started atof es0 s3" using 1(1) [OF f] st2 by simp
    show ?thesis using 1(2) rb fl True f st3 crc_fallback_started [OF st3]
      by (cases r) (auto simp: Let_def split: if_splits)
  next
    case False
    then show ?thesis using 1(2,3) rb fl crc_fallback_started [OF st2] blob_deserialize_started [of atof es0 ?s1]
      by (cases r) (auto simp: Let_def split: if_splits prod.splits)
  qed
qed


subsection \<open>Storage behind the slots\<close>

text \<open>
  The documented effect of the storage functions on slot contents and flag: reads change nothing and return what is
  stored, a write of one slot leaves the other slot and the flag alone, a write of the flag leaves the slots alone.
  A function that fails may leave its own target in any state.
\<close>

definition ab_frame :: "'d storage_ops \<Rightarrow> ('d \<Rightarrow> u8 \<Rightarrow> u8 list) \<Rightarrow> ('d \<Rightarrow> u8) \<Rightarrow> bool" where
  "ab_frame ops blob flag \<longleftrightarrow>
     (\<forall>d r f d'. st_read_flag ops d = (r, f, d') \<longrightarrow> blob d' = blob d \<and> flag d' = flag d \<and> f = Some (flag d)) \<and>
     (\<forall>slot cap d r b d'. st_read_blob ops slot cap d = (r, b, d') \<longrightarrow>
        blob d' = blob d \<and> flag d' = flag d \<and> length b \<le> cap \<and> (r = MINI_OK \<longrightarrow> b = blob d slot)) \<and>
     (\<forall>slot b d r d'. st_write_blob ops slot b d = (r, d') \<longrightarrow>
        flag d' = flag d \<and> (\<forall>k. k \<noteq> slot \<longrightarrow> blob d' k = blob d k) \<and> (r = MINI_OK \<longrightarrow> blob d' slot = b)) \<and>
     (\<forall>f d r d'. st_write_flag ops f d = (r, d') \<longrightarrow> blob d' = blob d \<and> (flag d' = f \<or> r \<noteq> MINI_OK \<and> flag d' = flag d))"

lemma slot_flag_simps [simp]: "slot_flag 0 = 0xA0" "slot_flag 1 = 0x0B"
  by (simp_all add: slot_flag_def)

lemma frame_read_flag: "ab_frame ops blob flag \<Longrightarrow> st_read_flag ops d = (r, f, d') \<Longrightarrow>
    blob d' = blob d \<and> flag d' = flag d \<and> f = Some (flag d)"
  by (simp add: ab_frame_def)

lemma frame_read_blob: "ab_frame ops blob flag \<Longrightarrow> st_read_blob ops slot cap d = (r, b, d') \<Longrightarrow>
    blob d' = blob d \<and> flag d' = flag d \<and> length b \<le> cap \<and> (r = MINI_OK \<longrightarrow> b = blob d slot)"
  by (simp add: ab_frame_def)

lemma frame_write_blob: "ab_frame ops blob flag \<Longrightarrow> st_write_blob ops slot b d = (r, d') \<Longrightarrow>
    flag d' = flag d \<and> (\<forall>k. k \<noteq> slot \<longrightarrow> blob d' k = blob d k) \<and> (r = MINI_OK \<longrightarrow> blob d' slot = b)"
  by (simp add: ab_frame_def)

lemma frame_write_flag: "ab_frame ops blob flag \<Longrightarrow> st_write_flag ops f d = (r, d') \<Longrightarrow>
    blob d' = blob d \<and> (flag d' = f \<or> r \<noteq> MINI_OK \<and> flag d' = flag d)"
  by (simp add: ab_frame_def)

definition blob_valid :: "u8 list \<Rightarrow> bool" where
  "blob_valid b \<longleftrightarrow> 6 \<le> length b \<and> length b \<le> BLOB_MAX \<and> rd32 b 0 = crc32_le 0 (drop 4 b)"

definition active_blob :: "('d \<Rightarrow> u8 \<Rightarrow> u8 list) \<Rightarrow> ('d \<Rightarrow> u8) \<Rightarrow> 'd \<Rightarrow> u8 list option" where
  "active_blob blob flag d =
     (if flag d = FLAG_A_VALID then Some (blob d 0) else if flag d = FLAG_B_VALID then Some (blob d 1) else None)"

definition table_blob :: "cs_entry list \<Rightarrow> u8 list" where
  "table_blob es = le32 (crc32_le 0 (table_bytes es)) @ table_bytes es"

lemma table_bytes_len: "table_ok es \<Longrightarrow> 2 \<le> length (table_bytes es) \<and> length (table_bytes es) \<le> 786"
proof -
  have "length (concat (map entry_bytes es)) \<le> 98 * length es" if "list_all entry_ok es" for es
    using that by (induction es) (auto dest: entry_len)
  from this [of es] show "table_ok es \<Longrightarrow> ?thesis" by (simp add: table_bytes_def table_ok_def)
qed

lemma table_blob_valid: "table_ok es \<Longrightarrow> blob_valid (table_blob es)"
  using table_bytes_len [of es] rd32_at [of "[]" 0 "crc32_le 0 (table_bytes es)" "table_bytes es"]
  by (simp add: blob_valid_def table_blob_def)

lemma save_to_storage_frame:
  assumes fr: "ab_frame ops blob flag" and ok: "table_ok (cs_entries s)"
  obtains r d where "save_to_storage ops slot s = Some (r, s\<lparr>cs_dev := d\<rparr>)" "flag d = flag (cs_dev s)"
    "\<forall>k. k \<noteq> slot \<longrightarrow> blob d k = blob (cs_dev s) k" "r \<longrightarrow> blob d slot = table_blob (cs_entries s)"
proof -
  let ?b = "table_blob (cs_entries s)"
  obtain r1 d1 where w: "st_write_blob ops slot ?b (cs_dev s) = (r1, d1)" by fastforce
  obtain r2 v d2 where v: "st_read_blob ops slot BLOB_MAX d1 = (r2, v, d2)" by (metis prod_cases3)
  have w': "flag d1 = flag (cs_dev s)" "\<forall>k. k \<noteq> slot \<longrightarrow> blob d1 k = blob (cs_dev s) k" "r1 = MINI_OK \<longrightarrow> blob d1 slot = ?b"
    using frame_write_blob [OF fr w] by auto
  have v': "blob d2 = blob d1" "flag d2 = flag d1" "length v \<le> BLOB_MAX" "r2 = MINI_OK \<longrightarrow> v = blob d1 slot"
    using frame_read_blob [OF fr v] by auto
  have "save_to_storage ops slot s = Some (r1 = MINI_OK \<and> r2 = MINI_OK \<and> v = ?b, s\<lparr>cs_dev := if r1 = MINI_OK then d2 else d1\<rparr>)"
    using serialize_eq [OF ok, of "BLOB_MAX - 4"] w v v'(3)
    by (auto simp: save_to_storage_def table_blob_def Let_def)
  then show ?thesis by (rule that) (use w' v' in auto)
qed

lemma config_commit_atomic_aux:
  assumes "ab_frame ops blob flag" "table_ok (cs_entries s)" "cs_ready s" "cs_hook s = None"
    and "\<forall>b. active_blob blob flag (cs_dev s) = Some b \<longrightarrow> blob_valid b"
  shows "\<exists>r s'. config_store_commit ops s = Some (r, s') \<and> (r = MINI_OK \<or> r = MINI_ERR_IO) \<and>
    (\<forall>b. active_blob blob flag (cs_dev s') = Some b \<longrightarrow> blob_valid b) \<and>
    (active_blob blob flag (cs_dev s') = active_blob blob flag (cs_dev s) \<and> r \<noteq> MINI_OK \<or>
     active_blob blob flag (cs_dev s') = Some (table_blob (cs_entries s)))"
proof -
  let ?es = "cs_entries s"
  obtain rc f d0 where rf: "st_read_flag ops (cs_dev s) = (rc, f, d0)" by (metis prod_cases3)
  have rf': "blob d0 = blob (cs_dev s)" "flag d0 = flag (cs_dev s)" "f = Some (flag (cs_dev s))"
    using frame_read_flag [OF assms(1) rf] by auto
  let ?t = "if flag (cs_dev s) = FLAG_A_VALID then 1 else 0 :: u8"
  obtain ok d1 where s1: "save_to_storage ops ?t (s\<lparr>cs_dev := d0\<rparr>) = Some (ok, s\<lparr>cs_dev := d1\<rparr>)" "flag d1 = flag d0"
    "\<forall>k. k \<noteq> ?t \<longrightarrow> blob d1 k = blob d0 k" "ok \<longrightarrow> blob d1 ?t = table_blob ?es"
    using save_to_storage_frame [OF assms(1), of "s\<lparr>cs_dev := d0\<rparr>" ?t] assms(2) by auto
  have act1: "active_blob blob flag d1 = active_blob blob flag (cs_dev s)"
    using s1(2,3) rf'(1,2) by (auto simp: active_blob_def)
  obtain r2 d2 where wf: "st_write_flag ops (slot_flag ?t) d1 = (r2, d2)" by fastforce
  have wf': "blob d2 = blob d1" "flag d2 = slot_flag ?t \<or> r2 \<noteq> MINI_OK \<and> flag d2 = flag d1"
    using frame_write_flag [OF assms(1) wf] by auto
  have act2: "active_blob blob flag d2 = active_blob blob flag (cs_dev s) \<and> r2 \<noteq> MINI_OK \<or>
      active_blob blob flag d2 = Some (table_blob ?es)" if ok
    using wf' act1 s1(4) that by (auto simp: active_blob_def slot_flag_def split: if_splits)
  have c: "config_store_commit ops s = Some (if \<not> ok then (MINI_ERR_IO, s\<lparr>cs_dev := d1\<rparr>)
      else if r2 = MINI_OK then (MINI_OK, s\<lparr>cs_dev := d2, cs_entries := clear_dirty ?es\<rparr>) else (MINI_ERR_IO, s\<lparr>cs_dev := d2\<rparr>))"
    using serialize_eq [OF assms(2), of BLOB_MAX] assms(3,4) rf rf'(3) s1(1) wf
    by (auto simp: config_store_commit_def read_slot_flag_def write_slot_flag_def Let_def)
  show ?thesis using c act1 act2 assms(5) table_blob_valid [OF assms(2)] by (cases ok) (auto split: if_splits)
qed


subsection \<open>Restart\<close>

definition ab_works :: "'d storage_ops \<Rightarrow> ('d \<Rightarrow> u8 \<Rightarrow> u8 list) \<Rightarrow> ('d \<Rightarrow> u8) \<Rightarrow> bool" where
  "ab_works ops blob flag \<longleftrightarrow> ab_frame ops blob flag \<and>
     (\<forall>d. fst (st_init ops d) = MINI_OK \<and> blob (snd (st_init ops d)) = blob d \<and> flag (snd (st_init ops d)) = flag d) \<and>
     (\<forall>slot cap d. length (blob d slot) \<le> cap \<longrightarrow> fst (st_read_blob ops slot cap d) = MINI_OK) \<and>
     (\<forall>f d. fst (st_write_flag ops f d) = MINI_OK)"

lemma works_read:
  assumes "ab_works ops blob flag" "length (blob d slot) \<le> cap"
  obtains d' where "st_read_blob ops slot cap d = (MINI_OK, blob d slot, d')" "blob d' = blob d" "flag d' = flag d"
proof -
  obtain r b d' where e: "st_read_blob ops slot cap d = (r, b, d')" by (metis prod_cases3)
  have r: "r = MINI_OK" using assms e unfolding ab_works_def by (metis fst_conv)
  have "ab_frame ops blob flag" using assms(1) by (simp add: ab_works_def)
  from frame_read_blob [OF this e] e r that show ?thesis by simp
qed

lemma works_flag:
  assumes "ab_works ops blob flag" "cs_ready s"
  obtains d' where "read_slot_flag ops s = (flag (cs_dev s), s\<lparr>cs_dev := d'\<rparr>)" "blob d' = blob (cs_dev s)" "flag d' = flag (cs_dev s)"
proof -
  obtain r f d' where e: "st_read_flag ops (cs_dev s) = (r, f, d')" by (metis prod_cases3)
  have "ab_frame ops blob flag" using assms(1) by (simp add: ab_works_def)
  from frame_read_flag [OF this e] e assms(2) that show ?thesis by (simp add: read_slot_flag_def)
qed

lemma init_loads:
  assumes w: "ab_works ops blob flag" and js: "cs_json t = Some js" "cs_json_size t \<noteq> 0"
    "factory_loop atof js (cs_json_size t) 0 [] = Some es0"
    and fl: "flag (cs_dev t) = slot_flag slot" "slot = 0 \<or> slot = 1"
  obtains d where "blob d = blob (cs_dev t)" "flag d = flag (cs_dev t)"
    "config_store_init atof ops t = (case load_from_storage atof ops slot (t\<lparr>cs_ready := True, cs_entries := es0, cs_dev := d\<rparr>) of
       None \<Rightarrow> None | Some (_, s) \<Rightarrow> Some (MINI_OK, s))"
proof -
  obtain d0 where i: "st_init ops (cs_dev t) = (MINI_OK, d0)" "blob d0 = blob (cs_dev t)" "flag d0 = flag (cs_dev t)"
    using w unfolding ab_works_def by (metis prod.collapse)
  let ?s = "t\<lparr>cs_dev := d0, cs_ready := True, cs_entries := es0\<rparr>"
  have "cs_ready ?s" by simp
  then obtain d where d: "read_slot_flag ops ?s = (flag (cs_dev ?s), ?s\<lparr>cs_dev := d\<rparr>)" "blob d = blob (cs_dev ?s)" "flag d = flag (cs_dev ?s)"
    by (rule works_flag [OF w])
  have "load_factory_defaults atof (t\<lparr>cs_dev := d0, cs_ready := True\<rparr>) = Some (True, ?s)"
    using js by (simp add: load_factory_defaults_def)
  then have "config_store_init atof ops t = (case load_from_storage atof ops slot (?s\<lparr>cs_dev := d\<rparr>) of
       None \<Rightarrow> None | Some (_, s) \<Rightarrow> Some (MINI_OK, s))"
    using i d fl by (auto simp: config_store_init_def slot_flag_def Let_def split: option.splits)
  then show ?thesis using that [of d] i d by simp
qed

lemma load_valid:
  assumes w: "ab_works ops blob flag" and b: "blob (cs_dev s) slot = table_blob es" and ok: "table_ok es"
    and room: "length (cs_entries s) + length es \<le> 8"
  shows "\<exists>d. load_from_storage atof ops slot s = Some (True, s\<lparr>cs_dev := d, cs_entries := cs_entries s @ clear_dirty es\<rparr>)"
proof -
  have v: "6 \<le> length (table_blob es)" "length (table_blob es) \<le> 4096"
    "rd32 (table_blob es) 0 = crc32_le 0 (drop 4 (table_blob es))"
    using table_blob_valid [OF ok] by (simp_all add: blob_valid_def)
  have "length (blob (cs_dev s) slot) \<le> BLOB_MAX" using v(2) b by simp
  then obtain d where d: "st_read_blob ops slot BLOB_MAX (cs_dev s) = (MINI_OK, blob (cs_dev s) slot, d)"
    by (rule works_read [OF w])
  have "blob_deserialize (drop 4 (table_blob es)) (cs_entries s) = (True, cs_entries s @ clear_dirty es)"
    using deserialize_eq [of es "cs_entries s"] ok room by (simp add: table_blob_def table_ok_def)
  with d b v show ?thesis by (intro exI [of _ d], subst load_from_storage.simps) (simp add: Let_def)
qed


text \<open>
  C38. When both slots hold a blob with a wrong checksum, start-up ends with the factory defaults, but reports health 1
  ("recovered from the other slot", where -1 is documented for the fallback to factory defaults) and moves the flag to
  the other corrupt slot.
\<close>

theorem config_both_corrupt:
  assumes w: "ab_works ops blob flag" and fl: "flag (cs_dev t) = FLAG_A_VALID"
    and js: "cs_json t = Some js" "cs_json_size t \<noteq> 0" "factory_loop atof js (cs_json_size t) 0 [] = Some es0"
    and bad: "\<forall>k. k = 0 \<or> k = 1 \<longrightarrow> 6 \<le> length (blob (cs_dev t) k) \<and> length (blob (cs_dev t) k) \<le> BLOB_MAX \<and> \<not> blob_valid (blob (cs_dev t) k)"
  shows "\<exists>t'. config_store_init atof ops t = Some (MINI_OK, t') \<and> cs_entries t' = es0 \<and> config_store_health t' = 1 \<and>
    flag (cs_dev t') = FLAG_B_VALID"
proof -
  have crc: "6 \<le> length (blob d' k)" "length (blob d' k) \<le> 4096" "rd32 (blob d' k) 0 \<noteq> crc32_le 0 (drop 4 (blob d' k))"
    if "blob d' = blob (cs_dev t)" "k = 0 \<or> k = 1" for d' k
    using bad that by (auto simp: blob_valid_def)
  have fr: "flag (cs_dev t) = slot_flag 0" using fl by (simp add: slot_flag_def)
  obtain d where d: "blob d = blob (cs_dev t)" "flag d = flag (cs_dev t)"
    "config_store_init atof ops t = (case load_from_storage atof ops 0 (t\<lparr>cs_ready := True, cs_entries := es0, cs_dev := d\<rparr>) of
       None \<Rightarrow> None | Some (_, s) \<Rightarrow> Some (MINI_OK, s))"
    by (rule init_loads [OF w js fr]) simp
  have step: "\<exists>d2. blob d2 = blob (cs_dev t) \<and> flag d2 = FLAG_A_VALID \<and>
      load_from_storage atof ops slot s =
        (let alt = if slot = 0 then 1 else 0; s2 = s\<lparr>cs_dev := d2\<rparr> in
         if FLAG_A_VALID \<noteq> slot_flag alt then
           do { (ok, s3) \<leftarrow> load_from_storage atof ops alt s2;
                if ok then Some (True, (snd (write_slot_flag ops (slot_flag alt) s3))\<lparr>cs_health := 1\<rparr>) else crc_fallback atof s3 }
         else crc_fallback atof s2)"
    if s: "blob (cs_dev s) = blob (cs_dev t)" "flag (cs_dev s) = FLAG_A_VALID" "cs_ready s" "slot = 0 \<or> slot = 1" for s slot
  proof -
    note c = crc [OF s(1,4)]
    have "length (blob (cs_dev s) slot) \<le> BLOB_MAX" using c(2) by simp
    then obtain d1 where d1: "st_read_blob ops slot BLOB_MAX (cs_dev s) = (MINI_OK, blob (cs_dev s) slot, d1)"
      "blob d1 = blob (cs_dev s)" "flag d1 = flag (cs_dev s)"
      by (rule works_read [OF w])
    have "cs_ready (s\<lparr>cs_dev := d1\<rparr>)" using s(3) by simp
    then obtain d2 where "read_slot_flag ops (s\<lparr>cs_dev := d1\<rparr>) = (flag (cs_dev (s\<lparr>cs_dev := d1\<rparr>)), s\<lparr>cs_dev := d1\<rparr>\<lparr>cs_dev := d2\<rparr>)"
      "blob d2 = blob (cs_dev (s\<lparr>cs_dev := d1\<rparr>))" "flag d2 = flag (cs_dev (s\<lparr>cs_dev := d1\<rparr>))"
      by (rule works_flag [OF w])
    with d1 s c show ?thesis by (intro exI [of _ d2], subst load_from_storage.simps) (simp add: Let_def)
  qed
  let ?t1 = "t\<lparr>cs_ready := True, cs_entries := es0, cs_dev := d\<rparr>"
  obtain d2 where d2: "blob d2 = blob (cs_dev t)" "flag d2 = FLAG_A_VALID" "load_from_storage atof ops 0 ?t1 =
      do { (ok, s3) \<leftarrow> load_from_storage atof ops 1 (?t1\<lparr>cs_dev := d2\<rparr>);
           if ok then Some (True, (snd (write_slot_flag ops (slot_flag 1) s3))\<lparr>cs_health := 1\<rparr>) else crc_fallback atof s3 }"
    using step [of ?t1 0] d(1,2) fl by auto
  obtain d3 where d3: "load_from_storage atof ops 1 (?t1\<lparr>cs_dev := d2\<rparr>) = crc_fallback atof (?t1\<lparr>cs_dev := d3\<rparr>)"
    using step [of "?t1\<lparr>cs_dev := d2\<rparr>" 1] d2(1,2) by auto
  have fb: "crc_fallback atof (?t1\<lparr>cs_dev := d3\<rparr>) = Some (True, ?t1\<lparr>cs_dev := d3, cs_health := - 1\<rparr>)"
    using js by (simp add: crc_fallback_def load_factory_defaults_def)
  obtain r d4 where wf: "st_write_flag ops FLAG_B_VALID d3 = (r, d4)" by fastforce
  have "ab_frame ops blob flag" "fst (st_write_flag ops FLAG_B_VALID d3) = MINI_OK" using w by (simp_all add: ab_works_def)
  with frame_write_flag [of ops blob flag] wf have "flag d4 = FLAG_B_VALID" by fastforce
  with d(3) d2(3) d3 fb wf show ?thesis by (simp add: write_slot_flag_def config_store_health_def)
qed

subsection \<open>Setters and getters\<close>

lemma find_entry_update:
  "find_entry es key = Some i \<Longrightarrow> i < length es \<and> ce_key (es ! i) = key \<and> (ce_key e = key \<longrightarrow> find_entry (es[i := e]) k = find_entry es k)"
  by (induction es arbitrary: i) (auto split: if_splits nat.splits)

lemma find_entry_snoc:
  "find_entry (es @ [e]) k = (case find_entry es k of Some i \<Rightarrow> Some i | None \<Rightarrow> if ce_key e = k then Some (length es) else None)"
  by (induction es) (auto split: option.splits)

lemma find_entry_less: "find_entry es k = Some i \<Longrightarrow> i < length es"
  by (induction es arbitrary: i) (auto split: if_splits)

lemma cs_set_lookup:
  assumes "length key \<le> 31" "cs_set s key v = (r, s')"
  shows "r = MINI_OK \<and> cs_lookup s' key = Some v \<and> (\<forall>k. k \<noteq> key \<longrightarrow> cs_lookup s' k = cs_lookup s k) \<or>
    r = MINI_ERR_INVAL \<and> s' = s \<and> find_entry (cs_entries s) key = None \<and> MAX_ENTRIES \<le> length (cs_entries s)"
proof (cases "find_entry (cs_entries s) key")
  case None
  show ?thesis
  proof (cases "MAX_ENTRIES \<le> length (cs_entries s)")
    case True
    with None assms(2) show ?thesis by (simp add: cs_set_def add_entry_def)
  next
    case False
    let ?es = "cs_entries s @ [\<lparr>ce_key = key, ce_value = v, ce_dirty = True\<rparr>]"
    have "r = MINI_OK" "cs_entries s' = ?es" using None False assms by (auto simp: cs_set_def add_entry_def)
    moreover have "\<forall>k. k \<noteq> key \<longrightarrow> cs_lookup s' k = cs_lookup s k"
      using \<open>cs_entries s' = ?es\<close> find_entry_less
      by (auto simp: cs_lookup_def find_entry_snoc nth_append split: option.splits)
    ultimately show ?thesis using None by (simp add: cs_lookup_def find_entry_snoc)
  qed
next
  case (Some i)
  let ?e = "(cs_entries s ! i)\<lparr>ce_value := v, ce_dirty := True\<rparr>"
  have u: "i < length (cs_entries s)" "ce_key (cs_entries s ! i) = key" "find_entry ((cs_entries s)[i := ?e]) k = find_entry (cs_entries s) k" for k
    using find_entry_update [OF Some, of ?e k] by auto
  have e: "r = MINI_OK" "cs_entries s' = (cs_entries s)[i := ?e]" using Some assms(2) by (auto simp: cs_set_def)
  have "cs_lookup s' k = cs_lookup s k" if "k \<noteq> key" for k
  proof (cases "find_entry (cs_entries s) k")
    case (Some j)
    then have "j \<noteq> i" using find_entry_update [OF Some] u(2) that by auto
    with Some u e show ?thesis by (simp add: cs_lookup_def)
  qed (use u e in \<open>simp add: cs_lookup_def\<close>)
  moreover have "cs_lookup s' key = Some v" using u e Some by (simp add: cs_lookup_def)
  ultimately show ?thesis using e by simp
qed

text \<open>
  C37. A setter either stores the value (the matching getter returns it, strings cut to 63 bytes, and no other key
  changes) or reports MINI_ERR_INVAL with the store unchanged, exactly when the key is new and the table is full.
\<close>

theorem config_set_get:
  assumes "length key \<le> 31"
  shows "(\<forall>v s'. config_store_set_int s key v = (MINI_OK, s') \<longrightarrow>
      config_store_get_int s' key d = Some v \<and> (\<forall>k. k \<noteq> key \<longrightarrow> cs_lookup s' k = cs_lookup s k)) \<and>
    (\<forall>b s'. config_store_set_bool s key b = (MINI_OK, s') \<longrightarrow>
      config_store_get_bool s' key db = b \<and> (\<forall>k. k \<noteq> key \<longrightarrow> cs_lookup s' k = cs_lookup s k)) \<and>
    (\<forall>f s'. config_store_set_float s key f = (MINI_OK, s') \<longrightarrow>
      config_store_get_float atof s' key d = f \<and> (\<forall>k. k \<noteq> key \<longrightarrow> cs_lookup s' k = cs_lookup s k)) \<and>
    (\<forall>str s'. config_store_set_string s key str = (MINI_OK, s') \<longrightarrow>
      config_store_get_string s' key ds = take 63 str \<and> (\<forall>k. k \<noteq> key \<longrightarrow> cs_lookup s' k = cs_lookup s k)) \<and>
    (\<forall>v r s'. cs_set s key v = (r, s') \<and> r \<noteq> MINI_OK \<longrightarrow>
      r = MINI_ERR_INVAL \<and> s' = s \<and> find_entry (cs_entries s) key = None \<and> MAX_ENTRIES \<le> length (cs_entries s))"
proof -
  have ok: "cs_lookup s' key = Some v \<and> (\<forall>k. k \<noteq> key \<longrightarrow> cs_lookup s' k = cs_lookup s k)"
    if "cs_set s key v = (MINI_OK, s')" for v s'
    using cs_set_lookup [OF assms that] by auto
  have bad: "\<forall>v r s'. cs_set s key v = (r, s') \<and> r \<noteq> MINI_OK \<longrightarrow>
      r = MINI_ERR_INVAL \<and> s' = s \<and> find_entry (cs_entries s) key = None \<and> MAX_ENTRIES \<le> length (cs_entries s)"
    using cs_set_lookup [OF assms] by blast
  note defs = config_store_set_int_def config_store_set_bool_def config_store_set_float_def config_store_set_string_def
    config_store_get_int_def config_store_get_bool_def config_store_get_float_def config_store_get_string_def
  show ?thesis
    by (intro conjI bad) (use ok in \<open>simp_all add: defs\<close>)
qed

subsection \<open>The JSON scanner\<close>

definition json_ab :: "u8 list" where
  "json_ab = [123, 34, 97, 34, 58, 34, 120, 34, 44, 34, 98, 34, 58, 49, 125]"

text \<open>
  On \<^verbatim>\<open>{"a":"x","b":1}\<close> the scanner resumes inside the string value and takes its closing quote as the start of a key:
  the table gets the keys "a" and "," and no entry for "b"; and a string read straight from the JSON text runs to the end
  of the text instead of the closing quote.
\<close>

theorem config_json_strings:
  "factory_loop (\<lambda>_. 0) json_ab (length json_ab) 0 [] =
     Some [\<lparr>ce_key = [97], ce_value = CS_STRING [120], ce_dirty = False\<rparr>, \<lparr>ce_key = [44], ce_value = CS_INT 1, ce_dirty = False\<rparr>] \<and>
   config_store_get_string \<lparr>cs_json = Some json_ab, cs_json_size = 15, cs_entries = [], cs_health = 0, cs_ready = False,
     cs_hook = None, cs_dev = ()\<rparr> [97] [] = [120, 34, 44, 34, 98, 34, 58, 49, 125]"
  by (simp add: factory_loop.simps json_ab_def str_chr_def skip_ws_def factory_entry_def factory_type_def factory_value_def
      add_entry_def set_last_def atoi_def Let_def config_store_get_string_def cs_lookup_def find_json_value_def)

subsection \<open>Witnesses\<close>

record ram_store =
  rs_flag :: u8
  rs_a :: "u8 list"
  rs_b :: "u8 list"

definition ram_blob :: "ram_store \<Rightarrow> u8 \<Rightarrow> u8 list" where
  "ram_blob d slot = (if slot = 0 then rs_a d else if slot = 1 then rs_b d else [])"

definition ram_storage :: "ram_store storage_ops" where
  "ram_storage = \<lparr>st_init = (\<lambda>d. (0, d)), st_read_flag = (\<lambda>d. (0, Some (rs_flag d), d)), st_write_flag = (\<lambda>f d. (0, d\<lparr>rs_flag := f\<rparr>)),
     st_read_blob = (\<lambda>slot cap d. if length (ram_blob d slot) \<le> cap then (0, ram_blob d slot, d) else (- 4, [], d)),
     st_write_blob = (\<lambda>slot b d. if slot = 0 then (0, d\<lparr>rs_a := b\<rparr>) else if slot = 1 then (0, d\<lparr>rs_b := b\<rparr>) else (- 1, d)),
     st_erase_all = (\<lambda>d. (0, \<lparr>rs_flag = 0xFF, rs_a = [], rs_b = []\<rparr>))\<rparr>"

lemma ram_works: "ab_works ram_storage ram_blob rs_flag"
  by (auto simp: ab_works_def ab_frame_def ram_storage_def ram_blob_def fun_eq_iff split: if_splits)

text \<open>A store with the source \<^verbatim>\<open>{"a":1}\<close>.\<close>

definition ram_config :: "cs_entry list \<Rightarrow> ram_store \<Rightarrow> ram_store config_store" where
  "ram_config es d = \<lparr>cs_json = Some [123, 34, 97, 34, 58, 49, 125], cs_json_size = 7, cs_entries = es, cs_health = 0,
     cs_ready = True, cs_hook = None, cs_dev = d\<rparr>"

definition entry_a :: "u32 \<Rightarrow> bool \<Rightarrow> cs_entry" where
  "entry_a v dirty = \<lparr>ce_key = [97], ce_value = CS_INT v, ce_dirty = dirty\<rparr>"

lemma ram_factory: "factory_loop (\<lambda>_. 0) [123, 34, 97, 34, 58, 49, 125] 7 0 [] = Some [entry_a 1 False]"
  by (simp add: factory_loop.simps str_chr_def skip_ws_def factory_entry_def factory_type_def factory_value_def
      add_entry_def set_last_def atoi_def Let_def entry_a_def)

lemma entry_a_table: "table_ok [entry_a v x]"
  by (simp add: table_ok_def entry_ok_def entry_a_def)


lemma ram_commit:
  "\<exists>s1. config_store_commit ram_storage (ram_config [entry_a 5 True] \<lparr>rs_flag = 0xFF, rs_a = [], rs_b = []\<rparr>) = Some (MINI_OK, s1) \<and>
     cs_dev s1 = \<lparr>rs_flag = 0xA0, rs_a = table_blob [entry_a 5 True], rs_b = []\<rparr>"
  using serialize_eq [OF entry_a_table, of 4096 5 True] serialize_eq [OF entry_a_table, of 4092 5 True] table_bytes_len [OF entry_a_table, of 5 True]
  by (simp add: config_store_commit_def save_to_storage_def read_slot_flag_def write_slot_flag_def ram_config_def ram_storage_def
      ram_blob_def table_blob_def Let_def slot_flag_def)



theorem config_both_corrupt_witness:
  "\<exists>t'. config_store_init (\<lambda>_. 0) ram_storage (ram_config [] \<lparr>rs_flag = 0xA0, rs_a = [1, 0, 0, 0, 0, 0], rs_b = [1, 0, 0, 0, 0, 0]\<rparr>) =
      Some (MINI_OK, t') \<and> config_store_health t' = 1"
proof -
  let ?t = "ram_config [] \<lparr>rs_flag = 0xA0, rs_a = [1, 0, 0, 0, 0, 0], rs_b = [1, 0, 0, 0, 0, 0]\<rparr>"
  have "crc32_le 0 [0, 0] = 0" by (simp add: crc32_le_def crc32_table_def)
  then have "\<not> blob_valid [1, 0, 0, 0, 0, 0]" by (simp add: blob_valid_def rd32_def)
  then show ?thesis
    using config_both_corrupt [OF ram_works, of ?t "[123, 34, 97, 34, 58, 49, 125]" "\<lambda>_. 0" "[entry_a 1 False]"] ram_factory
    by (auto simp: ram_config_def ram_blob_def)
qed

theorem config_set_get_witness:
  "config_store_get_int (snd (config_store_set_int (ram_config [] \<lparr>rs_flag = 0xFF, rs_a = [], rs_b = []\<rparr>) [98] 9)) [98] 0 = Some 9"
proof -
  let ?s = "ram_config [] \<lparr>rs_flag = 0xFF, rs_a = [], rs_b = []\<rparr>"
  have "fst (config_store_set_int ?s [98] 9) = MINI_OK"
    by (simp add: config_store_set_int_def cs_set_def add_entry_def ram_config_def)
  then obtain s' where "config_store_set_int ?s [98] 9 = (MINI_OK, s')" by (metis prod.collapse)
  with config_set_get [of "[98]" ?s 0 False "\<lambda>_. 0" "[]"] show ?thesis by simp
qed

end
