(* ===== verification/Slot.thy ===== *)
theory Slot
  imports Status
begin

text \<open>
  \<^verbatim>\<open>core/src/mini_slot.c\<close>: an allocator of indices over a byte map provided by the caller. Every function
  works on the map inside one critical section, so concurrent calls are a sequence of whole calls.
\<close>

record mini_slot =
  sl_used :: "u8 list option"
  sl_count :: nat

definition mini_slot_init :: "mini_slot option \<Rightarrow> u8 list option \<Rightarrow> nat \<Rightarrow> (int \<times> mini_slot option) option" where
  "mini_slot_init pool used_slots slot_count =
     (case (pool, used_slots) of
        (Some p, Some u) \<Rightarrow>
          if slot_count = 0 then Some (MINI_ERR_INVAL, pool)
          else if length u < slot_count then None
          else Some (MINI_OK, Some (p\<lparr>sl_used := Some (replicate slot_count 0 @ drop slot_count u), sl_count := slot_count\<rparr>))
      | _ \<Rightarrow> Some (MINI_ERR_INVAL, pool))"

fun claim_loop :: "nat \<Rightarrow> u8 list \<Rightarrow> nat \<Rightarrow> (int \<times> u8 list) option" where
  "claim_loop 0 u i = Some (- 1, u)"
| "claim_loop (Suc n) u i =
     (if length u \<le> i then None
      else if u ! i = 0 then Some (int i, u[i := 1])
      else claim_loop n u (i + 1))"

definition mini_slot_claim :: "mini_slot option \<Rightarrow> (int \<times> mini_slot option) option" where
  "mini_slot_claim pool =
     (case pool of
        None \<Rightarrow> Some (MINI_ERR_INVAL, pool)
      | Some p \<Rightarrow>
          (case sl_used p of
             None \<Rightarrow> Some (MINI_ERR_INVAL, pool)
           | Some u \<Rightarrow>
               if sl_count p = 0 then Some (MINI_ERR_INVAL, pool)
               else do { (i, u') \<leftarrow> claim_loop (sl_count p) u 0; Some (i, Some (p\<lparr>sl_used := Some u'\<rparr>)) }))"

definition mini_slot_release :: "mini_slot option \<Rightarrow> int \<Rightarrow> (int \<times> mini_slot option) option" where
  "mini_slot_release pool slot_index =
     (case pool of
        None \<Rightarrow> Some (MINI_ERR_INVAL, pool)
      | Some p \<Rightarrow>
          (case sl_used p of
             None \<Rightarrow> Some (MINI_ERR_INVAL, pool)
           | Some u \<Rightarrow>
               if slot_index < 0 \<or> sl_count p \<le> nat slot_index then Some (MINI_ERR_INVAL, pool)
               else if length u \<le> nat slot_index then None
               else Some (MINI_OK, Some (p\<lparr>sl_used := Some (u[nat slot_index := 0])\<rparr>))))"

definition mini_slot_is_used :: "mini_slot option \<Rightarrow> int \<Rightarrow> bool option" where
  "mini_slot_is_used pool slot_index =
     (case pool of
        None \<Rightarrow> Some False
      | Some p \<Rightarrow>
          (case sl_used p of
             None \<Rightarrow> Some False
           | Some u \<Rightarrow>
               if slot_index < 0 \<or> sl_count p \<le> nat slot_index then Some False
               else if length u \<le> nat slot_index then None
               else Some (u ! nat slot_index \<noteq> 0)))"

subsection \<open>The contract of an index pool\<close>

datatype pool_op = Claim | Release nat

text \<open>A run keeps the list of the indices handed out and not yet released.\<close>

fun pool_run :: "('p \<Rightarrow> int \<times> 'p) \<Rightarrow> ('p \<Rightarrow> nat \<Rightarrow> 'p) \<Rightarrow> ('p \<Rightarrow> nat) \<Rightarrow> 'p \<Rightarrow> nat list \<Rightarrow> pool_op list \<Rightarrow> 'p \<times> nat list" where
  "pool_run claim release cap p outs [] = (p, outs)"
| "pool_run claim release cap p outs (Claim # ops) =
     (let (i, p') = claim p in pool_run claim release cap p' (if i < 0 then outs else nat i # outs) ops)"
| "pool_run claim release cap p outs (Release i # ops) =
     (if i < cap p then pool_run claim release cap (release p i) (removeAll i outs) ops else pool_run claim release cap p outs ops)"

locale index_pool =
  fixes pinv :: "'p \<Rightarrow> bool" and held :: "'p \<Rightarrow> nat set" and cap :: "'p \<Rightarrow> nat"
    and claim :: "'p \<Rightarrow> int \<times> 'p" and release :: "'p \<Rightarrow> nat \<Rightarrow> 'p"
  assumes held_bound: "pinv p \<Longrightarrow> held p \<subseteq> {..<cap p}"
    and claim_law: "pinv p \<Longrightarrow> claim p = (i, p') \<Longrightarrow> pinv p' \<and> cap p' = cap p \<and>
      (if held p = {..<cap p} then i < 0 \<and> held p' = held p
       else 0 \<le> i \<and> nat i < cap p \<and> nat i \<notin> held p \<and> held p' = insert (nat i) (held p))"
    and release_law: "pinv p \<Longrightarrow> k < cap p \<Longrightarrow> pinv (release p k) \<and> cap (release p k) = cap p \<and> held (release p k) = held p - {k}"
begin

lemma run_distinct:
  "pinv p \<Longrightarrow> distinct outs \<Longrightarrow> set outs = held p \<Longrightarrow> pool_run claim release cap p outs ops = (p', outs') \<Longrightarrow>
   pinv p' \<and> cap p' = cap p \<and> distinct outs' \<and> set outs' = held p' \<and> length outs' \<le> cap p"
proof (induction ops arbitrary: p outs)
  case Nil
  then have "card (set outs) \<le> card {..<cap p}" using held_bound by (intro card_mono) auto
  then have "length outs \<le> cap p" using Nil(2) distinct_card by fastforce
  with Nil show ?case by simp
next
  case (Cons op ops)
  show ?case
  proof (cases op)
    case Claim
    obtain i p1 where c: "claim p = (i, p1)" by fastforce
    note l = claim_law [OF Cons.prems(1) c]
    have "distinct (if i < 0 then outs else nat i # outs)" "set (if i < 0 then outs else nat i # outs) = held p1"
      using l Cons.prems(2,3) by (auto split: if_splits)
    with Cons.IH [of p1 "if i < 0 then outs else nat i # outs"] l Cons.prems(4) Claim c show ?thesis by simp
  next
    case (Release i)
    show ?thesis
    proof (cases "i < cap p")
      case True
      note l = release_law [OF Cons.prems(1) True]
      have "distinct (removeAll i outs)" "set (removeAll i outs) = held (release p i)"
        using l Cons.prems(2,3) by (simp_all add: distinct_removeAll)
      with Cons.IH [of "release p i" "removeAll i outs"] l Cons.prems(4) True Release show ?thesis by simp
    next
      case False
      with Cons Release show ?thesis by simp
    qed
  qed
qed

end

subsection \<open>The pool of the code\<close>

definition slot_inv :: "mini_slot \<Rightarrow> bool" where
  "slot_inv p \<longleftrightarrow> (\<exists>u. sl_used p = Some u \<and> sl_count p \<le> length u) \<and> 0 < sl_count p \<and> sl_count p < 2 ^ 31"

definition slot_held :: "mini_slot \<Rightarrow> nat set" where
  "slot_held p = {i. i < sl_count p \<and> the (sl_used p) ! i \<noteq> 0}"

definition slot_claim :: "mini_slot \<Rightarrow> int \<times> mini_slot" where
  "slot_claim p = (case mini_slot_claim (Some p) of Some (i, Some p') \<Rightarrow> (i, p') | _ \<Rightarrow> (MINI_ERR_INVAL, p))"

definition slot_release :: "mini_slot \<Rightarrow> nat \<Rightarrow> mini_slot" where
  "slot_release p i = (case mini_slot_release (Some p) (int i) of Some (_, Some p') \<Rightarrow> p' | _ \<Rightarrow> p)"

lemma claim_loop_first:
  "i + n \<le> length u \<Longrightarrow>
   (if \<forall>j. i \<le> j \<and> j < i + n \<longrightarrow> u ! j \<noteq> 0 then claim_loop n u i = Some (- 1, u)
    else \<exists>k. i \<le> k \<and> k < i + n \<and> u ! k = 0 \<and> claim_loop n u i = Some (int k, u[k := 1]))"
proof (induction n arbitrary: i)
  case (Suc n)
  show ?case
  proof (cases "u ! i = 0")
    case True
    with Suc.prems show ?thesis by (auto intro!: exI [of _ i])
  next
    case False
    then have eq: "claim_loop (Suc n) u i = claim_loop n u (Suc i)" using Suc.prems by simp
    have all: "(\<forall>j. i \<le> j \<and> j < i + Suc n \<longrightarrow> u ! j \<noteq> 0) \<longleftrightarrow> (\<forall>j. Suc i \<le> j \<and> j < Suc i + n \<longrightarrow> u ! j \<noteq> 0)"
      using False by (auto simp: le_Suc_eq) (metis Suc_leI le_neq_implies_less)
    have "Suc i + n \<le> length u" using Suc.prems by simp
    from Suc.IH [OF this] eq all show ?thesis by (fastforce split: if_splits)
  qed
qed simp

interpretation ip: index_pool slot_inv slot_held sl_count slot_claim slot_release
proof (unfold_locales, goal_cases)
  case (1 p)
  then show ?case by (auto simp: slot_held_def)
next
  case (2 p i p')
  obtain u where u: "sl_used p = Some u" "sl_count p \<le> length u" "sl_count p \<noteq> 0" using 2(1) by (auto simp: slot_inv_def)
  show ?case
  proof (cases "\<forall>j. j < sl_count p \<longrightarrow> u ! j \<noteq> 0")
    case True
    then have "claim_loop (sl_count p) u 0 = Some (- 1, u)" using claim_loop_first [of 0 "sl_count p" u] u by simp
    then have "slot_claim p = (- 1, p\<lparr>sl_used := Some u\<rparr>)" using u by (simp add: slot_claim_def mini_slot_claim_def)
    moreover have "slot_held p = {..<sl_count p}" using True u by (auto simp: slot_held_def)
    ultimately show ?thesis using 2 u by (auto simp: slot_inv_def slot_held_def)
  next
    case False
    then obtain k where k: "k < sl_count p" "u ! k = 0" "claim_loop (sl_count p) u 0 = Some (int k, u[k := 1])"
      using claim_loop_first [of 0 "sl_count p" u] u by (auto split: if_splits)
    then have "slot_claim p = (int k, p\<lparr>sl_used := Some (u[k := 1])\<rparr>)" using u by (simp add: slot_claim_def mini_slot_claim_def)
    moreover have "slot_held p \<noteq> {..<sl_count p}" using k u by (auto simp: slot_held_def)
    ultimately show ?thesis using 2 u k by (auto simp: slot_inv_def slot_held_def nth_list_update split: if_splits)
  qed
next
  case (3 p i)
  obtain u where u: "sl_used p = Some u" "sl_count p \<le> length u" "sl_count p \<noteq> 0" using 3(1) by (auto simp: slot_inv_def)
  then have "slot_release p i = p\<lparr>sl_used := Some (u[i := 0])\<rparr>" using 3(2) by (simp add: slot_release_def mini_slot_release_def)
  with 3 u show ?case by (auto simp: slot_inv_def slot_held_def nth_list_update split: if_splits)
qed

text \<open>
  C20. In every sequence of claims and releases on an initialised pool the outstanding indices are distinct, lie in
  range and are exactly the slots marked used.
\<close>

theorem mini_slot_trace:
  assumes "mini_slot_init (Some p0) (Some u) n = Some (MINI_OK, Some p)" "n < 2 ^ 31" "pool_run slot_claim slot_release sl_count p [] ops = (p', outs)"
  shows "distinct outs \<and> length outs \<le> n \<and> (\<forall>i. i \<in> set outs \<longleftrightarrow> i < n \<and> mini_slot_is_used (Some p') (int i) = Some True)"
proof -
  have p: "slot_inv p" "slot_held p = {}" "sl_count p = n"
    using assms(1,2) by (auto simp: mini_slot_init_def slot_inv_def slot_held_def nth_append split: if_splits)
  have r: "slot_inv p' \<and> sl_count p' = sl_count p \<and> distinct outs \<and> set outs = slot_held p' \<and> length outs \<le> sl_count p"
    by (rule ip.run_distinct [OF p(1) _ _ assms(3)]) (use p(2) in simp_all)
  moreover have "mini_slot_is_used (Some p') (int i) = Some True \<longleftrightarrow> i \<in> slot_held p'" if "i < sl_count p'" for i
  proof -
    obtain v where "sl_used p' = Some v" "sl_count p' \<le> length v" using r by (auto simp: slot_inv_def)
    with that show ?thesis by (simp add: mini_slot_is_used_def slot_held_def)
  qed
  ultimately show ?thesis using p(3) by (auto simp: slot_held_def)
qed

theorem mini_slot_trace_witness:
  "\<exists>p p'. mini_slot_init (Some \<lparr>sl_used = None, sl_count = 0\<rparr>) (Some [7, 7]) 2 = Some (MINI_OK, Some p) \<and>
    pool_run slot_claim slot_release sl_count p [] [Claim, Claim, Claim, Release 0, Claim] = (p', [0, 1]) \<and> mini_slot_is_used (Some p') 1 = Some True"
proof -
  let ?p = "\<lparr>sl_used = Some [0, 0], sl_count = 2\<rparr>"
  have i: "mini_slot_init (Some \<lparr>sl_used = None, sl_count = 0\<rparr>) (Some [7, 7]) 2 = Some (MINI_OK, Some ?p)"
    by code_simp
  have r: "pool_run slot_claim slot_release sl_count ?p [] [Claim, Claim, Claim, Release 0, Claim] = (\<lparr>sl_used = Some [1, 1], sl_count = 2\<rparr>, [0, 1])"
    by code_simp
  have lt: "(2 :: nat) < 2 ^ 31" by simp
  have "mini_slot_is_used (Some \<lparr>sl_used = Some [1, 1], sl_count = 2\<rparr>) (int 1) = Some True"
    using mini_slot_trace [OF i lt r, THEN conjunct2, THEN conjunct2, THEN spec, of 1] by simp
  with i r show ?thesis by (metis of_nat_1)
qed

end
