(* ===== verification/Item_Queue.thy ===== *)
theory Item_Queue
  imports MT_Prelude
begin

text \<open>
  The contract of the item queues of \<^verbatim>\<open>core/include/mini_backend.h\<close>, which every backend provides and the event bus
  relies on: the state of a backend represents a list of items, a send appends unless the list is full, a receive takes
  the oldest item. A call that leaves the defined behaviour of C is \<open>None\<close>; the contract rules it out.
\<close>

datatype 'i queue_op = Send 'i | Recv

datatype 'i queue_out = Sent bool | Got "'i option"

fun queue_run :: "('q \<Rightarrow> 'i \<Rightarrow> (bool \<times> 'q) option) \<Rightarrow> ('q \<Rightarrow> ('i option \<times> 'q) option) \<Rightarrow> 'q \<Rightarrow> 'i queue_op list \<Rightarrow>
    ('q \<times> 'i queue_out list) option" where
  "queue_run send recv q [] = Some (q, [])"
| "queue_run send recv q (Send i # ops) =
     do { (b, q) \<leftarrow> send q i; (q, outs) \<leftarrow> queue_run send recv q ops; Some (q, Sent b # outs) }"
| "queue_run send recv q (Recv # ops) =
     do { (r, q) \<leftarrow> recv q; (q, outs) \<leftarrow> queue_run send recv q ops; Some (q, Got r # outs) }"

text \<open>The reference: a list that holds at most \<open>cap\<close> items.\<close>

fun queue_spec :: "nat \<Rightarrow> 'i list \<Rightarrow> 'i queue_op list \<Rightarrow> 'i list \<times> 'i queue_out list" where
  "queue_spec cap xs [] = (xs, [])"
| "queue_spec cap xs (Send i # ops) =
     (let b = length xs < cap; (ys, outs) = queue_spec cap (if b then xs @ [i] else xs) ops in (ys, Sent b # outs))"
| "queue_spec cap [] (Recv # ops) = (let (ys, outs) = queue_spec cap [] ops in (ys, Got None # outs))"
| "queue_spec cap (x # xs) (Recv # ops) = (let (ys, outs) = queue_spec cap xs ops in (ys, Got (Some x) # outs))"

locale item_queue =
  fixes holds :: "'q \<Rightarrow> 'i list \<Rightarrow> bool" and cap :: nat and item_ok :: "'i \<Rightarrow> bool"
    and send :: "'q \<Rightarrow> 'i \<Rightarrow> (bool \<times> 'q) option" and recv :: "'q \<Rightarrow> ('i option \<times> 'q) option"
  assumes bounded: "holds q xs \<Longrightarrow> length xs \<le> cap"
    and send_law: "holds q xs \<Longrightarrow> item_ok i \<Longrightarrow>
      \<exists>q'. send q i = Some (length xs < cap, q') \<and> holds q' (if length xs < cap then xs @ [i] else xs)"
    and recv_empty: "holds q [] \<Longrightarrow> \<exists>q'. recv q = Some (None, q') \<and> holds q' []"
    and recv_law: "holds q (x # xs) \<Longrightarrow> \<exists>q'. recv q = Some (Some x, q') \<and> holds q' xs"
begin

lemma run_spec:
  "holds q xs \<Longrightarrow> (\<forall>i. Send i \<in> set ops \<longrightarrow> item_ok i) \<Longrightarrow>
   \<exists>q'. queue_run send recv q ops = Some (q', snd (queue_spec cap xs ops)) \<and> holds q' (fst (queue_spec cap xs ops))"
proof (induction ops arbitrary: q xs)
  case (Cons op ops)
  show ?case
  proof (cases op)
    case (Send i)
    obtain q1 where q1: "send q i = Some (length xs < cap, q1)" "holds q1 (if length xs < cap then xs @ [i] else xs)"
      using send_law [OF Cons.prems(1), of i] Cons.prems(2) Send by auto
    show ?thesis using Cons.IH [OF q1(2)] Cons.prems(2) q1(1) Send by (auto simp: Let_def split: prod.splits)
  next
    case Recv
    show ?thesis
    proof (cases xs)
      case Nil
      obtain q1 where q1: "recv q = Some (None, q1)" "holds q1 []" using recv_empty Cons.prems(1) Nil by blast
      show ?thesis using Cons.IH [OF q1(2)] Cons.prems(2) q1(1) Recv Nil by (auto split: prod.splits)
    next
      case (Cons x ys)
      obtain q1 where q1: "recv q = Some (Some x, q1)" "holds q1 ys" using recv_law Cons.prems(1) Cons by blast
      show ?thesis using Cons.IH [OF q1(2)] Cons.prems(2) q1(1) Recv Cons by (auto split: prod.splits)
    qed
  qed
qed simp

end

end
