(* ===== verification/Bare_Backend.thy ===== *)
theory Bare_Backend
  imports Fifo Slot Item_Queue
begin

text \<open>
  \<^verbatim>\<open>core/src/mini_backend_bare.c\<close>, the backend without an operating system, on one core: busy-waiting
  mutexes, and queues of fixed-size items over a static pool of \<^verbatim>\<open>fifo_spsc\<close> rings. A busy-waiting loop
  sees the states and times that interrupts leave at its successive polls: they are a list argument, and a
  loop that is still waiting at the end of the list returns \<open>None\<close>.
\<close>

definition MINI_WAIT_FOREVER :: u32 where "MINI_WAIT_FOREVER = 0xFFFFFFFF"
definition MINI_BARE_QUEUE_ELEM_COUNT :: nat where "MINI_BARE_QUEUE_ELEM_COUNT = 512"
definition MINI_MUTEX_STORAGE_SIZE :: nat where "MINI_MUTEX_STORAGE_SIZE = 128"

lemmas bare_consts [simp] = MINI_BARE_QUEUE_ELEM_COUNT_def

subsection \<open>Mutexes\<close>

datatype mini_mutex_type = MINI_MUTEX_RECURSIVE | MINI_MUTEX_PLAIN

record mini_mutex =
  mm_type :: mini_mutex_type
  mm_lock :: u32
  mm_depth :: u32

definition mini_mutex_init :: "mini_mutex option \<Rightarrow> mini_mutex_type \<Rightarrow> int \<times> mini_mutex option" where
  "mini_mutex_init mutex type =
     (case mutex of None \<Rightarrow> (MINI_ERR_INVAL, None) | Some m \<Rightarrow> (MINI_OK, Some \<lparr>mm_type = type, mm_lock = 0, mm_depth = 0\<rparr>))"

definition mini_mutex_try_acquire :: "mini_mutex \<Rightarrow> int \<times> mini_mutex" where
  "mini_mutex_try_acquire m =
     (if mm_lock m = 0 then (MINI_OK, m\<lparr>mm_lock := 1, mm_depth := 1\<rparr>)
      else if mm_type m = MINI_MUTEX_RECURSIVE \<and> 0 < mm_depth m then (MINI_OK, m\<lparr>mm_depth := mm_depth m + 1\<rparr>)
      else (MINI_ERR_BUSY, m))"

text \<open>The storage is the object; \<open>None\<close> is a null pointer, the number its size in bytes.\<close>

definition mini_mutex_create_static_typed ::
    "bool \<Rightarrow> bool \<Rightarrow> mini_mutex option \<Rightarrow> nat \<Rightarrow> mini_mutex_type \<Rightarrow> int \<times> mini_mutex option" where
  "mini_mutex_create_static_typed in_isr has_out storage n type =
     (if \<not> has_out \<or> storage = None \<or> n < 12 then (MINI_ERR_INVAL, storage)
      else if in_isr then (MINI_ERR_ISR, storage)
      else mini_mutex_init storage type)"

definition mini_mutex_create_static :: "bool \<Rightarrow> bool \<Rightarrow> mini_mutex option \<Rightarrow> nat \<Rightarrow> int \<times> mini_mutex option" where
  "mini_mutex_create_static in_isr has_out storage n = mini_mutex_create_static_typed in_isr has_out storage n MINI_MUTEX_PLAIN"

definition mini_mutex_create_static_recursive :: "bool \<Rightarrow> bool \<Rightarrow> mini_mutex option \<Rightarrow> nat \<Rightarrow> int \<times> mini_mutex option" where
  "mini_mutex_create_static_recursive in_isr has_out storage n =
     mini_mutex_create_static_typed in_isr has_out storage n MINI_MUTEX_RECURSIVE"

text \<open>Each poll gives the mutex as an attempt finds it and the time read after the attempt.\<close>

fun mutex_wait :: "u32 \<Rightarrow> u32 \<Rightarrow> (mini_mutex \<times> u32) list \<Rightarrow> (int \<times> mini_mutex) option" where
  "mutex_wait timeout start [] = None"
| "mutex_wait timeout start ((m, now) # polls) =
     (let (r, m') = mini_mutex_try_acquire m in
      if r = MINI_OK then Some (MINI_OK, m')
      else if timeout \<noteq> MINI_WAIT_FOREVER \<and> timeout \<le> now - start then Some (MINI_ERR_TIMEOUT, m')
      else mutex_wait timeout start polls)"

definition mini_mutex_lock ::
    "bool \<Rightarrow> mini_mutex option \<Rightarrow> u32 \<Rightarrow> u32 \<Rightarrow> (mini_mutex \<times> u32) list \<Rightarrow> (int \<times> mini_mutex option) option" where
  "mini_mutex_lock in_isr mtx timeout now polls =
     (case mtx of
        None \<Rightarrow> Some (MINI_ERR_INVAL, None)
      | Some m \<Rightarrow>
          if in_isr then Some (MINI_ERR_ISR, mtx)
          else
            let (r, m') = mini_mutex_try_acquire m in
            if r = MINI_OK then Some (MINI_OK, Some m')
            else if timeout = 0 then Some (MINI_ERR_TIMEOUT, Some m')
            else do { (r, m'') \<leftarrow> mutex_wait timeout (if timeout = MINI_WAIT_FOREVER then 0 else now) polls; Some (r, Some m'') })"

definition mini_mutex_unlock :: "bool \<Rightarrow> mini_mutex option \<Rightarrow> int \<times> mini_mutex option" where
  "mini_mutex_unlock in_isr mtx =
     (case mtx of
        None \<Rightarrow> (MINI_ERR_INVAL, None)
      | Some m \<Rightarrow>
          if in_isr then (MINI_ERR_ISR, mtx)
          else if mm_depth m = 0 then (MINI_ERR_IO, mtx)
          else if 1 < mm_depth m then (MINI_OK, Some (m\<lparr>mm_depth := mm_depth m - 1\<rparr>))
          else (MINI_OK, Some (m\<lparr>mm_depth := 0, mm_lock := 0\<rparr>)))"

definition mini_mutex_destroy :: "bool \<Rightarrow> mini_mutex option \<Rightarrow> mini_mutex option" where
  "mini_mutex_destroy in_isr mtx =
     (case mtx of None \<Rightarrow> None | Some m \<Rightarrow> if in_isr then mtx else Some (m\<lparr>mm_lock := 0, mm_depth := 0\<rparr>))"

subsection \<open>Queues\<close>

record mini_queue =
  mq_fifo :: fifo_spsc
  mq_elements_per_item :: nat

record queue_pool =
  qp_queues :: "mini_queue list"
  qp_ctrl :: mini_slot

definition mini_queue_pool_boot :: "mini_queue list \<Rightarrow> mini_slot \<Rightarrow> u8 list \<Rightarrow> queue_pool option" where
  "mini_queue_pool_boot queues ctrl used =
     do { (_, c) \<leftarrow> mini_slot_init (Some ctrl) (Some used) (length queues);
          Some \<lparr>qp_queues = queues, qp_ctrl = (case c of Some c' \<Rightarrow> c' | None \<Rightarrow> ctrl)\<rparr> }"

text \<open>A handle is the position of the object relative to the array of queues.\<close>

definition mini_queue_index_of :: "queue_pool \<Rightarrow> int option \<Rightarrow> int option" where
  "mini_queue_index_of s queue =
     (case queue of
        None \<Rightarrow> Some (- 1)
      | Some idx \<Rightarrow>
          if idx < 0 \<or> int (length (qp_queues s)) \<le> idx then Some (- 1)
          else do { u \<leftarrow> sl_used (qp_ctrl s); v \<leftarrow> arr_get u (nat idx); Some (if v = 0 then - 1 else idx) })"

text \<open>A failed check with \<open>MINI_TRAP\<close> does not return.\<close>

definition mini_queue_create :: "queue_pool \<Rightarrow> nat \<Rightarrow> nat \<Rightarrow> (int option \<times> queue_pool) option" where
  "mini_queue_create s queue_len item_size =
     (if queue_len = 0 \<or> item_size = 0 then Some (None, s)
      else if queue_len AND (queue_len - 1) \<noteq> 0 then None
      else if item_size mod 4 \<noteq> 0 then Some (None, s)
      else
        let epi = item_size div 4; total = sz_mul queue_len epi in
        if total \<noteq> 0 \<and> total AND (total - 1) \<noteq> 0 then None
        else if MINI_BARE_QUEUE_ELEM_COUNT < total then Some (None, s)
        else do {
          (idx, c) \<leftarrow> mini_slot_claim (Some (qp_ctrl s)); c \<leftarrow> c;
          if idx < 0 then Some (None, s\<lparr>qp_ctrl := c\<rparr>)
          else do {
            q \<leftarrow> arr_get (qp_queues s) (nat idx);
            let (r, f) = fifo_init (Some (mq_fifo q)) (Some (fifo_buf (mq_fifo q))) (of_nat total);
            if r \<noteq> BUFF_OK then do {
              (_, c) \<leftarrow> mini_slot_release (Some c) idx; c \<leftarrow> c;
              Some (None, s\<lparr>qp_ctrl := c, qp_queues := (qp_queues s)[nat idx := q\<lparr>mq_elements_per_item := epi\<rparr>]\<rparr>)
            }
            else do {
              f \<leftarrow> f;
              Some (Some idx, \<lparr>qp_queues = (qp_queues s)[nat idx := \<lparr>mq_fifo = f, mq_elements_per_item = epi\<rparr>], qp_ctrl = c\<rparr>)
            }
          }
        })"

definition mini_queue_delete :: "queue_pool \<Rightarrow> int option \<Rightarrow> queue_pool option" where
  "mini_queue_delete s queue =
     do {
       idx \<leftarrow> mini_queue_index_of s queue;
       if idx < 0 then Some s
       else do { (_, c) \<leftarrow> mini_slot_release (Some (qp_ctrl s)) idx; c \<leftarrow> c; Some (s\<lparr>qp_ctrl := c\<rparr>) }
     }"

definition mini_queue_send_internal :: "queue_pool \<Rightarrow> int option \<Rightarrow> uintptr list option \<Rightarrow> (bool \<times> queue_pool) option" where
  "mini_queue_send_internal s queue item =
     do {
       idx \<leftarrow> mini_queue_index_of s queue;
       if idx < 0 \<or> item = None then Some (False, s)
       else do {
         q \<leftarrow> arr_get (qp_queues s) (nat idx);
         let epi = (of_nat (mq_elements_per_item q) :: u16);
         count \<leftarrow> snd (fifo_get_count (Some (mq_fifo q)) (Some 0));
         if fifo_size (mq_fifo q) - count < epi then Some (False, s)
         else do {
           (r, f, written) \<leftarrow> fifo_write_block (Some (mq_fifo q)) item epi;
           f \<leftarrow> f;
           Some (r = BUFF_OK \<and> written = epi, s\<lparr>qp_queues := (qp_queues s)[nat idx := q\<lparr>mq_fifo := f\<rparr>]\<rparr>)
         }
       }
     }"

definition mini_queue_send :: "bool \<Rightarrow> queue_pool \<Rightarrow> int option \<Rightarrow> uintptr list option \<Rightarrow> (bool \<times> queue_pool) option" where
  "mini_queue_send in_isr s queue item = (if in_isr then Some (False, s) else mini_queue_send_internal s queue item)"

definition mini_queue_send_from_isr :: "queue_pool \<Rightarrow> int option \<Rightarrow> uintptr list option \<Rightarrow> (bool \<times> queue_pool) option" where
  "mini_queue_send_from_isr s queue item = mini_queue_send_internal s queue item"

definition queue_count :: "queue_pool \<Rightarrow> int \<Rightarrow> u16 option" where
  "queue_count s idx = do { q \<leftarrow> arr_get (qp_queues s) (nat idx); snd (fifo_get_count (Some (mq_fifo q)) (Some 0)) }"

text \<open>The last step of a receive: take one item if there is one. The buffer is the caller's.\<close>

definition queue_take :: "queue_pool \<Rightarrow> int \<Rightarrow> uintptr list \<Rightarrow> (bool \<times> uintptr list \<times> queue_pool) option" where
  "queue_take s idx item =
     do {
       q \<leftarrow> arr_get (qp_queues s) (nat idx);
       let epi = (of_nat (mq_elements_per_item q) :: u16);
       count \<leftarrow> queue_count s idx;
       if count < epi then Some (False, item, s)
       else do {
         (r, f, d, rd) \<leftarrow> fifo_read_block (Some (mq_fifo q)) (Some item) epi;
         f \<leftarrow> f; d \<leftarrow> d;
         Some (r = BUFF_OK \<and> rd = epi, d, s\<lparr>qp_queues := (qp_queues s)[nat idx := q\<lparr>mq_fifo := f\<rparr>]\<rparr>)
       }
     }"

text \<open>The wait of a receive: the first poll is the present state, each later one what producers have left.\<close>

fun queue_wait :: "int \<Rightarrow> u16 \<Rightarrow> u32 \<Rightarrow> u32 \<Rightarrow> queue_pool \<Rightarrow> (u32 \<times> queue_pool) list \<Rightarrow> (bool \<times> queue_pool) option" where
  "queue_wait idx epi timeout start s polls =
     do {
       count \<leftarrow> queue_count s idx;
       if \<not> count < epi then Some (True, s)
       else (case polls of
               [] \<Rightarrow> None
             | (now, s') # ps \<Rightarrow>
                 if timeout \<noteq> MINI_WAIT_FOREVER \<and> timeout \<le> now - start then Some (False, s)
                 else queue_wait idx epi timeout start s' ps)
     }"

declare queue_wait.simps [simp del]

definition mini_queue_receive ::
    "bool \<Rightarrow> queue_pool \<Rightarrow> int option \<Rightarrow> uintptr list option \<Rightarrow> u32 \<Rightarrow> u32 \<Rightarrow> (u32 \<times> queue_pool) list \<Rightarrow>
     (bool \<times> uintptr list option \<times> queue_pool) option" where
  "mini_queue_receive in_isr s queue item timeout start polls =
     (if in_isr then Some (False, item, s)
      else do {
        idx \<leftarrow> mini_queue_index_of s queue;
        if idx < 0 then Some (False, item, s)
        else case item of
          None \<Rightarrow> Some (False, item, s)
        | Some dst \<Rightarrow> do {
            q \<leftarrow> arr_get (qp_queues s) (nat idx);
            (go, s) \<leftarrow> (if timeout = 0 then Some (True, s)
                        else queue_wait idx (of_nat (mq_elements_per_item q)) timeout start s polls);
            if \<not> go then Some (False, item, s)
            else do { (ok, d, s) \<leftarrow> queue_take s idx dst; Some (ok, Some d, s) }
          }
      })"

definition mini_queue_receive_from_isr ::
    "queue_pool \<Rightarrow> int option \<Rightarrow> uintptr list option \<Rightarrow> (bool \<times> uintptr list option \<times> queue_pool) option" where
  "mini_queue_receive_from_isr s queue item =
     do {
       idx \<leftarrow> mini_queue_index_of s queue;
       if idx < 0 then Some (False, item, s)
       else case item of
         None \<Rightarrow> Some (False, item, s)
       | Some dst \<Rightarrow> do { (ok, d, s) \<leftarrow> queue_take s idx dst; Some (ok, Some d, s) }
     }"

subsection \<open>Tasks and scheduler\<close>

definition mini_task_create_handle :: "bool \<Rightarrow> int \<times> nat option" where
  "mini_task_create_handle has_out = (if \<not> has_out then (MINI_ERR_INVAL, None) else (MINI_ERR_NOTSUPP, None))"

definition mini_task_is_running :: "nat option \<Rightarrow> bool" where
  "mini_task_is_running task = False"

definition mini_task_get_stack_watermark :: "nat option \<Rightarrow> u32" where
  "mini_task_get_stack_watermark task = 0"

subsection \<open>The queue contract\<close>

definition queue_holds :: "int \<Rightarrow> nat \<Rightarrow> nat \<Rightarrow> queue_pool \<Rightarrow> uintptr list list \<Rightarrow> bool" where
  "queue_holds idx len epi s items \<longleftrightarrow>
     0 \<le> idx \<and> nat idx < length (qp_queues s) \<and>
     (\<exists>u. sl_used (qp_ctrl s) = Some u \<and> nat idx < length u \<and> u ! nat idx \<noteq> 0) \<and>
     (let q = qp_queues s ! nat idx in
      fifo_inv (mq_fifo q) \<and> mq_elements_per_item q = epi \<and> 0 < epi \<and> unat (fifo_size (mq_fifo q)) = len * epi \<and>
      fifo_list (mq_fifo q) = concat items \<and> list_all (\<lambda>i. length i = epi) items)"

definition queue_send :: "int \<Rightarrow> queue_pool \<Rightarrow> uintptr list \<Rightarrow> (bool \<times> queue_pool) option" where
  "queue_send idx s item = mini_queue_send False s (Some idx) (Some item)"

definition queue_recv :: "int \<Rightarrow> nat \<Rightarrow> queue_pool \<Rightarrow> (uintptr list option \<times> queue_pool) option" where
  "queue_recv idx epi s =
     do { (ok, d, s) \<leftarrow> mini_queue_receive False s (Some idx) (Some (replicate epi 0)) 0 0 []; Some (if ok then d else None, s) }"

lemma length_concat_epi: "list_all (\<lambda>i. length i = epi) items \<Longrightarrow> length (concat items) = length items * epi"
  by (induction items) auto

lemma le_mult_pos: "0 < (e :: nat) \<Longrightarrow> e \<le> d * e \<longleftrightarrow> 0 < d"
  by (cases d) auto

lemma queue_holds_facts:
  assumes "queue_holds idx len epi s items"
  defines "q \<equiv> qp_queues s ! nat idx"
  shows "mini_queue_index_of s (Some idx) = Some idx" "arr_get (qp_queues s) (nat idx) = Some q" "0 \<le> idx"
    "fifo_inv (mq_fifo q)" "unat (of_nat epi :: u16) = epi" "mq_elements_per_item q = epi" "0 < epi"
    "length (fifo_list (mq_fifo q)) = length items * epi" "unat (fifo_size (mq_fifo q)) = len * epi" "length items \<le> len"
    "unat (fifo_w_ptr (mq_fifo q) - fifo_r_ptr (mq_fifo q)) = length items * epi"
proof -
  note h = assms(1) [unfolded queue_holds_def Let_def]
  show "mini_queue_index_of s (Some idx) = Some idx" "arr_get (qp_queues s) (nat idx) = Some q" "0 \<le> idx"
    "fifo_inv (mq_fifo q)" "mq_elements_per_item q = epi" "0 < epi" "unat (fifo_size (mq_fifo q)) = len * epi"
    using h by (auto simp: mini_queue_index_of_def q_def arr_get_def)
  show l: "length (fifo_list (mq_fifo q)) = length items * epi"
    using h length_concat_epi [of epi items] by (simp add: q_def)
  then show "unat (fifo_w_ptr (mq_fifo q) - fifo_r_ptr (mq_fifo q)) = length items * epi" by simp
  have b: "unat (fifo_size (mq_fifo q)) \<le> 32768" "length (fifo_list (mq_fifo q)) \<le> unat (fifo_size (mq_fifo q))"
    using fifo_inv_size_bound fifo_list_bounded h unfolding q_def by blast+
  have "0 < len * epi" using fifo_inv_pos h unfolding q_def by metis
  then have "epi \<le> len * epi" by simp
  moreover have "len * epi \<le> 32768" using b(1) h by (simp add: q_def)
  ultimately have "epi < 65536" by linarith
  then show "unat (of_nat epi :: u16) = epi" by (rule unat_of_nat_u16)
  show "length items \<le> len" using b(2) l h by (simp add: q_def)
qed

lemma queue_send_ok:
  assumes h: "queue_holds idx len epi s items" and i: "length item = epi"
  shows "\<exists>s'. mini_queue_send False s (Some idx) (Some item) = Some (length items < len, s') \<and>
    queue_holds idx len epi s' (if length items < len then items @ [item] else items)"
proof -
  let ?q = "qp_queues s ! nat idx"
  let ?f = "mq_fifo ?q" and ?e = "of_nat epi :: u16"
  note f = queue_holds_facts [OF h]
  have free: "unat (fifo_size ?f - (fifo_w_ptr ?f - fifo_r_ptr ?f)) = (len - length items) * epi"
    using fifo_free_len [OF f(4)] f(8,9) by (simp add: diff_mult_distrib)
  have m: "length items < len \<longleftrightarrow> epi \<le> (len - length items) * epi" by (simp only: le_mult_pos [OF f(7)] zero_less_diff)
  have room: "fifo_size ?f - (fifo_w_ptr ?f - fifo_r_ptr ?f) < ?e \<longleftrightarrow> \<not> length items < len"
    using m f(5) by (simp only: word_less_nat_alt free) linarith
  show ?thesis
  proof (cases "length items < len")
    case False
    then show ?thesis using h f(1-3,6) room
      by (simp add: mini_queue_send_def mini_queue_send_internal_def fifo_get_count_def)
  next
    case True
    have "Suc (length items) * epi \<le> len * epi" using True by (intro mult_le_mono1) simp
    then have sp: "length (fifo_list ?f) < unat (fifo_size ?f)" "epi \<le> unat (fifo_size ?f) - length (fifo_list ?f)"
      using f(7) True unfolding f(8,9) by simp_all
    have e: "?e \<noteq> 0" "unat ?e \<le> length item" using f(5,7) i by (auto simp: unat_eq_0)
    obtain f' k where w: "fifo_write_block (Some ?f) (Some item) ?e = Some (BUFF_OK, Some f', k)"
      "unat k = min (unat ?e) (unat (fifo_size ?f) - length (fifo_list ?f))" "fifo_inv f'" "fifo_size f' = fifo_size ?f"
      "fifo_list f' = fifo_list ?f @ take (unat k) item"
      by (rule fifo_write_block_ok [OF f(4) e sp(1)])
    have k: "unat k = epi" using w(2) f(5) sp(2) by simp
    then have "k = ?e" using f(5) by (simp add: word_unat_eq_iff [of k ?e])
    then have "mini_queue_send False s (Some idx) (Some item) =
        Some (True, s\<lparr>qp_queues := (qp_queues s)[nat idx := ?q\<lparr>mq_fifo := f'\<rparr>]\<rparr>)"
      using True f(1-3,6) room w(1) by (simp add: mini_queue_send_def mini_queue_send_internal_def fifo_get_count_def)
    with True h w(3-5) k i show ?thesis by (simp add: queue_holds_def Let_def)
  qed
qed

lemma queue_recv_ok:
  assumes h: "queue_holds idx len epi s items"
  shows "\<exists>s'. mini_queue_receive False s (Some idx) (Some (replicate epi 0)) 0 t [] =
      Some (items \<noteq> [], Some (case items of [] \<Rightarrow> replicate epi 0 | x # xs \<Rightarrow> x), s') \<and> queue_holds idx len epi s' (tl items)"
proof -
  let ?q = "qp_queues s ! nat idx"
  let ?f = "mq_fifo ?q" and ?e = "of_nat epi :: u16"
  note f = queue_holds_facts [OF h]
  have cnt: "fifo_w_ptr ?f - fifo_r_ptr ?f < ?e \<longleftrightarrow> items = []"
    using f(5,7,11) by (cases items) (auto simp: word_less_nat_alt)
  show ?thesis
  proof (cases items)
    case Nil
    then show ?thesis using h f(1-3,6) cnt
      by (simp add: mini_queue_receive_def queue_take_def queue_count_def fifo_get_count_def)
  next
    case (Cons x xs)
    have l: "fifo_list ?f = x @ concat xs" "length x = epi" "list_all (\<lambda>i. length i = epi) xs"
      using h Cons by (simp_all add: queue_holds_def Let_def)
    have e: "?e \<noteq> 0" "unat ?e \<le> length (replicate epi (0 :: uintptr))" "fifo_list ?f \<noteq> []" using f(5,7) l(1,2) by (auto simp: unat_eq_0)
    obtain f' k where w: "fifo_read_block (Some ?f) (Some (replicate epi 0)) ?e =
        Some (BUFF_OK, Some f', Some (take (unat ?e) (fifo_list ?f) @ drop (unat k) (replicate epi 0)), k)"
      "unat k = min (unat ?e) (length (fifo_list ?f))" "fifo_inv f'" "fifo_size f' = fifo_size ?f" "fifo_list f' = drop (unat ?e) (fifo_list ?f)"
      by (rule fifo_read_block_ok [OF f(4) e])
    have k: "unat k = epi" using w(2) f(5) l(1,2) by simp
    then have "k = ?e" using f(5) by (simp add: word_unat_eq_iff [of k ?e])
    then have "mini_queue_receive False s (Some idx) (Some (replicate epi 0)) 0 t [] =
        Some (True, Some x, s\<lparr>qp_queues := (qp_queues s)[nat idx := ?q\<lparr>mq_fifo := f'\<rparr>]\<rparr>)"
      using Cons f(1-3,5,6) cnt w(1) l(1,2) by (simp add: mini_queue_receive_def queue_take_def queue_count_def fifo_get_count_def)
    with Cons h w(3-5) f(5) l show ?thesis by (simp add: queue_holds_def Let_def)
  qed
qed

interpretation bq: item_queue "queue_holds idx len epi" len "\<lambda>i. length i = epi" "queue_send idx" "queue_recv idx epi" for idx len epi
proof (unfold_locales, goal_cases)
  case (1 q xs)
  then show ?case by (rule queue_holds_facts)
next
  case (2 q xs i)
  then show ?case unfolding queue_send_def by (rule queue_send_ok)
next
  case (3 q)
  then show ?case using queue_recv_ok [OF 3, of 0] by (auto simp: queue_recv_def)
next
  case (4 q x xs)
  then show ?case using queue_recv_ok [OF 4, of 0] by (auto simp: queue_recv_def)
qed

lemma exp_and_pred: "(2 ^ k :: nat) AND (2 ^ k - 1) = 0"
  using take_bit_eq_mask [of k "2 ^ k :: nat"] by (simp add: mask_eq_exp_minus_1)

lemma queue_create_ok:
  assumes "slot_inv (qp_ctrl s)" "slot_held (qp_ctrl s) \<noteq> {..<sl_count (qp_ctrl s)}" "sl_count (qp_ctrl s) \<le> length (qp_queues s)"
    and "\<forall>q\<in>set (qp_queues s). length (fifo_buf (mq_fifo q)) = MINI_BARE_QUEUE_ELEM_COUNT"
    and e: "len = 2 ^ a" "epi = 2 ^ b" "a + b \<le> 9"
  obtains idx s' where "mini_queue_create s len (4 * epi) = Some (Some idx, s')" "queue_holds idx len epi s' []"
    "nat idx \<notin> slot_held (qp_ctrl s)"
proof -
  have pos: "0 < len" "0 < epi" using e by simp_all
  have le: "len * epi \<le> 512"
    using power_increasing [OF e(3), of "2 :: nat"] by (simp add: e(1,2) power_add)
  have p: "len AND (len - 1) = 0" "(len * epi) AND (len * epi - 1) = 0"
    using exp_and_pred [of a] exp_and_pred [of "a + b"] by (simp_all add: e(1,2) power_add)
  let ?c = "qp_ctrl s"
  obtain i c where cl: "slot_claim ?c = (i, c)" by fastforce
  note law = ip.claim_law [OF assms(1) cl]
  obtain u where u: "sl_used ?c = Some u" "sl_count ?c \<le> length u" "sl_count ?c \<noteq> 0" using assms(1) by (auto simp: slot_inv_def)
  have mc: "mini_slot_claim (Some ?c) = Some (i, Some c)"
    using cl u claim_loop_first [of 0 "sl_count ?c" u] by (auto simp: slot_claim_def mini_slot_claim_def split: if_splits)
  have i: "0 \<le> i" "nat i < sl_count ?c" "nat i \<notin> slot_held ?c" "slot_held c = insert (nat i) (slot_held ?c)" "slot_inv c" "sl_count c = sl_count ?c"
    using law assms(2) by auto
  let ?q = "qp_queues s ! nat i" and ?n = "of_nat (len * epi) :: u16"
  have qi: "nat i < length (qp_queues s)" using i(2) assms(3) by simp
  then have b: "length (fifo_buf (mq_fifo ?q)) = 512" using assms(4) nth_mem by fastforce
  have lt: "len * epi < 65536" "0 < len * epi" using pos le by auto
  have un: "unat ?n = len * epi" using lt(1) by (rule unat_of_nat_u16)
  have p2: "pow2_u16 ?n"
  proof -
    have "?n AND (?n - 1) = of_nat ((len * epi) AND (len * epi - 1))"
      using lt by (simp add: of_nat_and_eq of_nat_diff)
    moreover have "?n \<noteq> 0" using un lt(2) by (metis unat_0 less_irrefl)
    ultimately show ?thesis using p(2) by (simp add: pow2_u16_def)
  qed
  obtain f where f: "fifo_init (Some (mq_fifo ?q)) (Some (fifo_buf (mq_fifo ?q))) ?n = (BUFF_OK, Some f)" "fifo_inv f" "fifo_list f = []" "fifo_size f = ?n"
    using fifo_init_inv [OF p2, of "fifo_buf (mq_fifo ?q)" "mq_fifo ?q"] un b le by auto
  let ?s = "\<lparr>qp_queues = (qp_queues s)[nat i := \<lparr>mq_fifo = f, mq_elements_per_item = epi\<rparr>], qp_ctrl = c\<rparr>"
  have "sz_mul len epi = len * epi" using lt(1) by (simp add: sz_mul_def)
  then have "mini_queue_create s len (4 * epi) = Some (Some i, ?s)"
    using p pos le lt mc i(1) qi f(1) by (simp add: mini_queue_create_def Let_def arr_get_def)
  moreover have "queue_holds i len epi ?s []"
    using i qi f un pos by (auto simp: queue_holds_def slot_inv_def slot_held_def)
  ultimately show ?thesis using that i(3) by blast
qed

lemma mini_queue_pool_boot_ok:
  assumes "mini_queue_pool_boot queues ctrl used = Some s" "queues \<noteq> []" "length queues < 2 ^ 31"
  shows "slot_inv (qp_ctrl s)" "slot_held (qp_ctrl s) = {}" "sl_count (qp_ctrl s) = length queues" "qp_queues s = queues"
  using assms by (auto simp: mini_queue_pool_boot_def mini_slot_init_def slot_inv_def slot_held_def nth_append split: if_splits)

text \<open>
  C16. A queue of \<open>2 ^ a\<close> items of \<open>2 ^ b\<close> words (at most 512 words) can be created in a fresh pool, and every
  sequence of sends and receives on it answers like a list of at most \<open>2 ^ a\<close> items: items leave whole and in order,
  a send fails exactly when the queue is full, a receive exactly when it is empty, and no call leaves the buffers.
\<close>

theorem bare_queue_refines:
  assumes "mini_queue_pool_boot queues ctrl used = Some s0" "queues \<noteq> []" "length queues < 2 ^ 31"
    and "\<forall>q\<in>set queues. length (fifo_buf (mq_fifo q)) = MINI_BARE_QUEUE_ELEM_COUNT"
    and "a + b \<le> 9" "\<forall>i. Send i \<in> set ops \<longrightarrow> length i = 2 ^ b"
  shows "\<exists>idx s s'. mini_queue_create s0 (2 ^ a) (4 * 2 ^ b) = Some (Some idx, s) \<and>
    queue_run (queue_send idx) (queue_recv idx (2 ^ b)) s ops = Some (s', snd (queue_spec (2 ^ a) [] ops))"
proof -
  note boot = mini_queue_pool_boot_ok [OF assms(1-3)]
  have "slot_held (qp_ctrl s0) \<noteq> {..<sl_count (qp_ctrl s0)}" using boot(2,3) assms(2) by (auto simp: lessThan_empty_iff)
  then obtain idx s where "mini_queue_create s0 (2 ^ a) (4 * 2 ^ b) = Some (Some idx, s)" "queue_holds idx (2 ^ a) (2 ^ b) s []"
    using queue_create_ok [OF boot(1) _ _ _ refl refl assms(5)] boot(3,4) assms(4) by (metis order_refl)
  moreover from bq.run_spec [OF this(2) assms(6)]
  obtain s' where "queue_run (queue_send idx) (queue_recv idx (2 ^ b)) s ops = Some (s', snd (queue_spec (2 ^ a) [] ops))" by blast
  ultimately show ?thesis by blast
qed

definition bare_queue0 :: mini_queue where
  "bare_queue0 = \<lparr>mq_fifo = \<lparr>fifo_buf = replicate MINI_BARE_QUEUE_ELEM_COUNT 0, fifo_size = 0, fifo_mask = 0, fifo_w_ptr = 0, fifo_r_ptr = 0\<rparr>,
     mq_elements_per_item = 0\<rparr>"

lemma bare_queue0_buf: "length (fifo_buf (mq_fifo bare_queue0)) = MINI_BARE_QUEUE_ELEM_COUNT"
  by (simp only: bare_queue0_def mini_queue.simps fifo_spsc.simps length_replicate)

theorem bare_queue_refines_witness:
  "\<exists>s0 idx s s'. mini_queue_pool_boot [bare_queue0] \<lparr>sl_used = None, sl_count = 0\<rparr> [0] = Some s0 \<and>
    mini_queue_create s0 2 8 = Some (Some idx, s) \<and>
    queue_run (queue_send idx) (queue_recv idx 2) s [Send [1, 2], Send [3, 4], Send [5, 6], Recv] =
      Some (s', [Sent True, Sent True, Sent False, Got (Some [1, 2])])"
proof -
  let ?s = "\<lparr>qp_queues = [bare_queue0], qp_ctrl = \<lparr>sl_used = Some [0], sl_count = 1\<rparr>\<rparr>"
  have b: "mini_queue_pool_boot [bare_queue0] \<lparr>sl_used = None, sl_count = 0\<rparr> [0] = Some ?s"
    by (simp add: mini_queue_pool_boot_def mini_slot_init_def)
  have "\<exists>idx s s'. mini_queue_create ?s (2 ^ 1) (4 * 2 ^ 1) = Some (Some idx, s) \<and>
    queue_run (queue_send idx) (queue_recv idx (2 ^ 1)) s [Send [1, 2], Send [3, 4], Send [5, 6], Recv] =
      Some (s', snd (queue_spec (2 ^ 1) [] [Send [1, 2], Send [3, 4], Send [5, 6], Recv]))"
    by (rule bare_queue_refines [OF b]) (use bare_queue0_buf in auto)
  with b show ?thesis by simp
qed

subsection \<open>Mutual exclusion\<close>

datatype mutex_op = Lock nat | Unlock nat

text \<open>A run keeps the contexts that have locked and not yet unlocked; only such a context unlocks.\<close>

fun mutex_run :: "mini_mutex \<Rightarrow> nat list \<Rightarrow> mutex_op list \<Rightarrow> (mini_mutex \<times> nat list) option" where
  "mutex_run m hs [] = Some (m, hs)"
| "mutex_run m hs (Lock c # ops) =
     do { (r, m') \<leftarrow> mini_mutex_lock False (Some m) 0 0 []; m' \<leftarrow> m'; mutex_run m' (if r = MINI_OK then c # hs else hs) ops }"
| "mutex_run m hs (Unlock c # ops) =
     (if c \<in> set hs then do { m' \<leftarrow> snd (mini_mutex_unlock False (Some m)); mutex_run m' (remove1 c hs) ops } else mutex_run m hs ops)"

definition mutex_holds :: "mini_mutex \<Rightarrow> nat list \<Rightarrow> bool" where
  "mutex_holds m hs \<longleftrightarrow> unat (mm_depth m) = length hs \<and> (mm_lock m = 0 \<longleftrightarrow> hs = []) \<and> (mm_type m = MINI_MUTEX_PLAIN \<longrightarrow> length hs \<le> 1)"

lemma try_acquire_holds:
  assumes "mutex_holds m hs" "length hs < 2 ^ 32 - 1"
  shows "\<exists>m'. mini_mutex_try_acquire m = ((if mm_type m = MINI_MUTEX_RECURSIVE \<or> hs = [] then MINI_OK else MINI_ERR_BUSY), m') \<and>
    mm_type m' = mm_type m \<and> mutex_holds m' (if mm_type m = MINI_MUTEX_RECURSIVE \<or> hs = [] then c # hs else hs)"
proof -
  have d: "mm_depth m = 0 \<longleftrightarrow> hs = []" using assms(1) unat_eq_0 [of "mm_depth m"] by (auto simp: mutex_holds_def)
  have "unat (mm_depth m + 1) = Suc (length hs)"
    using assms by (simp add: mutex_holds_def unat_word_ariths)
  then show ?thesis using assms(1) d
    by (cases "mm_type m") (auto simp: mini_mutex_try_acquire_def mutex_holds_def word_gt_0)
qed

lemma unlock_holds:
  assumes "mutex_holds m hs" "c \<in> set hs"
  shows "\<exists>m'. mini_mutex_unlock False (Some m) = (MINI_OK, Some m') \<and> mm_type m' = mm_type m \<and> mutex_holds m' (remove1 c hs)"
proof -
  have d: "mm_depth m \<noteq> 0" using assms by (auto simp: mutex_holds_def)
  then have "unat (mm_depth m - 1) = length (remove1 c hs)"
    using assms unat_minus_one [OF d] by (simp add: mutex_holds_def length_remove1)
  moreover have "1 < mm_depth m \<longleftrightarrow> 1 < length hs" using assms by (simp add: mutex_holds_def word_less_nat_alt)
  moreover have "1 < length hs \<longleftrightarrow> remove1 c hs \<noteq> []"
    using assms(2) by (cases hs; cases "tl hs") (auto simp: length_remove1)
  ultimately show ?thesis using assms d
    by (auto simp: mini_mutex_unlock_def mutex_holds_def length_remove1 split: if_splits)
qed

lemma mutex_run_holds:
  "mutex_holds m hs \<Longrightarrow> length hs + length ops < 2 ^ 32 - 1 \<Longrightarrow>
   \<exists>m' hs'. mutex_run m hs ops = Some (m', hs') \<and> mm_type m' = mm_type m \<and> mutex_holds m' hs'"
proof (induction ops arbitrary: m hs)
  case (Cons op ops)
  show ?case
  proof (cases op)
    case (Lock c)
    obtain m1 where m1: "mini_mutex_try_acquire m =
        ((if mm_type m = MINI_MUTEX_RECURSIVE \<or> hs = [] then MINI_OK else MINI_ERR_BUSY), m1)" "mm_type m1 = mm_type m"
      "mutex_holds m1 (if mm_type m = MINI_MUTEX_RECURSIVE \<or> hs = [] then c # hs else hs)"
      using try_acquire_holds [OF Cons.prems(1), of c] Cons.prems(2) by auto
    then show ?thesis using Cons.IH [OF m1(3)] Cons.prems(2) Lock
      by (auto simp: mini_mutex_lock_def split: if_splits)
  next
    case (Unlock c)
    show ?thesis
    proof (cases "c \<in> set hs")
      case True
      obtain m1 where m1: "mini_mutex_unlock False (Some m) = (MINI_OK, Some m1)" "mm_type m1 = mm_type m" "mutex_holds m1 (remove1 c hs)"
        using unlock_holds [OF Cons.prems(1) True] by auto
      then show ?thesis using Cons.IH [OF m1(3)] Cons.prems(2) Unlock True by (auto simp: length_remove1)
    next
      case False
      then show ?thesis using Cons.IH [OF Cons.prems(1)] Cons.prems(2) Unlock by auto
    qed
  qed
qed auto

lemma create_holds:
  "mini_mutex_create_static_typed False True (Some m0) n type = (MINI_OK, Some m) \<Longrightarrow> mm_type m = type \<and> mutex_holds m []"
  by (auto simp: mini_mutex_create_static_typed_def mini_mutex_init_def mutex_holds_def split: if_splits)



text \<open>
  C40. A recursive mutex counts locks but knows no owner: whoever holds it, an attempt of any context succeeds, and the
  depth is the number of locks not yet undone.
\<close>

theorem bare_mutex_recursive_ownerless:
  assumes "mini_mutex_create_static_recursive False True (Some m0) n = (MINI_OK, Some m)" "length ops < 2 ^ 32 - 1"
  shows "\<exists>m' hs m''. mutex_run m [] ops = Some (m', hs) \<and> unat (mm_depth m') = length hs \<and>
    mini_mutex_lock False (Some m') 0 0 [] = Some (MINI_OK, Some m'')"
proof -
  have m: "mm_type m = MINI_MUTEX_RECURSIVE \<and> mutex_holds m []"
    using assms(1) unfolding mini_mutex_create_static_recursive_def by (rule create_holds)
  then obtain m' hs where r: "mutex_run m [] ops = Some (m', hs)" "mm_type m' = MINI_MUTEX_RECURSIVE" "mutex_holds m' hs"
    using mutex_run_holds [of m "[]" ops] assms(2) by auto
  have "mm_lock m' = 0 \<or> 0 < mm_depth m'" using r(3) by (auto simp: mutex_holds_def word_gt_0)
  then show ?thesis using r by (auto simp: mini_mutex_lock_def mini_mutex_try_acquire_def mutex_holds_def)
qed

theorem bare_mutex_recursive_ownerless_witness:
  "\<exists>m'. mutex_run \<lparr>mm_type = MINI_MUTEX_RECURSIVE, mm_lock = 0, mm_depth = 0\<rparr> [] [Lock 1, Lock 2] = Some (m', [2, 1]) \<and> unat (mm_depth m') = 2"
proof -
  let ?m = "\<lparr>mm_type = MINI_MUTEX_RECURSIVE, mm_lock = 0, mm_depth = 0\<rparr>"
  have "mini_mutex_create_static_recursive False True (Some ?m) 128 = (MINI_OK, Some ?m)"
    by (simp add: mini_mutex_create_static_recursive_def mini_mutex_create_static_typed_def mini_mutex_init_def)
  from bare_mutex_recursive_ownerless [OF this, of "[Lock 1, Lock 2]"]
  show ?thesis by (auto simp: mini_mutex_lock_def mini_mutex_try_acquire_def)
qed

subsection \<open>Bounded waiting\<close>

lemma mutex_wait_returns:
  "(m, now) \<in> set polls \<Longrightarrow> timeout \<noteq> MINI_WAIT_FOREVER \<Longrightarrow> timeout \<le> now - start \<Longrightarrow>
   \<exists>r m'. mutex_wait timeout start polls = Some (r, m') \<and> r \<in> {MINI_OK, MINI_ERR_TIMEOUT}"
  by (induction timeout start polls rule: mutex_wait.induct) (auto split: prod.splits)

lemma queue_wait_returns:
  "(now, s') \<in> set polls \<Longrightarrow> timeout \<noteq> MINI_WAIT_FOREVER \<Longrightarrow> timeout \<le> now - start \<Longrightarrow>
   \<forall>s\<in>insert s (snd ` set polls). nat idx < length (qp_queues s) \<Longrightarrow>
   \<exists>go s1. queue_wait idx epi timeout start s polls = Some (go, s1) \<and> s1 \<in> insert s (snd ` set polls)"
proof (induction polls arbitrary: s)
  case (Cons p polls)
  obtain t s2 where p: "p = (t, s2)" by fastforce
  obtain c where c: "queue_count s idx = Some c" using Cons.prems(4) by (auto simp: queue_count_def arr_get_def fifo_get_count_def)
  show ?case
  proof (cases "c < epi \<and> \<not> timeout \<le> t - start")
    case False
    then show ?thesis using c p Cons.prems(2) by (auto simp: queue_wait.simps [of _ _ _ _ s])
  next
    case True
    then have "queue_wait idx epi timeout start s (p # polls) = queue_wait idx epi timeout start s2 polls" "(now, s') \<in> set polls"
      using c p Cons.prems(1-3) by (auto simp: queue_wait.simps [of _ _ _ _ s])
    then show ?thesis using Cons.IH [of s2] Cons.prems(2-4) p by auto
  qed
qed simp

text \<open>
  C39. Waiting with a finite timeout ends: once the clock has advanced by the timeout at one of the polls, a lock attempt
  has returned success or a timeout, and the wait of a receive is over.
\<close>

theorem bare_wait_ends:
  assumes "timeout \<noteq> MINI_WAIT_FOREVER" "(m1, t1) \<in> set mpolls" "timeout \<le> t1 - now" "(t2, s2) \<in> set qpolls" "timeout \<le> t2 - now"
    and "\<forall>s\<in>insert s (snd ` set qpolls). nat idx < length (qp_queues s)"
  shows "(\<exists>r m'. mini_mutex_lock False (Some m) timeout now mpolls = Some (r, m') \<and> r \<in> {MINI_OK, MINI_ERR_TIMEOUT}) \<and>
    (\<exists>go s'. queue_wait idx epi timeout now s qpolls = Some (go, s'))"
proof
  show "\<exists>r m'. mini_mutex_lock False (Some m) timeout now mpolls = Some (r, m') \<and> r \<in> {MINI_OK, MINI_ERR_TIMEOUT}"
    using mutex_wait_returns [OF assms(2,1,3)] assms(1) by (auto simp: mini_mutex_lock_def split: prod.splits)
  show "\<exists>go s'. queue_wait idx epi timeout now s qpolls = Some (go, s')"
    using queue_wait_returns [OF assms(4,1,5,6)] by blast
qed

theorem bare_wait_ends_witness:
  "\<exists>r m'. mini_mutex_lock False (Some \<lparr>mm_type = MINI_MUTEX_PLAIN, mm_lock = 1, mm_depth = 1\<rparr>) 5 0xFFFFFFFE
      [(\<lparr>mm_type = MINI_MUTEX_PLAIN, mm_lock = 1, mm_depth = 1\<rparr>, 0), (\<lparr>mm_type = MINI_MUTEX_PLAIN, mm_lock = 1, mm_depth = 1\<rparr>, 3)] = Some (r, m') \<and>
    r \<in> {MINI_OK, MINI_ERR_TIMEOUT}"
  using bare_wait_ends [where timeout = 5 and ?m1.0 = "\<lparr>mm_type = MINI_MUTEX_PLAIN, mm_lock = 1, mm_depth = 1\<rparr>" and ?t1.0 = 3 and
      mpolls = "[(\<lparr>mm_type = MINI_MUTEX_PLAIN, mm_lock = 1, mm_depth = 1\<rparr>, 0), (\<lparr>mm_type = MINI_MUTEX_PLAIN, mm_lock = 1, mm_depth = 1\<rparr>, 3)]" and
      now = "0xFFFFFFFE" and ?t2.0 = 4 and ?s2.0 = "\<lparr>qp_queues = [bare_queue0], qp_ctrl = \<lparr>sl_used = Some [1], sl_count = 1\<rparr>\<rparr>" and
      qpolls = "[(4, \<lparr>qp_queues = [bare_queue0], qp_ctrl = \<lparr>sl_used = Some [1], sl_count = 1\<rparr>\<rparr>)]" and
      s = "\<lparr>qp_queues = [bare_queue0], qp_ctrl = \<lparr>sl_used = Some [1], sl_count = 1\<rparr>\<rparr>" and idx = 0]
  by (simp add: MINI_WAIT_FOREVER_def)

end
