(* ===== verification/Event_Bus.thy ===== *)
theory Event_Bus
  imports Bare_Backend
begin

text \<open>
  \<^verbatim>\<open>core/src/event_bus.c\<close>: publish and subscribe over one queue of the backend. The queue functions of the backend
  are arguments (a state \<open>'w\<close> and handles \<open>'h\<close>); the mutex is that of the bare backend. Log output and the
  watchdog feeds of the dispatch task are left out. A callback is a name \<open>'c\<close>, a call of it an entry of the result.
\<close>

definition K_QUEUE_LEN :: nat where "K_QUEUE_LEN = 64"
definition K_MAX_SUBSCRIBERS :: nat where "K_MAX_SUBSCRIBERS = 24"
definition K_STOP_WAIT_MS :: nat where "K_STOP_WAIT_MS = 500"
definition MINI_LOCK_TIMEOUT_DEFAULT_MS :: u32 where "MINI_LOCK_TIMEOUT_DEFAULT_MS = 100"
definition EVENT_SYS_FAULT :: u32 where "EVENT_SYS_FAULT = 2"

record event =
  ev_id :: u32
  ev_arg :: uintptr

record 'c subscriber =
  sub_id_min :: u32
  sub_id_max :: u32
  sub_callback :: "'c option"
  sub_user_data :: uintptr

record ('h, 'c) event_bus =
  eb_subscribers :: "'c subscriber list"
  eb_count :: nat
  eb_inited :: bool
  eb_is_sealed :: bool
  eb_queue :: "'h option"
  eb_task :: "nat option"
  eb_dropped :: nat
  eb_sub_lock :: "mini_mutex option"

text \<open>The two words of an event in a queue.\<close>

definition event_words :: "event \<Rightarrow> uintptr list" where
  "event_words e = [ev_id e, ev_arg e]"

definition words_event :: "uintptr list \<Rightarrow> event" where
  "words_event ws = \<lparr>ev_id = ws ! 0, ev_arg = ws ! 1\<rparr>"

lemma words_event_words [simp]: "words_event (event_words e) = e" "length (event_words e) = 2"
  by (simp_all add: words_event_def event_words_def)

subsection \<open>Operations\<close>

definition event_bus_boot :: "('h, 'c) event_bus" where
  "event_bus_boot = \<lparr>eb_subscribers = replicate K_MAX_SUBSCRIBERS \<lparr>sub_id_min = 0, sub_id_max = 0, sub_callback = None, sub_user_data = 0\<rparr>,
     eb_count = 0, eb_inited = False, eb_is_sealed = False, eb_queue = None, eb_task = None, eb_dropped = 0, eb_sub_lock = None\<rparr>"

definition event_bus_init ::
    "('w \<Rightarrow> nat \<Rightarrow> nat \<Rightarrow> ('h option \<times> 'w) option) \<Rightarrow> ('w \<Rightarrow> 'h option \<Rightarrow> 'w option) \<Rightarrow> bool \<Rightarrow> mini_mutex \<Rightarrow>
     ('h, 'c) event_bus \<Rightarrow> 'w \<Rightarrow> (int \<times> ('h, 'c) event_bus \<times> 'w) option" where
  "event_bus_init create delete in_isr storage b w =
     (if eb_inited b then Some (MINI_OK, b, w)
      else do {
        (q, w) \<leftarrow> create w K_QUEUE_LEN 8;
        let b = b\<lparr>eb_queue := q\<rparr>;
        if q = None then Some (MINI_ERR_NOMEM, b, w)
        else
          let (r, m) = mini_mutex_create_static in_isr True (Some storage) MINI_MUTEX_STORAGE_SIZE;
              lock = (if r = MINI_OK then m else eb_sub_lock b) in
          if r \<noteq> 0 \<or> lock = None then do { w \<leftarrow> delete w q; Some (MINI_ERR_NOMEM, b\<lparr>eb_queue := None, eb_sub_lock := lock\<rparr>, w) }
          else Some (MINI_OK, b\<lparr>eb_inited := True, eb_sub_lock := lock\<rparr>, w)
      })"

definition event_bus_subscribe ::
    "bool \<Rightarrow> u32 \<Rightarrow> (mini_mutex \<times> u32) list \<Rightarrow> ('h, 'c) event_bus \<Rightarrow> u32 \<Rightarrow> u32 \<Rightarrow> 'c option \<Rightarrow> uintptr \<Rightarrow>
     (int \<times> ('h, 'c) event_bus) option" where
  "event_bus_subscribe in_isr now polls b id_min id_max callback user_data =
     (if in_isr then Some (MINI_ERR_ISR, b)
      else if eb_is_sealed b then Some (MINI_ERR_NOTSUPP, b)
      else if callback = None then Some (MINI_ERR_INVAL, b)
      else if eb_sub_lock b = None then Some (MINI_ERR_INVAL, b)
      else if id_max < id_min then Some (MINI_ERR_INVAL, b)
      else do {
        (r, m) \<leftarrow> mini_mutex_lock in_isr (eb_sub_lock b) MINI_LOCK_TIMEOUT_DEFAULT_MS now polls;
        let b = b\<lparr>eb_sub_lock := m\<rparr>;
        if r \<noteq> MINI_OK then Some (MINI_ERR_TIMEOUT, b)
        else
          let (ret, b) =
            (if eb_count b < K_MAX_SUBSCRIBERS
             then (MINI_OK, b\<lparr>eb_subscribers := (eb_subscribers b)[eb_count b :=
                    \<lparr>sub_id_min = id_min, sub_id_max = id_max, sub_callback = callback, sub_user_data = user_data\<rparr>],
                  eb_count := eb_count b + 1\<rparr>)
             else (MINI_ERR_NOSPC, b)) in
          Some (ret, b\<lparr>eb_sub_lock := snd (mini_mutex_unlock in_isr (eb_sub_lock b))\<rparr>)
      })"

definition event_bus_post_internal ::
    "('h \<Rightarrow> 'w \<Rightarrow> uintptr list \<Rightarrow> (bool \<times> 'w) option) \<Rightarrow> ('h \<Rightarrow> 'w \<Rightarrow> uintptr list \<Rightarrow> (bool \<times> 'w) option) \<Rightarrow> bool \<Rightarrow>
     ('h, 'c) event_bus \<Rightarrow> 'w \<Rightarrow> event \<Rightarrow> bool \<Rightarrow> (int \<times> ('h, 'c) event_bus \<times> 'w) option" where
  "event_bus_post_internal send send_isr os_initialized b w e from_isr =
     (case eb_queue b of
        None \<Rightarrow> Some (MINI_ERR_AGAIN, b, w)
      | Some h \<Rightarrow>
          if \<not> eb_inited b then Some (MINI_ERR_AGAIN, b, w)
          else if \<not> os_initialized then Some (MINI_ERR_AGAIN, b, w)
          else do {
            (ok, w) \<leftarrow> (if from_isr then send_isr h w (event_words e) else send h w (event_words e));
            if \<not> ok then Some (MINI_ERR_NOSPC, b\<lparr>eb_dropped := sz_add (eb_dropped b) 1\<rparr>, w)
            else Some (MINI_OK, b, w)
          })"

definition event_bus_post ::
    "('h \<Rightarrow> 'w \<Rightarrow> uintptr list \<Rightarrow> (bool \<times> 'w) option) \<Rightarrow> ('h \<Rightarrow> 'w \<Rightarrow> uintptr list \<Rightarrow> (bool \<times> 'w) option) \<Rightarrow> bool \<Rightarrow> bool \<Rightarrow>
     ('h, 'c) event_bus \<Rightarrow> 'w \<Rightarrow> event \<Rightarrow> (int \<times> ('h, 'c) event_bus \<times> 'w) option" where
  "event_bus_post send send_isr os_initialized in_isr b w e =
     (if in_isr then Some (MINI_ERR_ISR, b, w) else event_bus_post_internal send send_isr os_initialized b w e False)"

definition event_bus_post_from_isr ::
    "('h \<Rightarrow> 'w \<Rightarrow> uintptr list \<Rightarrow> (bool \<times> 'w) option) \<Rightarrow> ('h \<Rightarrow> 'w \<Rightarrow> uintptr list \<Rightarrow> (bool \<times> 'w) option) \<Rightarrow> bool \<Rightarrow>
     ('h, 'c) event_bus \<Rightarrow> 'w \<Rightarrow> event \<Rightarrow> (int \<times> ('h, 'c) event_bus \<times> 'w) option" where
  "event_bus_post_from_isr send send_isr os_initialized b w e = event_bus_post_internal send send_isr os_initialized b w e True"

definition event_bus_dropped_count :: "('h, 'c) event_bus \<Rightarrow> nat" where
  "event_bus_dropped_count b = eb_dropped b"

text \<open>
  One turn of the dispatch task: the blocking receive has either an event or waits on; an event is handed to a snapshot
  of the subscribers, without the lock.
\<close>

datatype 'c dispatch = Waiting | Called "('c \<times> event \<times> uintptr) list" | Task_Exit | Safe_State

fun call_matching :: "'c subscriber list \<Rightarrow> event \<Rightarrow> ('c \<times> event \<times> uintptr) list" where
  "call_matching [] e = []"
| "call_matching (sub # snapshot) e =
     (case sub_callback sub of
        Some c \<Rightarrow> (if sub_id_min sub \<le> ev_id e \<and> ev_id e \<le> sub_id_max sub then [(c, e, sub_user_data sub)] else [])
      | None \<Rightarrow> []) @ call_matching snapshot e"

definition event_bus_dispatch_task ::
    "('h \<Rightarrow> 'w \<Rightarrow> (uintptr list option \<times> 'w) option) \<Rightarrow> u32 \<Rightarrow> (mini_mutex \<times> u32) list \<Rightarrow> ('h, 'c) event_bus \<Rightarrow> 'w \<Rightarrow>
     ('c dispatch \<times> ('h, 'c) event_bus \<times> 'w) option" where
  "event_bus_dispatch_task recv now polls b w =
     do {
       h \<leftarrow> eb_queue b;
       (r, w) \<leftarrow> recv h w;
       case r of
         None \<Rightarrow> Some (Waiting, b, w)
       | Some item \<Rightarrow>
           if eb_task b = None then Some (Task_Exit, b, w)
           else do {
             (locked, b) \<leftarrow>
               (case eb_sub_lock b of
                  None \<Rightarrow> Some (True, b)
                | Some m \<Rightarrow> do {
                    (r, m) \<leftarrow> mini_mutex_lock False (Some m) MINI_LOCK_TIMEOUT_DEFAULT_MS now polls;
                    Some (r = MINI_OK, b\<lparr>eb_sub_lock := m\<rparr>)
                  });
             if \<not> locked then Some (Safe_State, b, w)
             else if length (eb_subscribers b) < eb_count b then None
             else
               let snapshot = take (eb_count b) (eb_subscribers b);
                   b = b\<lparr>eb_sub_lock := snd (mini_mutex_unlock False (eb_sub_lock b))\<rparr> in
               Some (Called (call_matching snapshot (words_event item)), b, w)
           }
     }"

text \<open>The result of the task creation of the backend is an argument: the error code and the handle.\<close>

definition event_bus_start :: "int \<times> nat option \<Rightarrow> ('h, 'c) event_bus \<Rightarrow> ('h, 'c) event_bus" where
  "event_bus_start created b = (if eb_task b \<noteq> None \<or> eb_queue b = None then b else b\<lparr>eb_task := snd created\<rparr>)"

text \<open>\<open>running k\<close> is what the backend says of the task at the \<open>k\<close>-th question.\<close>

function stop_wait :: "(nat \<Rightarrow> bool) \<Rightarrow> nat \<Rightarrow> nat \<Rightarrow> nat" where
  "stop_wait running k waited = (if running k \<and> waited < K_STOP_WAIT_MS then stop_wait running (k + 1) (waited + 10) else k)"
  by pat_completeness auto
termination
  by (relation "measure (\<lambda>(_, _, waited). K_STOP_WAIT_MS - waited)") auto

declare stop_wait.simps [simp del]

text \<open>The last component says whether the task is deleted by force.\<close>

definition event_bus_stop ::
    "('h \<Rightarrow> 'w \<Rightarrow> uintptr list \<Rightarrow> (bool \<times> 'w) option) \<Rightarrow> ('w \<Rightarrow> 'h option \<Rightarrow> 'w option) \<Rightarrow> (nat \<Rightarrow> bool) \<Rightarrow>
     ('h, 'c) event_bus \<Rightarrow> 'w \<Rightarrow> (('h, 'c) event_bus \<times> 'w \<times> bool) option" where
  "event_bus_stop send delete running b w =
     (if eb_task b = None then Some (b, w, False)
      else do {
        let b = b\<lparr>eb_task := None\<rparr>;
        h \<leftarrow> eb_queue b;
        (_, w) \<leftarrow> send h w (event_words \<lparr>ev_id = EVENT_SYS_FAULT, ev_arg = 0\<rparr>);
        let forced = running (stop_wait running 0 0 + 1);
        let b = b\<lparr>eb_inited := False\<rparr>;
        w \<leftarrow> delete w (eb_queue b);
        Some (b\<lparr>eb_queue := None\<rparr>, w, forced)
      })"

definition event_bus_seal :: "('h, 'c) event_bus \<Rightarrow> ('h, 'c) event_bus" where
  "event_bus_seal b = b\<lparr>eb_is_sealed := True\<rparr>"

subsection \<open>The bus over a queue\<close>

datatype bus_op = Post event | Post_Isr event | Turn

datatype 'c bus_out = Posted int | Turned "'c dispatch"

fun bus_run ::
    "('h \<Rightarrow> 'w \<Rightarrow> uintptr list \<Rightarrow> (bool \<times> 'w) option) \<Rightarrow> ('h \<Rightarrow> 'w \<Rightarrow> uintptr list \<Rightarrow> (bool \<times> 'w) option) \<Rightarrow>
     ('h \<Rightarrow> 'w \<Rightarrow> (uintptr list option \<times> 'w) option) \<Rightarrow> ('h, 'c) event_bus \<Rightarrow> 'w \<Rightarrow> bus_op list \<Rightarrow>
     (('h, 'c) event_bus \<times> 'w \<times> 'c bus_out list) option" where
  "bus_run send send_isr recv b w [] = Some (b, w, [])"
| "bus_run send send_isr recv b w (Post e # ops) =
     do { (r, b, w) \<leftarrow> event_bus_post send send_isr True False b w e;
          (b, w, outs) \<leftarrow> bus_run send send_isr recv b w ops; Some (b, w, Posted r # outs) }"
| "bus_run send send_isr recv b w (Post_Isr e # ops) =
     do { (r, b, w) \<leftarrow> event_bus_post_from_isr send send_isr True b w e;
          (b, w, outs) \<leftarrow> bus_run send send_isr recv b w ops; Some (b, w, Posted r # outs) }"
| "bus_run send send_isr recv b w (Turn # ops) =
     do { (d, b, w) \<leftarrow> event_bus_dispatch_task recv 0 [] b w;
          (b, w, outs) \<leftarrow> bus_run send send_isr recv b w ops; Some (b, w, Turned d # outs) }"

text \<open>What the reference queue sees of an operation, and what its answers mean on the bus.\<close>

fun bus_qop :: "bus_op \<Rightarrow> uintptr list queue_op" where
  "bus_qop (Post e) = Send (event_words e)"
| "bus_qop (Post_Isr e) = Send (event_words e)"
| "bus_qop Turn = Recv"

fun bus_view :: "'c subscriber list \<Rightarrow> uintptr list queue_out \<Rightarrow> 'c bus_out" where
  "bus_view subs (Sent ok) = Posted (if ok then MINI_OK else MINI_ERR_NOSPC)"
| "bus_view subs (Got None) = Turned Waiting"
| "bus_view subs (Got (Some item)) = Turned (Called (call_matching subs (words_event item)))"

definition bus_table :: "('h, 'c) event_bus \<Rightarrow> 'c subscriber list \<Rightarrow> bool" where
  "bus_table b subs \<longleftrightarrow> length (eb_subscribers b) = K_MAX_SUBSCRIBERS \<and> eb_count b = length subs \<and>
     length subs \<le> K_MAX_SUBSCRIBERS \<and> take (eb_count b) (eb_subscribers b) = subs \<and> (\<exists>m. eb_sub_lock b = Some m \<and> mm_lock m = 0)"

definition bus_ready :: "'h \<Rightarrow> 'c subscriber list \<Rightarrow> ('h, 'c) event_bus \<Rightarrow> bool" where
  "bus_ready h subs b \<longleftrightarrow> eb_queue b = Some h \<and> eb_inited b \<and> eb_task b \<noteq> None \<and> bus_table b subs"

definition dropped_in :: "'i queue_out list \<Rightarrow> nat" where
  "dropped_in outs = length (filter (\<lambda>r. r = Sent False) outs)"

locale bus_backend =
  tq: item_queue holds cap "\<lambda>i. length i = 2" "send h" "recv h" +
  iq: item_queue holds cap "\<lambda>i. length i = 2" "send_isr h" "recv h"
  for holds :: "'w \<Rightarrow> uintptr list list \<Rightarrow> bool" and cap and h :: 'h and send send_isr recv
begin

lemma post_step:
  assumes "holds w xs" "bus_ready h subs b"
  shows "\<exists>w'. event_bus_post_internal send send_isr True b w e isr =
      Some (if length xs < cap then MINI_OK else MINI_ERR_NOSPC,
        if length xs < cap then b else b\<lparr>eb_dropped := sz_add (eb_dropped b) 1\<rparr>, w') \<and>
    holds w' (if length xs < cap then xs @ [event_words e] else xs)"
  using assms(2) tq.send_law [OF assms(1), of "event_words e"] iq.send_law [OF assms(1), of "event_words e"]
  by (cases isr) (auto simp: event_bus_post_internal_def bus_ready_def split: if_splits)

lemma turn_step:
  assumes "holds w (x # xs)" "bus_ready h subs b"
  shows "\<exists>b' w'. event_bus_dispatch_task recv now polls b w = Some (Called (call_matching subs (words_event x)), b', w') \<and>
    holds w' xs \<and> bus_ready h subs b' \<and> eb_dropped b' = eb_dropped b"
  using assms(2) tq.recv_law [OF assms(1)]
  by (auto simp: event_bus_dispatch_task_def bus_ready_def bus_table_def mini_mutex_lock_def mini_mutex_try_acquire_def mini_mutex_unlock_def)

lemma wait_step:
  assumes "holds w []" "bus_ready h subs b"
  shows "\<exists>w'. event_bus_dispatch_task recv now polls b w = Some (Waiting, b, w') \<and> holds w' []"
  using assms(2) tq.recv_empty [OF assms(1)] by (auto simp: event_bus_dispatch_task_def bus_ready_def)

lemma ready_dropped: "bus_ready h subs b \<Longrightarrow> bus_ready h subs (b\<lparr>eb_dropped := n\<rparr>)"
  by (auto simp: bus_ready_def bus_table_def)

lemma run_view:
  "holds w xs \<Longrightarrow> bus_ready h subs b \<Longrightarrow> eb_dropped b < 2 ^ 32 \<Longrightarrow>
   \<exists>b' w'. bus_run send send_isr recv b w ops = Some (b', w', map (bus_view subs) (snd (queue_spec cap xs (map bus_qop ops)))) \<and>
     bus_ready h subs b' \<and> eb_dropped b' = (eb_dropped b + dropped_in (snd (queue_spec cap xs (map bus_qop ops)))) mod 2 ^ 32"
proof (induction ops arbitrary: w xs b)
  case (Cons op ops)
  note prems = Cons.prems and IH = Cons.IH
  have post: ?case if op: "op = Post e \<or> op = Post_Isr e" for e
  proof -
    let ?ok = "length xs < cap"
    let ?b = "if ?ok then b else b\<lparr>eb_dropped := sz_add (eb_dropped b) 1\<rparr>"
    let ?xs = "if ?ok then xs @ [event_words e] else xs"
    obtain w1 where w1: "event_bus_post_internal send send_isr True b w e (op = Post_Isr e) = Some (if ?ok then MINI_OK else MINI_ERR_NOSPC, ?b, w1)"
      "holds w1 ?xs"
      using post_step [OF prems(1,2), of e] by metis
    have b: "bus_ready h subs ?b" "eb_dropped ?b < 2 ^ 32" "eb_dropped ?b = (eb_dropped b + (if ?ok then 0 else 1)) mod 2 ^ 32"
      using prems(2,3) ready_dropped by (auto simp: sz_add_def)
    obtain ys outs where q: "queue_spec cap ?xs (map bus_qop ops) = (ys, outs)" by fastforce
    then have q': "snd (queue_spec cap xs (map bus_qop (op # ops))) = Sent ?ok # outs" using op by (auto simp: Let_def)
    from IH [OF w1(2) b(1,2)] obtain b' w' where r: "bus_run send send_isr recv ?b w1 ops = Some (b', w', map (bus_view subs) outs)"
      "bus_ready h subs b'" "eb_dropped b' = (eb_dropped ?b + dropped_in outs) mod 2 ^ 32" by (auto simp: q)
    have "bus_run send send_isr recv b w (op # ops) = Some (b', w', map (bus_view subs) (Sent ?ok # outs))"
      using op w1(1) r(1) by (auto simp: event_bus_post_def event_bus_post_from_isr_def)
    moreover have "eb_dropped b' = (eb_dropped b + dropped_in (Sent ?ok # outs)) mod 2 ^ 32"
      unfolding r(3) b(3) by (simp add: dropped_in_def mod_simps)
    ultimately show ?thesis using r(2) q' by metis
  qed
  show ?case
  proof (cases op)
    case Turn
    show ?thesis
    proof (cases xs)
      case Nil
      then obtain w1 where w1: "event_bus_dispatch_task recv 0 [] b w = Some (Waiting, b, w1)" "holds w1 []"
        using wait_step prems(1,2) by blast
      show ?thesis using IH [OF w1(2) prems(2,3)] w1(1) Nil Turn by (auto simp: dropped_in_def split: prod.splits)
    next
      case (Cons x ys)
      then obtain b1 w1 where w1: "event_bus_dispatch_task recv 0 [] b w = Some (Called (call_matching subs (words_event x)), b1, w1)"
        "holds w1 ys" "bus_ready h subs b1" "eb_dropped b1 = eb_dropped b"
        using turn_step prems(1,2) by blast
      have "eb_dropped b1 < 2 ^ 32" using prems(3) w1(4) by simp
      from IH [OF w1(2,3) this] show ?thesis using w1(1,4) Cons Turn by (auto simp: dropped_in_def split: prod.splits)
    qed
  qed (use post in auto)
qed (simp add: dropped_in_def)

end

definition queue_send_isr :: "int \<Rightarrow> queue_pool \<Rightarrow> uintptr list \<Rightarrow> (bool \<times> queue_pool) option" where
  "queue_send_isr idx s item = mini_queue_send_from_isr s (Some idx) (Some item)"

lemma queue_send_isr_eq: "queue_send_isr idx = queue_send idx"
  by (intro ext) (simp add: queue_send_isr_def queue_send_def mini_queue_send_def mini_queue_send_from_isr_def)

interpretation bb: bus_backend "queue_holds idx len 2" len idx queue_send queue_send_isr "\<lambda>h. queue_recv h 2" for idx len
  unfolding bus_backend_def queue_send_isr_eq using bq.item_queue_axioms by blast

subsection \<open>Start-up and subscriptions\<close>

fun subscribe_all :: "('h, 'c) event_bus \<Rightarrow> 'c subscriber list \<Rightarrow> (int list \<times> ('h, 'c) event_bus) option" where
  "subscribe_all b [] = Some ([], b)"
| "subscribe_all b (s # subs) =
     do { (r, b) \<leftarrow> event_bus_subscribe False 0 [] b (sub_id_min s) (sub_id_max s) (sub_callback s) (sub_user_data s);
          (rs, b) \<leftarrow> subscribe_all b subs; Some (r # rs, b) }"

definition sub_valid :: "'c subscriber \<Rightarrow> bool" where
  "sub_valid s \<longleftrightarrow> sub_id_min s \<le> sub_id_max s \<and> sub_callback s \<noteq> None"

lemma subscribe_step:
  assumes "bus_table b subs" "\<not> eb_is_sealed b" "sub_valid s"
  shows "\<exists>b'. event_bus_subscribe False now polls b (sub_id_min s) (sub_id_max s) (sub_callback s) (sub_user_data s) =
      Some (if length subs < K_MAX_SUBSCRIBERS then MINI_OK else MINI_ERR_NOSPC, b') \<and>
    bus_table b' (if length subs < K_MAX_SUBSCRIBERS then subs @ [s] else subs) \<and>
    b' = b\<lparr>eb_subscribers := eb_subscribers b', eb_count := eb_count b', eb_sub_lock := eb_sub_lock b'\<rparr>"
  using assms
  by (auto simp: event_bus_subscribe_def bus_table_def sub_valid_def not_less mini_mutex_lock_def mini_mutex_try_acquire_def
      mini_mutex_unlock_def take_Suc_conv_app_nth Let_def)

lemma codes_full: "K \<le> a \<Longrightarrow> map (\<lambda>k. if k < K then x else y) [a..<a + n] = replicate n y"
  by (intro nth_equalityI) auto

lemma subscribe_all_table:
  "bus_table b subs \<Longrightarrow> \<not> eb_is_sealed b \<Longrightarrow> list_all sub_valid new \<Longrightarrow>
   \<exists>b'. subscribe_all b new =
       Some (map (\<lambda>k. if k < K_MAX_SUBSCRIBERS then MINI_OK else MINI_ERR_NOSPC) [length subs..<length subs + length new], b') \<and>
     bus_table b' (take K_MAX_SUBSCRIBERS (subs @ new)) \<and>
     b' = b\<lparr>eb_subscribers := eb_subscribers b', eb_count := eb_count b', eb_sub_lock := eb_sub_lock b'\<rparr>"
proof (induction new arbitrary: b subs)
  case Nil
  then show ?case by (auto simp: bus_table_def)
next
  case (Cons s new)
  let ?ok = "length subs < K_MAX_SUBSCRIBERS" and ?f = "\<lambda>k. if k < K_MAX_SUBSCRIBERS then MINI_OK else MINI_ERR_NOSPC"
  let ?subs = "if ?ok then subs @ [s] else subs"
  obtain b1 where b1: "event_bus_subscribe False 0 [] b (sub_id_min s) (sub_id_max s) (sub_callback s) (sub_user_data s) =
      Some (?f (length subs), b1)" "bus_table b1 ?subs"
    "b1 = b\<lparr>eb_subscribers := eb_subscribers b1, eb_count := eb_count b1, eb_sub_lock := eb_sub_lock b1\<rparr>"
    using subscribe_step [OF Cons.prems(1,2)] Cons.prems(3) by (metis list.pred_inject(2))
  have s1: "\<not> eb_is_sealed b1" using Cons.prems(2) by (subst b1(3)) simp
  obtain b' where b': "subscribe_all b1 new = Some (map ?f [length ?subs..<length ?subs + length new], b')"
      "bus_table b' (take K_MAX_SUBSCRIBERS (?subs @ new))"
      "b' = b1\<lparr>eb_subscribers := eb_subscribers b', eb_count := eb_count b', eb_sub_lock := eb_sub_lock b'\<rparr>"
    using Cons.IH [OF b1(2) s1] Cons.prems(3) by auto
  have codes: "map ?f [length ?subs..<length ?subs + length new] = map ?f [Suc (length subs)..<Suc (length subs) + length new]"
  proof (cases ?ok)
    case False
    then have "K_MAX_SUBSCRIBERS \<le> length subs" "K_MAX_SUBSCRIBERS \<le> Suc (length subs)" by simp_all
    with False show ?thesis by (simp only: codes_full if_False)
  qed simp
  have "take K_MAX_SUBSCRIBERS (?subs @ new) = take K_MAX_SUBSCRIBERS (subs @ s # new)"
    using Cons.prems(1) by (cases ?ok) (simp_all only: if_True if_False append_assoc append_Cons append_Nil, auto simp: bus_table_def)
  moreover have "subscribe_all b (s # new) = Some (map ?f [length subs..<length subs + length (s # new)], b')"
    using b1(1) b'(1) unfolding codes by (simp del: upt_Suc add: upt_conv_Cons)
  moreover have "b' = b\<lparr>eb_subscribers := eb_subscribers b', eb_count := eb_count b', eb_sub_lock := eb_sub_lock b'\<rparr>"
    by (subst b'(3), subst b1(3)) simp
  ultimately show ?case using b'(2) by metis
qed

text \<open>The pool that the bare backend provides for the bus: one queue with a full buffer.\<close>

definition bus_pool :: "mini_queue list \<Rightarrow> queue_pool \<Rightarrow> bool" where
  "bus_pool queues w \<longleftrightarrow> (\<exists>ctrl used. mini_queue_pool_boot queues ctrl used = Some w) \<and> queues \<noteq> [] \<and> length queues < 2 ^ 31 \<and>
     list_all (\<lambda>q. length (fifo_buf (mq_fifo q)) = MINI_BARE_QUEUE_ELEM_COUNT) queues"

lemma event_bus_init_ok:
  assumes "bus_pool queues w0"
  shows "\<exists>idx b w. event_bus_init mini_queue_create mini_queue_delete False storage event_bus_boot w0 = Some (MINI_OK, b, w) \<and>
    queue_holds idx K_QUEUE_LEN 2 w [] \<and> eb_queue b = Some idx \<and> eb_inited b \<and> bus_table b [] \<and> \<not> eb_is_sealed b \<and> eb_task b = None \<and> eb_dropped b = 0"
proof -
  obtain ctrl used where b: "mini_queue_pool_boot queues ctrl used = Some w0" "queues \<noteq> []" "length queues < 2 ^ 31"
    "list_all (\<lambda>q. length (fifo_buf (mq_fifo q)) = MINI_BARE_QUEUE_ELEM_COUNT) queues"
    using assms by (auto simp: bus_pool_def)
  note boot = mini_queue_pool_boot_ok [OF b(1-3)]
  have "slot_held (qp_ctrl w0) \<noteq> {..<sl_count (qp_ctrl w0)}" using boot(2,3) b(2) by (auto simp: lessThan_empty_iff)
  moreover have "\<forall>q\<in>set (qp_queues w0). length (fifo_buf (mq_fifo q)) = MINI_BARE_QUEUE_ELEM_COUNT"
    using b(4) boot(4) by (simp add: list_all_iff)
  moreover have "(6 :: nat) + 1 \<le> 9" by simp
  ultimately obtain idx w where "mini_queue_create w0 (2 ^ 6) (4 * 2 ^ 1) = Some (Some idx, w)" "queue_holds idx (2 ^ 6) (2 ^ 1) w []"
    using queue_create_ok [OF boot(1) _ _ _ refl refl] boot(3,4) by (metis order_refl)
  then have q: "mini_queue_create w0 K_QUEUE_LEN 8 = Some (Some idx, w)" "queue_holds idx K_QUEUE_LEN 2 w []"
    by (simp_all add: K_QUEUE_LEN_def)
  then show ?thesis
    by (simp add: event_bus_init_def event_bus_boot_def bus_table_def mini_mutex_create_static_def mini_mutex_create_static_typed_def
        mini_mutex_init_def MINI_MUTEX_STORAGE_SIZE_def Let_def)
qed


definition bus_sub :: "u32 \<Rightarrow> u32 \<Rightarrow> nat \<Rightarrow> nat subscriber" where
  "bus_sub lo hi c = \<lparr>sub_id_min = lo, sub_id_max = hi, sub_callback = Some c, sub_user_data = 7\<rparr>"

lemma bus_pool_one:
  "bus_pool [bare_queue0] \<lparr>qp_queues = [bare_queue0], qp_ctrl = \<lparr>sl_used = Some [0], sl_count = 1\<rparr>\<rparr>"
proof -
  have "mini_queue_pool_boot [bare_queue0] \<lparr>sl_used = None, sl_count = 0\<rparr> [0] =
      Some \<lparr>qp_queues = [bare_queue0], qp_ctrl = \<lparr>sl_used = Some [0], sl_count = 1\<rparr>\<rparr>"
    by (simp add: mini_queue_pool_boot_def mini_slot_init_def)
  then show ?thesis using bare_queue0_buf by (auto simp: bus_pool_def)
qed


text \<open>
  C32. Subscribing: after start-up the first 24 valid subscriptions are accepted and form the table in their order, every
  further one reports a full table and changes nothing; an interrupt, a missing callback, an empty range of identifiers
  and a sealed bus are refused with their codes and leave the bus alone.
\<close>

theorem event_bus_subscriptions:
  fixes subs :: "'c subscriber list"
  assumes "bus_pool queues w0" "list_all sub_valid subs"
  shows "\<exists>b w b'. event_bus_init mini_queue_create mini_queue_delete False storage event_bus_boot w0 = Some (MINI_OK, b, w) \<and>
    subscribe_all b subs = Some (map (\<lambda>k. if k < K_MAX_SUBSCRIBERS then MINI_OK else MINI_ERR_NOSPC) [0..<length subs], b') \<and>
    take (eb_count b') (eb_subscribers b') = take K_MAX_SUBSCRIBERS subs \<and>
    event_bus_subscribe True now polls b' lo hi (Some c) ud = Some (MINI_ERR_ISR, b') \<and>
    event_bus_subscribe False now polls b' lo hi None ud = Some (MINI_ERR_INVAL, b') \<and>
    (hi < lo \<longrightarrow> event_bus_subscribe False now polls b' lo hi (Some c) ud = Some (MINI_ERR_INVAL, b')) \<and>
    event_bus_subscribe False now polls (event_bus_seal b') lo hi (Some c) ud = Some (MINI_ERR_NOTSUPP, event_bus_seal b')"
proof -
  obtain w1 and b1 :: "(int, 'c) event_bus" where i: "event_bus_init mini_queue_create mini_queue_delete False storage event_bus_boot w0 = Some (MINI_OK, b1, w1)"
    "bus_table b1 []" "\<not> eb_is_sealed b1"
    using event_bus_init_ok [OF assms(1)] by blast
  from subscribe_all_table [OF i(2,3) assms(2)] obtain b2 where s:
    "subscribe_all b1 subs = Some (map (\<lambda>k. if k < K_MAX_SUBSCRIBERS then MINI_OK else MINI_ERR_NOSPC) [0..<length subs], b2)"
    "bus_table b2 (take K_MAX_SUBSCRIBERS subs)" "b2 = b1\<lparr>eb_subscribers := eb_subscribers b2, eb_count := eb_count b2, eb_sub_lock := eb_sub_lock b2\<rparr>"
    by auto
  have "\<not> eb_is_sealed b2" by (subst s(3)) (simp add: i(3))
  then show ?thesis using i(1) s(1,2) by (auto simp: event_bus_subscribe_def event_bus_seal_def bus_table_def)
qed

theorem event_bus_subscriptions_witness:
  "\<exists>b w b'. event_bus_init mini_queue_create mini_queue_delete False \<lparr>mm_type = MINI_MUTEX_PLAIN, mm_lock = 0, mm_depth = 0\<rparr> event_bus_boot
      \<lparr>qp_queues = [bare_queue0], qp_ctrl = \<lparr>sl_used = Some [0], sl_count = 1\<rparr>\<rparr> = Some (MINI_OK, b, w) \<and>
    subscribe_all b [bus_sub 0 9 1] = Some ([MINI_OK], b') \<and> take (eb_count b') (eb_subscribers b') = [bus_sub 0 9 1] \<and>
    event_bus_subscribe False 0 [] b' 4 3 (Some (2 :: nat)) 0 = Some (MINI_ERR_INVAL, b')"
proof -
  have s: "list_all sub_valid [bus_sub 0 9 1]" by (simp add: sub_valid_def bus_sub_def)
  show ?thesis
    using event_bus_subscriptions [OF bus_pool_one s, of "\<lparr>mm_type = MINI_MUTEX_PLAIN, mm_lock = 0, mm_depth = 0\<rparr>" 0 "[]" 4 3 2 0]
    by (auto simp: K_MAX_SUBSCRIBERS_def simp del: subscribe_all.simps)
qed

end
