(* ===== verification/Ota_State.thy ===== *)
theory Ota_State
  imports Crc Bytes
begin

text \<open>
  \<^verbatim>\<open>lib/mini-ota/bootutil/src/ota_state.c\<close> and the inline functions of \<^verbatim>\<open>ota_state.h\<close>: the word that holds the
  state of an update across resets, its record with magic number and checksum, and the access through a
  registered storage backend. The checksum is computed with the bitwise CRC engine; the table engine gives
  the same values (\<open>crc_stream_agree\<close>).
\<close>

definition ERR_OK :: int where "ERR_OK = 0"
definition ERR_ARG :: int where "ERR_ARG = - 128"
definition ERR_TOO_SMALL :: int where "ERR_TOO_SMALL = - 129"
definition ERR_OVERFLOW :: int where "ERR_OVERFLOW = - 130"
definition ERR_NOT_SUPPORTED :: int where "ERR_NOT_SUPPORTED = - 131"
definition ERR_BUF_TOO_SMALL :: int where "ERR_BUF_TOO_SMALL = - 132"
definition ERR_CRC_MISMATCH :: int where "ERR_CRC_MISMATCH = - 133"
definition ERR_HASH_MISMATCH :: int where "ERR_HASH_MISMATCH = - 134"
definition ERR_AUTH_FAILED :: int where "ERR_AUTH_FAILED = - 135"
definition ERR_DECRYPT_FAILED :: int where "ERR_DECRYPT_FAILED = - 136"
definition ERR_HASH_FAILED :: int where "ERR_HASH_FAILED = - 137"
definition ERR_PADDING :: int where "ERR_PADDING = - 138"
definition ERR_OTA_OPEN :: int where "ERR_OTA_OPEN = - 139"
definition ERR_TRANSMIT :: int where "ERR_TRANSMIT = - 140"
definition ERR_OTA_STATE :: int where "ERR_OTA_STATE = - 141"

lemmas ota_codes [simp] = ERR_OK_def ERR_ARG_def ERR_TOO_SMALL_def ERR_OVERFLOW_def ERR_NOT_SUPPORTED_def ERR_BUF_TOO_SMALL_def
  ERR_CRC_MISMATCH_def ERR_HASH_MISMATCH_def ERR_AUTH_FAILED_def ERR_DECRYPT_FAILED_def ERR_HASH_FAILED_def ERR_PADDING_def
  ERR_OTA_OPEN_def ERR_TRANSMIT_def ERR_OTA_STATE_def

definition err_str :: "int \<Rightarrow> string" where
  "err_str err =
     (if err = ERR_OK then ''ok''
      else if err = ERR_ARG then ''invalid argument''
      else if err = ERR_TOO_SMALL then ''data smaller than required''
      else if err = ERR_OVERFLOW then ''length overflow''
      else if err = ERR_NOT_SUPPORTED then ''feature not enabled''
      else if err = ERR_BUF_TOO_SMALL then ''output buffer too small''
      else if err = ERR_CRC_MISMATCH then ''crc mismatch''
      else if err = ERR_HASH_MISMATCH then ''sha256 mismatch''
      else if err = ERR_AUTH_FAILED then ''authentication failed''
      else if err = ERR_DECRYPT_FAILED then ''decrypt failed''
      else if err = ERR_HASH_FAILED then ''hash failed''
      else if err = ERR_PADDING then ''invalid pkcs7 padding''
      else if err = ERR_OTA_STATE then ''ota state missing or corrupt''
      else if err = ERR_OTA_OPEN then ''ota not enabled''
      else if err = ERR_TRANSMIT then ''transmit error''
      else ''unknown error'')"

subsection \<open>The state word\<close>

definition OTA_STATE_BIT_OPEN :: u32 where "OTA_STATE_BIT_OPEN = 0"
definition OTA_STATE_BIT_ROLLBACK :: u32 where "OTA_STATE_BIT_ROLLBACK = 2"
definition OTA_STATE_BIT_CURRENT :: u32 where "OTA_STATE_BIT_CURRENT = 6"
definition OTA_STATE_BIT_PENDING :: u32 where "OTA_STATE_BIT_PENDING = 7"
definition OTA_STATE_BIT_TRIAL :: u32 where "OTA_STATE_BIT_TRIAL = 16"
definition OTA_STATE_FAIL_SHIFT :: nat where "OTA_STATE_FAIL_SHIFT = 4"
definition OTA_STATE_FAIL_MASK :: u32 where "OTA_STATE_FAIL_MASK = 0x30"
definition OTA_STATE_MASK_CURRENT :: u32 where "OTA_STATE_MASK_CURRENT = 0x40"
definition OTA_STATE_MASK_PENDING :: u32 where "OTA_STATE_MASK_PENDING = 0x80"
definition OTA_STATE_MASK_TRIAL :: u32 where "OTA_STATE_MASK_TRIAL = 0x10000"
definition OTA_STATE_MAGIC_MASK :: u32 where "OTA_STATE_MAGIC_MASK = 0xFF00"
definition OTA_STATE_MAGIC_FIELD :: u32 where "OTA_STATE_MAGIC_FIELD = 0xA500"
definition OTA_STATE_DURABLE_MASK :: u32 where
  "OTA_STATE_DURABLE_MASK = OTA_STATE_FAIL_MASK OR OTA_STATE_MASK_CURRENT OR OTA_STATE_MASK_PENDING OR OTA_STATE_MASK_TRIAL"

lemmas ota_bits = OTA_STATE_BIT_OPEN_def OTA_STATE_BIT_ROLLBACK_def OTA_STATE_BIT_CURRENT_def OTA_STATE_BIT_PENDING_def
  OTA_STATE_BIT_TRIAL_def OTA_STATE_FAIL_SHIFT_def OTA_STATE_FAIL_MASK_def OTA_STATE_MASK_CURRENT_def OTA_STATE_MASK_PENDING_def
  OTA_STATE_MASK_TRIAL_def OTA_STATE_MAGIC_MASK_def OTA_STATE_MAGIC_FIELD_def OTA_STATE_DURABLE_MASK_def

definition ota_state_bit_get :: "u32 \<Rightarrow> u32 \<Rightarrow> u32" where
  "ota_state_bit_get word b = drop_bit (unat b) word AND 1"

definition ota_state_bit_put :: "u32 \<Rightarrow> u32 \<Rightarrow> u32 \<Rightarrow> u32" where
  "ota_state_bit_put word b value =
     (if value \<noteq> 0 then word OR push_bit (unat b) 1 else word AND NOT (push_bit (unat b) 1))"

definition ota_state_fail_get :: "u32 \<Rightarrow> u32" where
  "ota_state_fail_get word = drop_bit OTA_STATE_FAIL_SHIFT (word AND OTA_STATE_FAIL_MASK)"

definition ota_state_fail_encode :: "u32 \<Rightarrow> u32" where
  "ota_state_fail_encode code = push_bit OTA_STATE_FAIL_SHIFT code AND OTA_STATE_FAIL_MASK"

definition ota_state_fail_put :: "u32 \<Rightarrow> u32 \<Rightarrow> u32" where
  "ota_state_fail_put word code = word AND NOT OTA_STATE_FAIL_MASK OR ota_state_fail_encode code"

definition ota_state_partition_get :: "u32 \<Rightarrow> u32" where
  "ota_state_partition_get word = ota_state_bit_get word OTA_STATE_BIT_CURRENT"

definition ota_state_pending_get :: "u32 \<Rightarrow> u32" where
  "ota_state_pending_get word = ota_state_bit_get word OTA_STATE_BIT_PENDING"

definition ota_state_trial_get :: "u32 \<Rightarrow> u32" where
  "ota_state_trial_get word = ota_state_bit_get word OTA_STATE_BIT_TRIAL"

definition crc_stream_blank :: crc_stream_t where
  "crc_stream_blank = \<lparr>cs_reg = 0, cs_poly = 0, cs_xor_out = 0, cs_width = 0, cs_refin = False, cs_refout = False\<rparr>"

definition ota_state_crc32 :: "u32 \<Rightarrow> u32" where
  "ota_state_crc32 state_word =
     crc_stream_finish (crc_stream_feed_bitwise
       (crc_stream_start (Some crc_stream_blank) 0xFFFFFFFF True True 0xFFFFFFFF 0x04C11DB7 32) (le32 state_word))"

definition ota_state_with_magic :: "u32 \<Rightarrow> u32" where
  "ota_state_with_magic state_word = state_word AND NOT OTA_STATE_MAGIC_MASK OR OTA_STATE_MAGIC_FIELD AND OTA_STATE_MAGIC_MASK"

definition ota_state_record_build :: "u32 \<Rightarrow> u32 \<times> u32" where
  "ota_state_record_build state_word = (let word = ota_state_with_magic state_word in (word, ota_state_crc32 word))"

definition ota_state_record_valid :: "u32 \<times> u32 \<Rightarrow> bool" where
  "ota_state_record_valid r =
     (if fst r AND OTA_STATE_MAGIC_MASK \<noteq> OTA_STATE_MAGIC_FIELD AND OTA_STATE_MAGIC_MASK then False
      else snd r = ota_state_crc32 (fst r))"

definition ota_state_resolve_pending :: "u32 option \<Rightarrow> u32 \<Rightarrow> bool \<times> u32 option" where
  "ota_state_resolve_pending state fail_code =
     (case state of
        None \<Rightarrow> (False, None)
      | Some s \<Rightarrow>
          if ota_state_pending_get s = 0 then (False, Some s)
          else
            let current = ota_state_partition_get s;
                s = ota_state_bit_put s OTA_STATE_BIT_CURRENT (if current = 1 then 0 else 1);
                s = ota_state_bit_put s OTA_STATE_BIT_PENDING 0;
                s = ota_state_bit_put s OTA_STATE_BIT_TRIAL 0 in
            (True, Some (ota_state_fail_put s fail_code)))"

subsection \<open>The registered backend\<close>

text \<open>\<open>'d\<close> is the state of the medium; a missing function is a null pointer.\<close>

record 'd ota_state_ops_t =
  os_load :: "('d \<Rightarrow> (int \<times> (u32 \<times> u32)) option) option"
  os_store :: "('d \<Rightarrow> u32 \<times> u32 \<Rightarrow> (int \<times> 'd) option) option"

definition ota_state_ops_register :: "'d ota_state_ops_t option \<Rightarrow> 'd ota_state_ops_t option \<Rightarrow> int \<times> 'd ota_state_ops_t option" where
  "ota_state_ops_register s_state_ops ops =
     (case ops of
        None \<Rightarrow> (ERR_ARG, s_state_ops)
      | Some o' \<Rightarrow> if os_load o' = None \<or> os_store o' = None then (ERR_ARG, s_state_ops) else (ERR_OK, ops))"

definition ota_state_load :: "'d ota_state_ops_t option \<Rightarrow> 'd \<Rightarrow> u32 option \<Rightarrow> (int \<times> u32 option) option" where
  "ota_state_load s_state_ops d state_word =
     (case state_word of
        None \<Rightarrow> Some (ERR_ARG, None)
      | Some _ \<Rightarrow>
          (case s_state_ops of
             None \<Rightarrow> Some (ERR_NOT_SUPPORTED, state_word)
           | Some ops \<Rightarrow> do {
               f \<leftarrow> os_load ops;
               (rc, record) \<leftarrow> f d;
               if rc \<noteq> ERR_OK then Some (rc, state_word)
               else if \<not> ota_state_record_valid record then Some (ERR_OTA_STATE, state_word)
               else Some (ERR_OK, Some (fst record))
             }))"

definition ota_state_store :: "'d ota_state_ops_t option \<Rightarrow> 'd \<Rightarrow> u32 \<Rightarrow> (int \<times> 'd) option" where
  "ota_state_store s_state_ops d state_word =
     (case s_state_ops of
        None \<Rightarrow> Some (ERR_NOT_SUPPORTED, d)
      | Some ops \<Rightarrow> do { f \<leftarrow> os_store ops; f d (ota_state_record_build state_word) })"

definition ota_state_update :: "'d ota_state_ops_t option \<Rightarrow> 'd \<Rightarrow> u32 \<Rightarrow> u32 \<Rightarrow> (int \<times> 'd) option" where
  "ota_state_update s_state_ops d msk value =
     (case s_state_ops of
        None \<Rightarrow> Some (ERR_NOT_SUPPORTED, d)
      | Some ops \<Rightarrow> do {
          (rc, cur) \<leftarrow> ota_state_load s_state_ops d (Some 0);
          cur \<leftarrow> cur;
          let cur = (if rc \<noteq> ERR_OK then 0 else cur);
          ota_state_store s_state_ops d ((cur AND NOT msk OR value AND msk) AND OTA_STATE_DURABLE_MASK)
        })"

subsection \<open>The checksum of a word\<close>

abbreviation crc32_shift :: "u32 \<Rightarrow> u32" where
  "crc32_shift \<equiv> crc_shift_right 0xEDB88320 (crc_mask 32)"

lemma numeral_4_eq_4: "(4 :: nat) = Suc (Suc (Suc (Suc 0)))"
  by simp

lemma shift8_push:
  assumes "\<forall>i\<ge>24. \<not> bit y i"
  shows "(crc32_shift ^^ 8) (x XOR push_bit 8 y) = (crc32_shift ^^ 8) x XOR y"
proof -
  have "within (push_bit 8 y) 32"
    unfolding within_def using bit_imp_le_length by (fastforce simp: bit_push_bit_iff)
  then have "(crc32_shift ^^ 8) (push_bit 8 y) = drop_bit 8 (push_bit 8 y)"
    by (rule shift_right_zeros) (auto simp: bit_push_bit_iff)
  also have "\<dots> = y"
  proof (rule bit_word_eqI)
    fix n assume "n < LENGTH(32)"
    then show "bit (drop_bit 8 (push_bit 8 y)) n = bit y n"
      using assms by (cases "24 \<le> n") (auto simp: bit_drop_bit_eq bit_push_bit_iff)
  qed
  finally show ?thesis by (simp add: xor_linearD [OF xor_linear_funpow [OF shift_right_linear]])
qed

lemma crc_byte_32: "crc_byte_refin poly 32 msk reg b = (crc_shift_right poly msk ^^ 8) (reg XOR ucast b)"
  by (simp add: crc_byte_refin_def)

lemma reflected_poly: "reflect 0x04C11DB7 32 = 0xEDB88320" "reflect 0xFFFFFFFF 32 = 0xFFFFFFFF"
  by code_simp+

lemma ones: "(0xFFFFFFFF :: u32) = - 1"
  by simp

lemma le32_split:
  "w = ucast (ucast w :: u8) XOR push_bit 8 (ucast (ucast (drop_bit 8 w) :: u8) XOR
     push_bit 8 (ucast (ucast (drop_bit 16 w) :: u8) XOR push_bit 8 (ucast (ucast (drop_bit 24 w) :: u8))))" for w :: u32
proof (rule bit_word_eqI)
  fix k assume k: "k < LENGTH(32)"
  then consider "k < 8" | "8 \<le> k" "k < 16" | "16 \<le> k" "k < 24" | "24 \<le> k" by linarith
  then show "bit w k = bit (ucast (ucast w :: u8) XOR push_bit 8 (ucast (ucast (drop_bit 8 w) :: u8) XOR
     push_bit 8 (ucast (ucast (drop_bit 16 w) :: u8) XOR push_bit 8 (ucast (ucast (drop_bit 24 w) :: u8)))) :: u32) k"
    using k by cases (auto simp: bit_xor_iff bit_push_bit_iff bit_ucast_iff bit_drop_bit_eq possible_bit_word)
qed

lemma shift32_le32: "foldl (crc_byte_refin 0xEDB88320 32 (crc_mask 32)) r (le32 w) = (crc32_shift ^^ 32) (r XOR w)"
proof -
  define b0 b1 b2 b3 where b: "b0 = (ucast (ucast w :: u8) :: u32)" "b1 = (ucast (ucast (drop_bit 8 w) :: u8) :: u32)"
    "b2 = (ucast (ucast (drop_bit 16 w) :: u8) :: u32)" "b3 = (ucast (ucast (drop_bit 24 w) :: u8) :: u32)"
  let ?s = "crc32_shift ^^ 8"
  have hi: "\<not> bit b1 i" "\<not> bit b2 i" "\<not> bit b3 i" if "8 \<le> i" for i
    using that by (auto simp: b bit_ucast_iff dest: bit_u8_less)
  have "r XOR w = (r XOR b0) XOR push_bit 8 (b1 XOR push_bit 8 (b2 XOR push_bit 8 b3))"
    by (subst le32_split) (simp add: b xor.assoc)
  then have 1: "?s (r XOR w) = (?s (r XOR b0) XOR b1) XOR push_bit 8 (b2 XOR push_bit 8 b3)"
    by (simp only:) (subst shift8_push, auto simp: bit_xor_iff bit_push_bit_iff hi xor.assoc)
  have 2: "?s ((?s (r XOR b0) XOR b1) XOR push_bit 8 (b2 XOR push_bit 8 b3)) = (?s (?s (r XOR b0) XOR b1) XOR b2) XOR push_bit 8 b3"
    by (subst shift8_push) (auto simp: bit_xor_iff bit_push_bit_iff hi xor.assoc)
  have 3: "?s ((?s (?s (r XOR b0) XOR b1) XOR b2) XOR push_bit 8 b3) = ?s (?s (?s (r XOR b0) XOR b1) XOR b2) XOR b3"
    by (subst shift8_push) (auto simp: hi)
  have "crc32_shift ^^ 32 = ?s ^^ 4" by (simp add: funpow_mult)
  then have "(crc32_shift ^^ 32) (r XOR w) = ?s (?s (?s (?s (r XOR w))))" by (simp add: numeral_4_eq_4)
  then show ?thesis unfolding 1 2 3 by (simp add: le32_def crc_byte_32 b)
qed

lemma ota_crc_eq: "ota_state_crc32 w = NOT ((crc32_shift ^^ 32) (NOT w))"
proof -
  have m: "x AND crc_mask 32 = x" for x :: u32 by (rule within_mask_id) (auto simp: within_def dest: bit_imp_le_length)
  have n: "0xFFFFFFFF XOR x = NOT x" "x XOR 0xFFFFFFFF = NOT x" for x :: u32
    unfolding ones by (rule bit.xor_one_left, rule bit.xor_one_right)
  show ?thesis
    by (simp add: ota_state_crc32_def crc_stream_start_def crc_stream_blank_def reflected_poly crc_stream_feed_bitwise_def
        crc_bitwise_engine_def shift32_le32 crc_stream_finish_def crc_finalize_def Let_def m n)
qed

lemma ota_crc_blank: "ota_state_crc32 w = 0xFFFFFFFF \<longleftrightarrow> w = 0xFFFFFFFF"
proof
  assume "ota_state_crc32 w = 0xFFFFFFFF"
  then have "NOT ((crc32_shift ^^ 32) (NOT w)) = NOT 0" by (simp add: ota_crc_eq)
  then have z: "(crc32_shift ^^ 32) (NOT w) = 0" by (simp only: bit.compl_eq_compl_iff)
  have in32: "within x 32" for x by (auto simp: within_def dest: bit_imp_le_length)
  have "crc32_shift x = 0 \<Longrightarrow> x = 0" for x
    using shift_right_ker [OF in32 [of x], of "0xEDB88320"] by simp
  from funpow_ker [of 32 crc32_shift, OF this in32 in32 z] have "NOT w = 0" by simp
  then have "NOT (NOT w) = NOT 0" by (simp only:)
  then show "w = 0xFFFFFFFF" by simp
next
  assume w: "w = 0xFFFFFFFF"
  have "crc32_shift 0 = 0" by (simp add: crc_shift_right_def)
  then have "(crc32_shift ^^ n) 0 = 0" for n by (induction n) simp_all
  moreover have "NOT w = 0" by (simp only: w ones bit.compl_one)
  ultimately show "ota_state_crc32 w = 0xFFFFFFFF" by (simp only: ota_crc_eq ones bit.compl_zero)
qed

subsection \<open>Records\<close>

lemma record_build_valid: "ota_state_record_valid (ota_state_record_build w)"
proof -
  have "ota_state_with_magic w AND OTA_STATE_MAGIC_MASK = OTA_STATE_MAGIC_FIELD AND OTA_STATE_MAGIC_MASK"
    by (rule bit_word_eqI) (auto simp: ota_state_with_magic_def bit_simps)
  then show ?thesis by (simp add: ota_state_record_valid_def ota_state_record_build_def Let_def)
qed

lemma record_half_invalid: "\<not> ota_state_record_valid (w, 0xFFFFFFFF)"
proof (cases "w = 0xFFFFFFFF")
  case True
  then show ?thesis by (simp add: ota_state_record_valid_def ota_bits)
next
  case False
  then have "ota_state_crc32 w \<noteq> 0xFFFFFFFF" by (simp only: ota_crc_blank not_False_eq_True)
  then show ?thesis by (metis fst_conv ota_state_record_valid_def snd_conv)
qed

lemma with_magic_durable: "ota_state_with_magic w AND OTA_STATE_DURABLE_MASK = w AND OTA_STATE_DURABLE_MASK"
proof -
  have "OTA_STATE_MAGIC_MASK AND OTA_STATE_DURABLE_MASK = 0" by (simp add: ota_bits)
  then have d: "\<not> (bit OTA_STATE_MAGIC_MASK i \<and> bit OTA_STATE_DURABLE_MASK i)" for i by (metis bit_0_eq bit_and_iff bot_apply bot_bool_def)
  show ?thesis by (rule bit_word_eqI) (use d in \<open>auto simp: ota_state_with_magic_def bit_simps\<close>)
qed

subsection \<open>What the update logic relies on\<close>

text \<open>
  The contract of a storage backend that works: the medium represents the latest stored word or none, a load returns it,
  a store replaces it.
\<close>

fun store_all :: "'d ota_state_ops_t option \<Rightarrow> 'd \<Rightarrow> u32 list \<Rightarrow> (int list \<times> 'd) option" where
  "store_all s_state_ops d [] = Some ([], d)"
| "store_all s_state_ops d (w # ws) =
     do { (rc, d) \<leftarrow> ota_state_store s_state_ops d w; (rcs, d) \<leftarrow> store_all s_state_ops d ws; Some (rc # rcs, d) }"

locale state_store =
  fixes ops :: "'d ota_state_ops_t" and sinv :: "'d \<Rightarrow> bool" and val :: "'d \<Rightarrow> u32 option"
  assumes load_law: "sinv d \<Longrightarrow> ota_state_load (Some ops) d (Some x) =
      Some (case val d of None \<Rightarrow> (ERR_OTA_STATE, Some x) | Some w \<Rightarrow> (ERR_OK, Some w))"
    and store_law: "sinv d \<Longrightarrow> \<exists>d'. ota_state_store (Some ops) d w = Some (ERR_OK, d') \<and> sinv d' \<and> val d' = Some (ota_state_with_magic w)"
begin

lemma store_all_law:
  "sinv d \<Longrightarrow> \<exists>d'. store_all (Some ops) d ws = Some (replicate (length ws) ERR_OK, d') \<and> sinv d' \<and>
     val d' = (if ws = [] then val d else Some (ota_state_with_magic (last ws)))"
proof (induction ws arbitrary: d)
  case (Cons w ws)
  obtain d1 where "ota_state_store (Some ops) d w = Some (ERR_OK, d1)" "sinv d1" "val d1 = Some (ota_state_with_magic w)"
    using store_law [OF Cons.prems] by blast
  with Cons.IH [of d1] show ?case by auto
qed simp

definition durable :: "'d \<Rightarrow> u32" where
  "durable d = (case val d of None \<Rightarrow> 0 | Some w \<Rightarrow> w AND OTA_STATE_DURABLE_MASK)"

lemma update_law:
  assumes "sinv d"
  shows "\<exists>d'. ota_state_update (Some ops) d m v = Some (ERR_OK, d') \<and> sinv d' \<and> val d' \<noteq> None \<and>
    durable d' = (durable d AND NOT m OR v AND m) AND OTA_STATE_DURABLE_MASK"
proof -
  let ?cur = "case val d of None \<Rightarrow> 0 | Some w \<Rightarrow> w"
  let ?w = "(?cur AND NOT m OR v AND m) AND OTA_STATE_DURABLE_MASK"
  obtain d' where s: "ota_state_store (Some ops) d ?w = Some (ERR_OK, d')" "sinv d'" "val d' = Some (ota_state_with_magic ?w)"
    using store_law [OF assms] by blast
  have "ota_state_update (Some ops) d m v = Some (ERR_OK, d')"
    using s(1) load_law [OF assms, of 0] by (auto simp: ota_state_update_def split: option.splits)
  moreover have "durable d' = (durable d AND NOT m OR v AND m) AND OTA_STATE_DURABLE_MASK"
  proof -
    have "durable d' = ?w AND OTA_STATE_DURABLE_MASK" using s(3) by (simp add: durable_def with_magic_durable)
    also have "\<dots> = (durable d AND NOT m OR v AND m) AND OTA_STATE_DURABLE_MASK"
      by (rule bit_word_eqI) (auto simp: durable_def bit_simps split: option.splits)
    finally show ?thesis .
  qed
  ultimately show ?thesis using s(2,3) by blast
qed

end

end
