(* ===== verification/Ota_Flash.thy ===== *)
theory Ota_Flash
  imports Ota_State
begin

text \<open>
  \<^verbatim>\<open>lib/mini-ota/bootutil/src/flash.c\<close>, the dispatch to the flash driver, and \<^verbatim>\<open>ota_state_flash.c\<close>, the log of
  state records in one flash sector. The driver is not part of the sources: its functions are the fields of
  \<open>flash_ops_t\<close> over a device state \<open>'d\<close>.
\<close>

record flash_area =
  fa_id :: u32
  fa_device_id :: u32
  fa_offset :: u32
  fa_size :: u32

record flash_sector =
  fs_off :: u32
  fs_size :: u32

record 'd flash_ops_t =
  fl_open :: "('d \<Rightarrow> u32 \<Rightarrow> int \<times> flash_area option) option"
  fl_erase :: "('d \<Rightarrow> flash_area \<Rightarrow> nat \<Rightarrow> nat \<Rightarrow> int \<times> 'd) option"
  fl_write :: "('d \<Rightarrow> flash_area \<Rightarrow> nat \<Rightarrow> u8 list \<Rightarrow> int \<times> 'd) option"
  fl_read :: "('d \<Rightarrow> flash_area \<Rightarrow> nat \<Rightarrow> nat \<Rightarrow> int \<times> u8 list) option"
  fl_get_sectors :: "('d \<Rightarrow> flash_area \<Rightarrow> nat \<Rightarrow> int \<times> flash_sector list) option"

definition FLASH_AREA_ID_IMAGE_0 :: u32 where "FLASH_AREA_ID_IMAGE_0 = 0"
definition FLASH_AREA_ID_IMAGE_1 :: u32 where "FLASH_AREA_ID_IMAGE_1 = 1"
definition FLASH_AREA_ID_STATE :: u32 where "FLASH_AREA_ID_STATE = 3"

subsection \<open>Dispatch\<close>

definition flash_ops_register :: "'d flash_ops_t option \<Rightarrow> 'd flash_ops_t option \<Rightarrow> int \<times> 'd flash_ops_t option" where
  "flash_ops_register s_flash_ops ops =
     (case ops of
        None \<Rightarrow> (ERR_ARG, s_flash_ops)
      | Some o' \<Rightarrow>
          if fl_open o' = None \<or> fl_erase o' = None \<or> fl_write o' = None \<or> fl_read o' = None then (ERR_ARG, s_flash_ops)
          else (ERR_OK, ops))"

definition flash_area_open :: "'d flash_ops_t option \<Rightarrow> 'd \<Rightarrow> u32 \<Rightarrow> (int \<times> flash_area option) option" where
  "flash_area_open s_flash_ops d area_id =
     (case s_flash_ops of None \<Rightarrow> Some (ERR_NOT_SUPPORTED, None) | Some ops \<Rightarrow> do { f \<leftarrow> fl_open ops; Some (f d area_id) })"

definition flash_area_erase_operation :: "'d flash_ops_t option \<Rightarrow> 'd \<Rightarrow> flash_area \<Rightarrow> nat \<Rightarrow> nat \<Rightarrow> (int \<times> 'd) option" where
  "flash_area_erase_operation s_flash_ops d area off len =
     (case s_flash_ops of None \<Rightarrow> Some (ERR_NOT_SUPPORTED, d) | Some ops \<Rightarrow> do { f \<leftarrow> fl_erase ops; Some (f d area off len) })"

definition flash_area_write_operation :: "'d flash_ops_t option \<Rightarrow> 'd \<Rightarrow> flash_area \<Rightarrow> nat \<Rightarrow> u8 list \<Rightarrow> (int \<times> 'd) option" where
  "flash_area_write_operation s_flash_ops d area off buf =
     (case s_flash_ops of None \<Rightarrow> Some (ERR_NOT_SUPPORTED, d) | Some ops \<Rightarrow> do { f \<leftarrow> fl_write ops; Some (f d area off buf) })"

definition flash_area_read_operation :: "'d flash_ops_t option \<Rightarrow> 'd \<Rightarrow> flash_area \<Rightarrow> nat \<Rightarrow> nat \<Rightarrow> (int \<times> u8 list) option" where
  "flash_area_read_operation s_flash_ops d area off len =
     (case s_flash_ops of None \<Rightarrow> Some (ERR_NOT_SUPPORTED, []) | Some ops \<Rightarrow> do { f \<leftarrow> fl_read ops; Some (f d area off len) })"

definition flash_area_get_sectors :: "'d flash_ops_t option \<Rightarrow> 'd \<Rightarrow> flash_area \<Rightarrow> nat \<Rightarrow> int \<times> flash_sector list" where
  "flash_area_get_sectors s_flash_ops d area max_count =
     (case s_flash_ops of
        None \<Rightarrow> (ERR_NOT_SUPPORTED, [])
      | Some ops \<Rightarrow> (case fl_get_sectors ops of None \<Rightarrow> (ERR_NOT_SUPPORTED, []) | Some f \<Rightarrow> f d area max_count))"

subsection \<open>The log of records\<close>

definition OTA_STATE_REC_BYTES :: nat where "OTA_STATE_REC_BYTES = 8"
definition OTA_STATE_BLANK_WORD :: u32 where "OTA_STATE_BLANK_WORD = 0xFFFFFFFF"

record state_scan_t =
  sc_used :: nat
  sc_latest :: "u32 \<times> u32"
  sc_has :: bool

text \<open>The words of a record as the buffer holds them.\<close>

definition rd_record :: "u8 list \<Rightarrow> u32 \<times> u32" where
  "rd_record b = (rd32 b 0, rd32 b 4)"

definition record_blank :: "u32 \<times> u32 \<Rightarrow> bool" where
  "record_blank r \<longleftrightarrow> fst r = OTA_STATE_BLANK_WORD \<and> snd r = OTA_STATE_BLANK_WORD"

partial_function (option) scan_loop ::
    "'d flash_ops_t option \<Rightarrow> 'd \<Rightarrow> flash_area \<Rightarrow> nat \<Rightarrow> state_scan_t \<Rightarrow> (int \<times> state_scan_t) option" where
  "scan_loop fl d area off out =
     (if sz_add off OTA_STATE_REC_BYTES \<le> unat (fa_size area) then do {
        (rc, b) \<leftarrow> flash_area_read_operation fl d area off OTA_STATE_REC_BYTES;
        if rc \<noteq> ERR_OK then Some (rc, out)
        else if record_blank (rd_record b) then Some (ERR_OK, out)
        else if \<not> ota_state_record_valid (rd_record b) then Some (ERR_OK, out)
        else
          let off = sz_add off OTA_STATE_REC_BYTES in
          scan_loop fl d area off (out\<lparr>sc_latest := rd_record b, sc_has := True, sc_used := off\<rparr>)
      }
      else Some (ERR_OK, out))"

definition state_scan :: "'d flash_ops_t option \<Rightarrow> 'd \<Rightarrow> flash_area \<Rightarrow> state_scan_t \<Rightarrow> (int \<times> state_scan_t) option" where
  "state_scan fl d area out = scan_loop fl d area 0 (out\<lparr>sc_used := 0, sc_has := False\<rparr>)"

text \<open>The local variable \<open>scan\<close> starts with an indeterminate \<open>latest\<close>, which is never read unless \<open>has\<close> is set.\<close>

definition scan_fresh :: state_scan_t where
  "scan_fresh = \<lparr>sc_used = 0, sc_latest = (0, 0), sc_has = False\<rparr>"

definition flash_state_load :: "'d flash_ops_t option \<Rightarrow> 'd \<Rightarrow> (int \<times> (u32 \<times> u32)) option" where
  "flash_state_load fl d =
     do {
       (rc, area) \<leftarrow> flash_area_open fl d FLASH_AREA_ID_STATE;
       if rc \<noteq> ERR_OK then Some (rc, (0, 0))
       else case area of
         None \<Rightarrow> Some (ERR_ARG, (0, 0))
       | Some area \<Rightarrow> do {
           (rc, scan) \<leftarrow> state_scan fl d area scan_fresh;
           if rc \<noteq> ERR_OK then Some (rc, (0, 0))
           else if \<not> sc_has scan then Some (ERR_OTA_STATE, (0, 0))
           else Some (ERR_OK, sc_latest scan)
         }
     }"

text \<open>Where the next record goes: the end of the log, or the start of the sector after an erase.\<close>

definition store_offset :: "'d flash_ops_t option \<Rightarrow> 'd \<Rightarrow> flash_area \<Rightarrow> nat \<Rightarrow> (int \<times> nat \<times> 'd) option" where
  "store_offset fl d area off =
     (if unat (fa_size area) < sz_add off OTA_STATE_REC_BYTES then do {
        (rc, d) \<leftarrow> flash_area_erase_operation fl d area 0 (unat (fa_size area));
        Some (rc, 0, d)
      }
      else do {
        (rc, b) \<leftarrow> flash_area_read_operation fl d area off OTA_STATE_REC_BYTES;
        if rc = ERR_OK then
          if \<not> record_blank (rd_record b) then do {
            (rc, d) \<leftarrow> flash_area_erase_operation fl d area 0 (unat (fa_size area));
            Some (rc, 0, d)
          }
          else Some (rc, off, d)
        else Some (rc, off, d)
      })"

text \<open>The state word first, the checksum last.\<close>

definition write_words :: "'d flash_ops_t option \<Rightarrow> 'd \<Rightarrow> flash_area \<Rightarrow> nat \<Rightarrow> u32 \<times> u32 \<Rightarrow> (int \<times> 'd) option" where
  "write_words fl d area off record =
     do {
       (rc, d) \<leftarrow> flash_area_write_operation fl d area off (le32 (fst record));
       if rc \<noteq> ERR_OK then Some (rc, d)
       else flash_area_write_operation fl d area (sz_add off 4) (le32 (snd record))
     }"

definition flash_state_store :: "'d flash_ops_t option \<Rightarrow> 'd \<Rightarrow> u32 \<times> u32 \<Rightarrow> (int \<times> 'd) option" where
  "flash_state_store fl d record =
     do {
       (rc, area) \<leftarrow> flash_area_open fl d FLASH_AREA_ID_STATE;
       if rc \<noteq> ERR_OK then Some (rc, d)
       else case area of
         None \<Rightarrow> Some (ERR_ARG, d)
       | Some area \<Rightarrow>
           if unat (fa_size area) < OTA_STATE_REC_BYTES then Some (ERR_ARG, d)
           else do {
             (rc, scan) \<leftarrow> state_scan fl d area scan_fresh;
             if rc \<noteq> ERR_OK then Some (rc, d)
             else do {
               (rc, off, d) \<leftarrow> store_offset fl d area (sc_used scan);
               if rc \<noteq> ERR_OK then Some (rc, d)
               else write_words fl d area off record
             }
           }
     }"

definition s_flash_state_ops :: "'d flash_ops_t option \<Rightarrow> 'd ota_state_ops_t" where
  "s_flash_state_ops fl = \<lparr>os_load = Some (flash_state_load fl), os_store = Some (flash_state_store fl)\<rparr>"

definition ota_state_flash_register :: "'d flash_ops_t option \<Rightarrow> 'd ota_state_ops_t option \<Rightarrow> int \<times> 'd ota_state_ops_t option" where
  "ota_state_flash_register fl s_state_ops = ota_state_ops_register s_state_ops (Some (s_flash_state_ops fl))"

subsection \<open>The flash device\<close>

text \<open>
  What the code relies on, for the sector of the state: it can be opened and read; a write into blank bytes changes only
  these bytes, and stores the data when it reports success; an erase that reports success leaves the sector blank. A
  call that reports an error, or is cut by a loss of power, may have changed its range in any way.
\<close>

definition nor_flash :: "'d flash_ops_t \<Rightarrow> flash_area \<Rightarrow> ('d \<Rightarrow> u8 list) \<Rightarrow> bool" where
  "nor_flash ops area mem \<longleftrightarrow>
     (\<exists>f. fl_open ops = Some f \<and> (\<forall>d. f d FLASH_AREA_ID_STATE = (ERR_OK, Some area))) \<and>
     (\<forall>d. length (mem d) = unat (fa_size area)) \<and>
     (\<exists>f. fl_read ops = Some f \<and> (\<forall>d off n. off + n \<le> unat (fa_size area) \<longrightarrow> f d area off n = (ERR_OK, take n (drop off (mem d))))) \<and>
     (\<exists>f. fl_write ops = Some f \<and> (\<forall>d off bs rc d'. off + length bs \<le> unat (fa_size area) \<longrightarrow>
        take (length bs) (drop off (mem d)) = replicate (length bs) 0xFF \<longrightarrow> f d area off bs = (rc, d') \<longrightarrow>
        (\<exists>ys. length ys = length bs \<and> mem d' = take off (mem d) @ ys @ drop (off + length bs) (mem d) \<and> (rc = ERR_OK \<longrightarrow> ys = bs)))) \<and>
     (\<exists>f. fl_erase ops = Some f \<and> (\<forall>d rc d'. f d area 0 (unat (fa_size area)) = (rc, d') \<longrightarrow>
        rc = ERR_OK \<longrightarrow> mem d' = replicate (unat (fa_size area)) 0xFF))"

text \<open>A device on which no call fails.\<close>

definition flash_works :: "'d flash_ops_t \<Rightarrow> bool" where
  "flash_works ops \<longleftrightarrow>
     (\<forall>f d area off bs. fl_write ops = Some f \<longrightarrow> fst (f d area off bs) = ERR_OK) \<and>
     (\<forall>f d area off n. fl_erase ops = Some f \<longrightarrow> fst (f d area off n) = ERR_OK)"

lemma nor_open: "nor_flash ops area mem \<Longrightarrow> flash_area_open (Some ops) d FLASH_AREA_ID_STATE = Some (ERR_OK, Some area)"
  by (auto simp: nor_flash_def flash_area_open_def)

lemma nor_read: "nor_flash ops area mem \<Longrightarrow> off + n \<le> unat (fa_size area) \<Longrightarrow>
    flash_area_read_operation (Some ops) d area off n = Some (ERR_OK, take n (drop off (mem d)))"
  by (auto simp: nor_flash_def flash_area_read_operation_def)

lemma nor_write:
  assumes "nor_flash ops area mem" "mem d = xs @ replicate (length bs) 0xFF @ zs" "length xs = off"
  obtains rc d' ys where "flash_area_write_operation (Some ops) d area off bs = Some (rc, d')" "length ys = length bs"
    "mem d' = xs @ ys @ zs" "rc = ERR_OK \<longrightarrow> ys = bs" "flash_works ops \<longrightarrow> rc = ERR_OK"
proof -
  obtain f where f: "fl_write ops = Some f" "\<forall>d off bs rc d'. off + length bs \<le> unat (fa_size area) \<longrightarrow>
        take (length bs) (drop off (mem d)) = replicate (length bs) 0xFF \<longrightarrow> f d area off bs = (rc, d') \<longrightarrow>
        (\<exists>ys. length ys = length bs \<and> mem d' = take off (mem d) @ ys @ drop (off + length bs) (mem d) \<and> (rc = ERR_OK \<longrightarrow> ys = bs))"
    and l: "length (mem d) = unat (fa_size area)" using assms(1) unfolding nor_flash_def by blast
  obtain rc d' where r: "f d area off bs = (rc, d')" by fastforce
  have "off + length bs \<le> unat (fa_size area)" using l assms(2,3) by simp
  moreover have "take (length bs) (drop off (mem d)) = replicate (length bs) 0xFF" using assms(2,3) by simp
  ultimately obtain ys where "length ys = length bs" "mem d' = take off (mem d) @ ys @ drop (off + length bs) (mem d)" "rc = ERR_OK \<longrightarrow> ys = bs"
    using f(2) r by blast
  moreover have "flash_works ops \<longrightarrow> rc = ERR_OK" unfolding flash_works_def using f(1) r by (metis fst_conv)
  ultimately show ?thesis using that [of rc d' ys] f(1) r assms(2,3) by (simp add: flash_area_write_operation_def)
qed

lemma nor_erase:
  assumes "nor_flash ops area mem"
  obtains rc d' where "flash_area_erase_operation (Some ops) d area 0 (unat (fa_size area)) = Some (rc, d')"
    "rc = ERR_OK \<longrightarrow> mem d' = replicate (unat (fa_size area)) 0xFF" "flash_works ops \<longrightarrow> rc = ERR_OK"
proof -
  obtain f where f: "fl_erase ops = Some f" "\<forall>d rc d'. f d area 0 (unat (fa_size area)) = (rc, d') \<longrightarrow>
        rc = ERR_OK \<longrightarrow> mem d' = replicate (unat (fa_size area)) 0xFF"
    using assms unfolding nor_flash_def by blast
  obtain rc d' where r: "f d area 0 (unat (fa_size area)) = (rc, d')" by fastforce
  moreover have "flash_works ops \<longrightarrow> rc = ERR_OK" unfolding flash_works_def using f(1) r by (metis fst_conv)
  ultimately show ?thesis using that [of rc d'] f by (simp add: flash_area_erase_operation_def)
qed

subsection \<open>Logs\<close>

definition rec_bytes :: "u32 \<times> u32 \<Rightarrow> u8 list" where
  "rec_bytes r = le32 (fst r) @ le32 (snd r)"

definition log_image :: "(u32 \<times> u32) list \<Rightarrow> u8 list" where
  "log_image recs = concat (map rec_bytes recs)"

definition log_end :: "u8 list \<Rightarrow> bool" where
  "log_end tail \<longleftrightarrow> length tail < 8 \<or> \<not> ota_state_record_valid (rd_record (take 8 tail))"

definition state_of :: "(u32 \<times> u32) list \<Rightarrow> int \<times> (u32 \<times> u32)" where
  "state_of recs = (if recs = [] then (ERR_OTA_STATE, (0, 0)) else (ERR_OK, last recs))"

lemma length_rec_bytes [simp]: "length (rec_bytes r) = 8"
  by (simp add: rec_bytes_def)

lemma log_image_Nil [simp]: "log_image [] = []"
  by (simp add: log_image_def)

lemma length_log_image [simp]: "length (log_image recs) = 8 * length recs"
  by (induction recs) (simp_all add: log_image_def)

lemma log_image_snoc: "log_image (recs @ [r]) = log_image recs @ rec_bytes r"
  by (simp add: log_image_def)

lemma rd32_prefix: "length ys = n \<Longrightarrow> rd32 (ys @ le32 w) n = w"
  using rd32_at [of ys n w "[]"] by simp

lemma rd_record_bytes: "rd_record (take 8 (le32 a @ le32 b @ zs)) = (a, b)"
proof -
  have "take 8 (le32 a @ le32 b @ zs) = [] @ le32 a @ le32 b" by simp
  then show ?thesis unfolding rd_record_def using rd32_at [of "[]" 0 a "le32 b"] rd32_prefix [of "le32 a" 4 b] by simp
qed

lemma rd_record_pair [simp]: "rd_record (le32 a @ le32 b) = (a, b)"
  using rd_record_bytes [of a b "[]"] by simp

lemma valid_not_blank: "ota_state_record_valid r \<Longrightarrow> \<not> record_blank r"
  using record_half_invalid [of "fst r"] by (metis OTA_STATE_BLANK_WORD_def prod.collapse record_blank_def)

lemma scan_loop_log:
  assumes "nor_flash ops area mem" "unat (fa_size area) + 8 < 2 ^ 32" "log_end tail"
  shows "list_all ota_state_record_valid recs \<Longrightarrow> mem d = log_image pre @ log_image recs @ tail \<Longrightarrow>
    scan_loop (Some ops) d area (8 * length pre) out =
      Some (ERR_OK, if recs = [] then out
        else out\<lparr>sc_latest := last recs, sc_has := True, sc_used := 8 * (length pre + length recs)\<rparr>)"
proof (induction recs arbitrary: pre out)
  case Nil
  have len: "unat (fa_size area) = 8 * length pre + length tail"
    using assms(1) Nil.prems(2) unfolding nor_flash_def by (metis append_Nil concat.simps(1) length_append length_log_image list.map_disc_iff log_image_def)
  then have sz: "sz_add (8 * length pre) 8 = 8 * length pre + 8" using assms(2) by (simp add: sz_add_def)
  show ?case
  proof (cases "length tail < 8")
    case True
    then show ?thesis using len sz by (subst scan_loop.simps) (simp add: OTA_STATE_REC_BYTES_def)
  next
    case False
    then have "\<not> ota_state_record_valid (rd_record (take 8 tail))" using assms(3) by (simp add: log_end_def)
    moreover have "flash_area_read_operation (Some ops) d area (8 * length pre) 8 = Some (ERR_OK, take 8 tail)"
      using nor_read [OF assms(1), of "8 * length pre" 8 d] False len Nil.prems(2) by simp
    ultimately show ?thesis using False len sz by (subst scan_loop.simps) (simp add: OTA_STATE_REC_BYTES_def)
  qed
next
  case (Cons r recs)
  have m: "mem d = log_image pre @ rec_bytes r @ log_image recs @ tail" using Cons.prems(2) by (simp add: log_image_def)
  have len: "unat (fa_size area) = 8 * length pre + 8 + length (log_image recs @ tail)"
    using assms(1) m unfolding nor_flash_def by (metis (no_types, lifting) add.assoc length_append length_log_image length_rec_bytes)
  then have sz: "sz_add (8 * length pre) 8 = 8 * length pre + 8" using assms(2) by (simp add: sz_add_def)
  have "flash_area_read_operation (Some ops) d area (8 * length pre) 8 = Some (ERR_OK, rec_bytes r)"
    using nor_read [OF assms(1), of "8 * length pre" 8 d] len m by simp
  moreover have "rd_record (rec_bytes r) = r" using rd_record_bytes [of "fst r" "snd r" "[]"] by (simp add: rec_bytes_def)
  moreover have "ota_state_record_valid r" "\<not> record_blank r" using Cons.prems(1) valid_not_blank by simp_all
  ultimately have "scan_loop (Some ops) d area (8 * length pre) out =
      scan_loop (Some ops) d area (8 * length (pre @ [r])) (out\<lparr>sc_latest := r, sc_has := True, sc_used := 8 * length (pre @ [r])\<rparr>)"
    using len sz by (subst scan_loop.simps) (simp add: OTA_STATE_REC_BYTES_def Let_def algebra_simps)
  moreover have "mem d = log_image (pre @ [r]) @ log_image recs @ tail" using m by (simp add: log_image_snoc)
  ultimately show ?case using Cons.IH [of "pre @ [r]"] Cons.prems(1) by (simp add: algebra_simps)
qed

definition sector_ok :: "u8 list \<Rightarrow> (u32 \<times> u32) list \<Rightarrow> bool" where
  "sector_ok m recs \<longleftrightarrow> list_all ota_state_record_valid recs \<and>
     (\<exists>tail. m = log_image recs @ tail \<and> log_end tail \<and> (set tail \<subseteq> {0xFF} \<or> length tail < 8 \<or> \<not> record_blank (rd_record (take 8 tail))))"

definition state_area :: "'d flash_ops_t \<Rightarrow> flash_area \<Rightarrow> ('d \<Rightarrow> u8 list) \<Rightarrow> bool" where
  "state_area ops area mem \<longleftrightarrow> nor_flash ops area mem \<and> OTA_STATE_REC_BYTES \<le> unat (fa_size area) \<and> unat (fa_size area) + 8 < 2 ^ 32"

lemma state_scan_log:
  assumes "state_area ops area mem" "sector_ok (mem d) recs"
  shows "\<exists>sc. state_scan (Some ops) d area scan_fresh = Some (ERR_OK, sc) \<and> sc_used sc = 8 * length recs \<and>
    sc_has sc = (recs \<noteq> []) \<and> (recs \<noteq> [] \<longrightarrow> sc_latest sc = last recs)"
proof -
  obtain tail where t: "list_all ota_state_record_valid recs" "mem d = log_image recs @ tail" "log_end tail"
    using assms(2) by (auto simp: sector_ok_def)
  have "mem d = log_image [] @ log_image recs @ tail" using t(2) by (simp add: log_image_def)
  from scan_loop_log [of ops area mem, OF _ _ t(3,1) this] assms(1) show ?thesis
    by (auto simp: state_area_def state_scan_def scan_fresh_def)
qed

lemma flash_load_log:
  assumes "state_area ops area mem" "sector_ok (mem d) recs"
  shows "flash_state_load (Some ops) d = Some (state_of recs)"
  using state_scan_log [OF assms] nor_open [of ops area mem d] assms(1)
  by (auto simp: flash_state_load_def state_of_def state_area_def)

subsection \<open>Storing\<close>

lemma blank_bytes: "replicate 4 0xFF = le32 0xFFFFFFFF"
  by code_simp

lemma blank_split: "8 \<le> k \<Longrightarrow> replicate k (0xFF :: u8) = replicate 4 0xFF @ replicate 4 0xFF @ replicate (k - 8) 0xFF"
  by (simp flip: replicate_add)

lemma any_word: "length ys = 4 \<Longrightarrow> \<exists>w. ys = le32 w"
proof -
  assume "length ys = 4"
  then obtain a b c e where ys: "ys = [a, b, c, e]" by (auto simp: length_Suc_conv numeral_eq_Suc)
  have "le32 (rd32 [a, b, c, e] 0) = [a, b, c, e]"
    unfolding le32_def rd32_def list.inject
    by (intro conjI refl; rule bit_word_eqI)
      (auto simp: bit_ucast_iff bit_drop_bit_eq bit_or_iff bit_push_bit_iff possible_bit_word dest: bit_u8_less)
  then show ?thesis using ys by metis
qed

lemma blank_end:
  shows "log_end (replicate k 0xFF)"
proof (cases "8 \<le> k")
  case True
  then show ?thesis
    using rd_record_bytes [of "0xFFFFFFFF" "0xFFFFFFFF" "replicate (k - 8) 0xFF"] record_half_invalid [of "0xFFFFFFFF"]
    unfolding blank_split [OF True] blank_bytes log_end_def by metis
qed (simp add: log_end_def)

lemma sector_blank: "list_all ota_state_record_valid recs \<Longrightarrow> sector_ok (log_image recs @ replicate k 0xFF) recs"
  by (auto simp: sector_ok_def blank_end)

lemma sector_torn:
  "list_all ota_state_record_valid recs \<Longrightarrow> \<not> ota_state_record_valid (w, v) \<Longrightarrow> \<not> record_blank (w, v) \<Longrightarrow>
   sector_ok (log_image recs @ le32 w @ le32 v @ rest) recs"
  by (auto simp: sector_ok_def log_end_def)

lemma sector_half: "list_all ota_state_record_valid recs \<Longrightarrow> sector_ok (log_image recs @ le32 w @ le32 0xFFFFFFFF @ replicate k 0xFF) recs"
proof (cases "w = 0xFFFFFFFF")
  case True
  assume "list_all ota_state_record_valid recs"
  moreover have "le32 w @ le32 0xFFFFFFFF @ replicate k 0xFF = replicate (k + 8) 0xFF"
    using blank_split [of "k + 8"] by (simp add: True blank_bytes)
  ultimately show ?thesis using sector_blank by metis
next
  case False
  assume "list_all ota_state_record_valid recs"
  then show ?thesis using False record_half_invalid by (intro sector_torn) (auto simp: record_blank_def OTA_STATE_BLANK_WORD_def)
qed

lemma sector_full:
  assumes "list_all ota_state_record_valid recs" "ota_state_record_valid (w, c)"
  shows "\<exists>recs'. sector_ok (log_image recs @ le32 w @ le32 v @ replicate k 0xFF) recs' \<and> (if v = c then recs' = recs @ [(w, c)] else recs' = recs)"
proof (cases "v = c")
  case True
  have "log_image recs @ le32 w @ le32 v @ replicate k 0xFF = log_image (recs @ [(w, c)]) @ replicate k 0xFF"
    by (simp add: log_image_snoc rec_bytes_def True)
  moreover have "list_all ota_state_record_valid (recs @ [(w, c)])" using assms by simp
  ultimately show ?thesis using sector_blank True by metis
next
  case False
  then have "\<not> ota_state_record_valid (w, v)" using assms(2) by (auto simp: ota_state_record_valid_def split: if_splits)
  moreover have "w \<noteq> 0xFFFFFFFF" using assms(2) by (auto simp: ota_state_record_valid_def ota_bits split: if_splits)
  ultimately show ?thesis using False assms(1)
    using sector_torn [of recs w v "replicate k 0xFF"] by (auto simp: record_blank_def OTA_STATE_BLANK_WORD_def)
qed

text \<open>Writing a record into blank bytes: whatever fails, the log ends as before or has the whole record.\<close>

lemma write_record_atomic:
  assumes "nor_flash ops area mem" "mem d = log_image recs @ replicate k 0xFF" "8 \<le> k" "list_all ota_state_record_valid recs"
    and "ota_state_record_valid (w, c)" "8 * length recs + 4 < 2 ^ 32"
  shows "\<exists>rc d' recs'. write_words (Some ops) d area (8 * length recs) (w, c) = Some (rc, d') \<and>
    sector_ok (mem d') recs' \<and> recs' \<in> {recs, recs @ [(w, c)]} \<and> (rc = ERR_OK \<longrightarrow> recs' = recs @ [(w, c)]) \<and> (flash_works ops \<longrightarrow> rc = ERR_OK)"
proof -
  have "mem d = log_image recs @ replicate (length (le32 w)) 0xFF @ le32 0xFFFFFFFF @ replicate (k - 8) 0xFF"
    using assms(2) blank_split [OF assms(3)] blank_bytes by simp
  then obtain rc1 d1 ys where 1: "flash_area_write_operation (Some ops) d area (8 * length recs) (le32 w) = Some (rc1, d1)" "length ys = length (le32 w)"
    "mem d1 = log_image recs @ ys @ le32 0xFFFFFFFF @ replicate (k - 8) 0xFF" "rc1 = ERR_OK \<longrightarrow> ys = le32 w" "flash_works ops \<longrightarrow> rc1 = ERR_OK"
    by (rule nor_write [OF assms(1)]) simp
  obtain u where u: "ys = le32 u" using any_word 1(2) by auto
  show ?thesis
  proof (cases "rc1 = ERR_OK")
    case False
    then show ?thesis using 1 u sector_half [OF assms(4), of u "k - 8"] by (auto simp: write_words_def)
  next
    case True
    have "mem d1 = (log_image recs @ le32 w) @ replicate (length (le32 c)) 0xFF @ replicate (k - 8) 0xFF"
      using 1(3,4) True blank_bytes by simp
    moreover have "length (log_image recs @ le32 w) = sz_add (8 * length recs) 4" using assms(6) by (simp add: sz_add_def)
    ultimately obtain rc2 d2 zs where 2: "flash_area_write_operation (Some ops) d1 area (sz_add (8 * length recs) 4) (le32 c) = Some (rc2, d2)"
      "length zs = length (le32 c)" "mem d2 = (log_image recs @ le32 w) @ zs @ replicate (k - 8) 0xFF" "rc2 = ERR_OK \<longrightarrow> zs = le32 c" "flash_works ops \<longrightarrow> rc2 = ERR_OK"
      by (rule nor_write [OF assms(1)])
    obtain v where v: "zs = le32 v" using any_word 2(2) by auto
    have "rc2 = ERR_OK \<longrightarrow> v = c" using 2(4) v rd32_prefix [of "[]" 0] by (metis append_Nil list.size(3))
    with sector_full [OF assms(4,5), of v "k - 8"] 1(1) 2(1,3,5) v True show ?thesis by (auto simp: write_words_def split: if_splits)
  qed
qed

lemma store_append:
  assumes "state_area ops area mem" "mem d = log_image recs @ replicate k 0xFF" "8 \<le> k" "list_all ota_state_record_valid recs"
    and "ota_state_record_valid r"
  shows "\<exists>rc d' recs'. flash_state_store (Some ops) d r = Some (rc, d') \<and>
    sector_ok (mem d') recs' \<and> recs' \<in> {recs, recs @ [r]} \<and> (rc = ERR_OK \<longrightarrow> recs' = recs @ [r]) \<and> (flash_works ops \<longrightarrow> rc = ERR_OK)"
proof -
  have a: "nor_flash ops area mem" "8 \<le> unat (fa_size area)" "unat (fa_size area) + 8 < 2 ^ 32"
    using assms(1) by (simp_all add: state_area_def OTA_STATE_REC_BYTES_def)
  have len: "unat (fa_size area) = 8 * length recs + k"
    using a(1) assms(2) unfolding nor_flash_def by (metis length_append length_log_image length_replicate)
  obtain sc where sc: "state_scan (Some ops) d area scan_fresh = Some (ERR_OK, sc)" "sc_used sc = 8 * length recs"
    using state_scan_log [OF assms(1)] sector_blank [OF assms(4)] assms(2) by metis
  have "flash_area_read_operation (Some ops) d area (8 * length recs) 8 = Some (ERR_OK, le32 0xFFFFFFFF @ le32 0xFFFFFFFF)"
    using nor_read [OF a(1), of "8 * length recs" 8 d] len assms(2,3) blank_split [OF assms(3)] blank_bytes by simp
  then have off: "store_offset (Some ops) d area (8 * length recs) = Some (ERR_OK, 8 * length recs, d)"
    using len a(3) assms(3) by (simp add: store_offset_def OTA_STATE_REC_BYTES_def sz_add_def record_blank_def OTA_STATE_BLANK_WORD_def)
  have "8 * length recs + 4 < 2 ^ 32" using len a(3) assms(3) by simp
  from write_record_atomic [OF a(1) assms(2-4), of "fst r" "snd r", OF _ this] assms(5)
  show ?thesis using sc off nor_open [OF a(1), of d] a(2)
    by (simp add: flash_state_store_def OTA_STATE_REC_BYTES_def)
qed

lemma store_erase:
  assumes "state_area ops area mem" "mem d = log_image recs @ tail" "log_end tail" "length tail < 8 \<or> \<not> record_blank (rd_record (take 8 tail))"
    and "list_all ota_state_record_valid recs" "ota_state_record_valid r"
    and "flash_area_erase_operation (Some ops) d area 0 (unat (fa_size area)) = Some (rc0, d0)" "rc0 = ERR_OK \<longrightarrow> mem d0 = replicate (unat (fa_size area)) 0xFF"
  shows "\<exists>rc d'. flash_state_store (Some ops) d r = Some (rc, d') \<and>
    (if rc0 \<noteq> ERR_OK then rc = rc0 \<and> d' = d0
     else write_words (Some ops) d0 area 0 r = Some (rc, d') \<and>
       (\<exists>recs'. sector_ok (mem d') recs' \<and> recs' \<in> {[], [r]} \<and> (rc = ERR_OK \<longrightarrow> recs' = [r])) \<and> (flash_works ops \<longrightarrow> rc = ERR_OK))"
proof -
  have a: "nor_flash ops area mem" "8 \<le> unat (fa_size area)" "unat (fa_size area) + 8 < 2 ^ 32"
    using assms(1) by (simp_all add: state_area_def OTA_STATE_REC_BYTES_def)
  have len: "unat (fa_size area) = 8 * length recs + length tail"
    using a(1) assms(2) unfolding nor_flash_def by (metis length_append length_log_image)
  have ok: "sector_ok (mem d) recs" using assms(2-5) by (auto simp: sector_ok_def)
  obtain sc where sc: "state_scan (Some ops) d area scan_fresh = Some (ERR_OK, sc)" "sc_used sc = 8 * length recs"
    using state_scan_log [OF assms(1) ok] by metis
  have off: "store_offset (Some ops) d area (8 * length recs) = Some (rc0, 0, d0)"
  proof (cases "length tail < 8")
    case True
    then show ?thesis using len a(3) assms(7) by (simp add: store_offset_def OTA_STATE_REC_BYTES_def sz_add_def)
  next
    case False
    have "flash_area_read_operation (Some ops) d area (8 * length recs) 8 = Some (ERR_OK, take 8 tail)"
      using nor_read [OF a(1), of "8 * length recs" 8 d] len assms(2) False by simp
    then show ?thesis using False len a(3) assms(4,7) by (simp add: store_offset_def OTA_STATE_REC_BYTES_def sz_add_def)
  qed
  note st = sc off nor_open [OF a(1), of d] a(2)
  show ?thesis
  proof (cases "rc0 = ERR_OK")
    case False
    then show ?thesis using st by (simp add: flash_state_store_def OTA_STATE_REC_BYTES_def)
  next
    case True
    then have "mem d0 = log_image [] @ replicate (unat (fa_size area)) 0xFF" using assms(8) by simp
    from write_record_atomic [OF a(1) this a(2), of "fst r" "snd r"] assms(6)
    have "\<exists>rc d' recs'. write_words (Some ops) d0 area 0 r = Some (rc, d') \<and> sector_ok (mem d') recs' \<and> recs' \<in> {[], [r]} \<and>
        (rc = ERR_OK \<longrightarrow> recs' = [r]) \<and> (flash_works ops \<longrightarrow> rc = ERR_OK)"
      by simp
    then show ?thesis using st True by (simp add: flash_state_store_def OTA_STATE_REC_BYTES_def) blast
  qed
qed

lemma store_works:
  assumes "state_area ops area mem" "flash_works ops" "sector_ok (mem d) recs" "ota_state_record_valid r"
  shows "\<exists>d' recs'. flash_state_store (Some ops) d r = Some (ERR_OK, d') \<and> sector_ok (mem d') recs' \<and> recs' \<noteq> [] \<and> last recs' = r"
proof -
  obtain tail where t: "mem d = log_image recs @ tail" "log_end tail" "list_all ota_state_record_valid recs"
    "set tail \<subseteq> {0xFF} \<or> length tail < 8 \<or> \<not> record_blank (rd_record (take 8 tail))"
    using assms(3) by (auto simp: sector_ok_def)
  show ?thesis
  proof (cases "length tail < 8 \<or> \<not> record_blank (rd_record (take 8 tail))")
    case True
    obtain rc d0 where e: "flash_area_erase_operation (Some ops) d area 0 (unat (fa_size area)) = Some (rc, d0)"
      "rc = ERR_OK \<longrightarrow> mem d0 = replicate (unat (fa_size area)) 0xFF" "flash_works ops \<longrightarrow> rc = ERR_OK"
      using nor_erase [of ops area mem d] assms(1) unfolding state_area_def by metis
    from store_erase [OF assms(1) t(1,2) True t(3) assms(4) e(1,2)] e(3) assms(2) show ?thesis by (metis last.simps list.distinct(1))
  next
    case False
    then have "tail = replicate (length tail) 0xFF" using t(4) by (intro replicate_eqI) auto
    then have m: "mem d = log_image recs @ replicate (length tail) 0xFF" using t(1) by simp
    have "8 \<le> length tail" using False by simp
    from store_append [OF assms(1) m this t(3) assms(4)] assms(2) show ?thesis by (metis last_snoc snoc_eq_iff_butlast)
  qed
qed

subsection \<open>The log as a backend\<close>

definition flash_val :: "'d flash_ops_t \<Rightarrow> 'd \<Rightarrow> u32 option" where
  "flash_val ops d = (case flash_state_load (Some ops) d of Some (rc, r) \<Rightarrow> if rc = ERR_OK then Some (fst r) else None | None \<Rightarrow> None)"

definition flash_store_inv :: "'d flash_ops_t \<Rightarrow> flash_area \<Rightarrow> ('d \<Rightarrow> u8 list) \<Rightarrow> 'd \<Rightarrow> bool" where
  "flash_store_inv ops area mem d \<longleftrightarrow> state_area ops area mem \<and> flash_works ops \<and> (\<exists>recs. sector_ok (mem d) recs)"

lemma sector_ok_valid: "sector_ok m recs \<Longrightarrow> recs \<noteq> [] \<Longrightarrow> ota_state_record_valid (last recs)"
  by (auto simp: sector_ok_def list_all_iff)

interpretation fs: state_store "s_flash_state_ops (Some ops)" "flash_store_inv ops area mem" "flash_val ops" for ops area mem
proof (unfold_locales, goal_cases)
  case (1 d x)
  then obtain recs where "state_area ops area mem" "sector_ok (mem d) recs" by (auto simp: flash_store_inv_def)
  then show ?case using flash_load_log [of ops area mem d recs] sector_ok_valid [of "mem d" recs]
    by (auto simp: flash_val_def ota_state_load_def s_flash_state_ops_def state_of_def)
next
  case (2 d w)
  then obtain recs where i: "state_area ops area mem" "flash_works ops" "sector_ok (mem d) recs" by (auto simp: flash_store_inv_def)
  from store_works [OF i record_build_valid, of w]
  obtain d' recs' where r: "flash_state_store (Some ops) d (ota_state_record_build w) = Some (ERR_OK, d')" "sector_ok (mem d') recs'" "recs' \<noteq> []"
    "last recs' = ota_state_record_build w" by blast
  then show ?case using flash_load_log [OF i(1) r(2)] i(1,2)
    by (auto simp: ota_state_store_def s_flash_state_ops_def flash_val_def state_of_def flash_store_inv_def ota_state_record_build_def Let_def)
qed

subsection \<open>Properties\<close>

text \<open>
  C3. Appending a record is atomic: on a sector whose log has room, however the two writes of a store fail or are cut,
  a later load finds the previous latest record (or none, as before) or the complete new one; when the store reports
  success it finds the new one.
\<close>

theorem ota_state_append_atomic:
  assumes "state_area ops area mem" "list_all ota_state_record_valid recs" "mem d = log_image recs @ replicate k 0xFF"
    and "OTA_STATE_REC_BYTES \<le> k" "ota_state_record_valid r"
  shows "\<exists>rc d'. flash_state_store (Some ops) d r = Some (rc, d') \<and>
    flash_state_load (Some ops) d' \<in> {Some (state_of recs), Some (ERR_OK, r)} \<and>
    (rc = ERR_OK \<longrightarrow> flash_state_load (Some ops) d' = Some (ERR_OK, r))"
proof -
  have "8 \<le> k" using assms(4) by (simp add: OTA_STATE_REC_BYTES_def)
  from store_append [OF assms(1,3) this assms(2,5)] obtain rc d' recs' where
    "flash_state_store (Some ops) d r = Some (rc, d')" "sector_ok (mem d') recs'" "recs' \<in> {recs, recs @ [r]}" "rc = ERR_OK \<longrightarrow> recs' = recs @ [r]"
    by blast
  with flash_load_log [OF assms(1)] show ?thesis by (auto simp: state_of_def)
qed

text \<open>
  C31. A full log is not replaced atomically: when there is no room for another record the sector is erased first, and if
  the write of the new record then fails, the old record is gone and a load finds none.
\<close>

theorem ota_state_full_log_window:
  assumes "state_area ops area mem" "list_all ota_state_record_valid recs" "mem d = log_image recs" "ota_state_record_valid r"
    and "fl_erase ops = Some er" "er d area 0 (unat (fa_size area)) = (ERR_OK, d1)"
    and "fl_write ops = Some wr" "wr d1 area 0 (le32 (fst r)) = (rc, d2)" "rc \<noteq> ERR_OK"
  shows "flash_state_store (Some ops) d r = Some (rc, d2) \<and> flash_state_load (Some ops) d2 = Some (ERR_OTA_STATE, (0, 0))"
proof -
  have e: "flash_area_erase_operation (Some ops) d area 0 (unat (fa_size area)) = Some (ERR_OK, d1)"
    using assms(5,6) by (simp add: flash_area_erase_operation_def)
  have blank: "mem d1 = replicate (unat (fa_size area)) 0xFF"
    using assms(1,5,6) unfolding state_area_def nor_flash_def by (metis option.inject)
  then have m: "mem d1 = [] @ replicate (length (le32 (fst r))) 0xFF @ le32 0xFFFFFFFF @ replicate (unat (fa_size area) - 8) 0xFF"
    using blank_split [of "unat (fa_size area)"] blank_bytes assms(1) by (simp add: state_area_def OTA_STATE_REC_BYTES_def)
  have "mem d = log_image recs @ []" "log_end []" using assms(3) by (simp_all add: log_end_def)
  from store_erase [OF assms(1) this _ assms(2,4) e] blank have s: "flash_state_store (Some ops) d r = write_words (Some ops) d1 area 0 r"
    by auto
  have nor: "nor_flash ops area mem" using assms(1) by (simp add: state_area_def)
  have w: "flash_area_write_operation (Some ops) d1 area 0 (le32 (fst r)) = Some (rc, d2)"
    using assms(7,8) by (simp add: flash_area_write_operation_def)
  obtain ys where ys: "length ys = 4" "mem d2 = ys @ le32 0xFFFFFFFF @ replicate (unat (fa_size area) - 8) 0xFF"
    by (rule nor_write [OF nor m, of 0]) (simp_all add: w)
  then obtain u where "ys = le32 u" using any_word by blast
  with ys(2) have "sector_ok (mem d2) []" using sector_half [of "[]" u "unat (fa_size area) - 8"] by simp
  with flash_load_log [OF assms(1), of d2 "[]"] s w assms(9) show ?thesis by (simp add: state_of_def write_words_def)
qed

text \<open>A device in memory on which all calls fail once the given number of writes and erases is used up.\<close>

definition cut_area :: flash_area where
  "cut_area = \<lparr>fa_id = FLASH_AREA_ID_STATE, fa_device_id = 0, fa_offset = 0, fa_size = 16\<rparr>"

definition cut_blank :: "u8 list" where
  "cut_blank = replicate 16 0xFF"

lemma length_cut_blank: "length cut_blank = 16"
  by (simp add: cut_blank_def)

definition cut_mem :: "u8 list \<times> nat \<Rightarrow> u8 list" where
  "cut_mem d = take 16 (fst d @ replicate (16 - length (fst d)) 0xFF)"

definition cut_flash :: "(u8 list \<times> nat) flash_ops_t" where
  "cut_flash = \<lparr>fl_open = Some (\<lambda>d i. (ERR_OK, Some cut_area)),
     fl_erase = Some (\<lambda>d area off n. if snd d = 0 then (- 1, d) else (ERR_OK, (cut_blank, snd d - 1))),
     fl_write = Some (\<lambda>d area off bs. if snd d = 0 then (- 1, d) else (ERR_OK, (blit (cut_mem d) off bs, snd d - 1))),
     fl_read = Some (\<lambda>d area off n. (ERR_OK, take n (drop off (cut_mem d)))), fl_get_sectors = None\<rparr>"

lemma take_mid: "take off m @ take n (drop off m) @ drop (off + n) m = m"
  by (metis append_take_drop_id drop_drop add.commute)

lemma length_cut_mem: "length (cut_mem d) = 16"
  by (simp add: cut_mem_def)

lemma cut_nor: "state_area cut_flash cut_area cut_mem"
proof -
  have id: "cut_mem (m, k) = m" if "length m = 16" for m k using that by (simp add: cut_mem_def)
  have w: "\<exists>ys. length ys = length bs \<and> cut_mem d' = take off (cut_mem d) @ ys @ drop (off + length bs) (cut_mem d) \<and> (rc = ERR_OK \<longrightarrow> ys = bs)"
    if "off + length bs \<le> 16" "(if snd d = 0 then (- 1, d) else (ERR_OK, (blit (cut_mem d) off bs, snd d - 1))) = (rc, d')" for d d' off bs rc
  proof (cases "snd d = 0")
    case True
    then show ?thesis using that length_cut_mem [of d]
      by (intro exI [of _ "take (length bs) (drop off (cut_mem d))"]) (auto simp: take_mid)
  next
    case False
    then show ?thesis using that length_cut_mem [of d] by (intro exI [of _ bs]) (auto simp: id blit_def)
  qed
  have "nor_flash cut_flash cut_area cut_mem"
    unfolding nor_flash_def
  proof (intro conjI)
    show "\<exists>f. fl_open cut_flash = Some f \<and> (\<forall>d. f d FLASH_AREA_ID_STATE = (ERR_OK, Some cut_area))" by (simp add: cut_flash_def)
    show "\<forall>d. length (cut_mem d) = unat (fa_size cut_area)" by (simp add: length_cut_mem cut_area_def)
    show "\<exists>f. fl_read cut_flash = Some f \<and> (\<forall>d off n. off + n \<le> unat (fa_size cut_area) \<longrightarrow> f d cut_area off n = (ERR_OK, take n (drop off (cut_mem d))))"
      by (simp add: cut_flash_def)
    show "\<exists>f. fl_write cut_flash = Some f \<and> (\<forall>d off bs rc d'. off + length bs \<le> unat (fa_size cut_area) \<longrightarrow>
        take (length bs) (drop off (cut_mem d)) = replicate (length bs) 0xFF \<longrightarrow> f d cut_area off bs = (rc, d') \<longrightarrow>
        (\<exists>ys. length ys = length bs \<and> cut_mem d' = take off (cut_mem d) @ ys @ drop (off + length bs) (cut_mem d) \<and> (rc = ERR_OK \<longrightarrow> ys = bs)))"
      using w by (simp add: cut_flash_def cut_area_def)
    show "\<exists>f. fl_erase cut_flash = Some f \<and> (\<forall>d rc d'. f d cut_area 0 (unat (fa_size cut_area)) = (rc, d') \<longrightarrow>
        rc = ERR_OK \<longrightarrow> cut_mem d' = replicate (unat (fa_size cut_area)) 0xFF)"
      using id [of cut_blank] by (auto simp: cut_flash_def cut_area_def length_cut_blank split: if_splits) (simp add: cut_blank_def)
  qed
  then show ?thesis by (simp add: state_area_def cut_area_def OTA_STATE_REC_BYTES_def)
qed

definition old_record :: "u32 \<times> u32" where
  "old_record = ota_state_record_build 0x40"

definition new_record :: "u32 \<times> u32" where
  "new_record = ota_state_record_build 0x80"

lemma witness_records: "ota_state_record_valid old_record" "ota_state_record_valid new_record"
  by (simp_all add: old_record_def new_record_def record_build_valid)

lemma cut_mem_id: "length m = 16 \<Longrightarrow> cut_mem (m, n) = m"
  by (simp add: cut_mem_def)

theorem ota_state_append_atomic_witness:
  "\<exists>rc d'. flash_state_store (Some cut_flash) (log_image [old_record] @ replicate 8 0xFF, 1) new_record = Some (rc, d') \<and>
    flash_state_load (Some cut_flash) d' \<in> {Some (ERR_OK, old_record), Some (ERR_OK, new_record)}"
proof -
  have "cut_mem (log_image [old_record] @ replicate 8 0xFF, 1) = log_image [old_record] @ replicate 8 0xFF"
    by (intro cut_mem_id) (simp only: length_append length_log_image length_replicate, simp)
  from ota_state_append_atomic [OF cut_nor _ this, of new_record] witness_records show ?thesis
    by (auto simp: OTA_STATE_REC_BYTES_def state_of_def)
qed

theorem ota_state_full_log_window_witness:
  "flash_state_store (Some cut_flash) (log_image [old_record, old_record], 1) new_record = Some (- 1, (cut_blank, 0)) \<and>
   flash_state_load (Some cut_flash) (cut_blank, 0) = Some (ERR_OTA_STATE, (0, 0))"
proof -
  have m: "cut_mem (log_image [old_record, old_record], 1) = log_image [old_record, old_record]"
    by (intro cut_mem_id) (simp only: length_log_image, simp)
  show ?thesis
    by (rule ota_state_full_log_window [OF cut_nor _ m, where ?d1.0 = "(cut_blank, 0)" and
          er = "\<lambda>d area off n. if snd d = 0 then (- 1, d) else (ERR_OK, (cut_blank, snd d - 1))" and
          wr = "\<lambda>d area off bs. if snd d = 0 then (- 1, d) else (ERR_OK, (blit (cut_mem d) off bs, snd d - 1))"])
      (use witness_records in \<open>simp_all add: cut_flash_def\<close>)
qed

text \<open>
  C24. On a device that works, from any sector in order (a log, blank or ended by a torn record), any number of stores
  through the registered backend succeed, across erases of the full sector, and a load returns the last stored word with
  the magic number put in.
\<close>

theorem ota_state_log_roundtrip:
  assumes "flash_store_inv ops area mem d" "ws \<noteq> []"
  shows "\<exists>so d'. ota_state_flash_register (Some ops) None = (ERR_OK, so) \<and> store_all so d ws = Some (replicate (length ws) ERR_OK, d') \<and>
    ota_state_load so d' (Some x) = Some (ERR_OK, Some (ota_state_with_magic (last ws)))"
proof -
  obtain d' where d': "store_all (Some (s_flash_state_ops (Some ops))) d ws = Some (replicate (length ws) ERR_OK, d')"
    "flash_store_inv ops area mem d'" "flash_val ops d' = Some (ota_state_with_magic (last ws))"
    using fs.store_all_law [OF assms(1), of ws] assms(2) by auto
  with fs.load_law [OF d'(2), of x] show ?thesis
    by (simp add: ota_state_flash_register_def ota_state_ops_register_def s_flash_state_ops_def)
qed

text \<open>A device in memory that never fails.\<close>

definition ram_flash :: "u8 list flash_ops_t" where
  "ram_flash = \<lparr>fl_open = Some (\<lambda>d i. (ERR_OK, Some cut_area)), fl_erase = Some (\<lambda>d area off n. (ERR_OK, cut_blank)),
     fl_write = Some (\<lambda>d area off bs. (ERR_OK, blit (cut_mem (d, 0)) off bs)),
     fl_read = Some (\<lambda>d area off n. (ERR_OK, take n (drop off (cut_mem (d, 0))))), fl_get_sectors = None\<rparr>"

lemma ram_area: "state_area ram_flash cut_area (\<lambda>d. cut_mem (d, 0))"
proof -
  have "nor_flash ram_flash cut_area (\<lambda>d. cut_mem (d, 0))"
    unfolding nor_flash_def
  proof (intro conjI)
    show "\<exists>f. fl_erase ram_flash = Some f \<and> (\<forall>d rc d'. f d cut_area 0 (unat (fa_size cut_area)) = (rc, d') \<longrightarrow>
        rc = ERR_OK \<longrightarrow> cut_mem (d', 0) = replicate (unat (fa_size cut_area)) 0xFF)"
      using cut_mem_id [OF length_cut_blank, of 0] by (simp add: ram_flash_def cut_area_def) (simp add: cut_blank_def)
    show "\<exists>f. fl_write ram_flash = Some f \<and> (\<forall>d off bs rc d'. off + length bs \<le> unat (fa_size cut_area) \<longrightarrow>
        take (length bs) (drop off (cut_mem (d, 0))) = replicate (length bs) 0xFF \<longrightarrow> f d cut_area off bs = (rc, d') \<longrightarrow>
        (\<exists>ys. length ys = length bs \<and> cut_mem (d', 0) = take off (cut_mem (d, 0)) @ ys @ drop (off + length bs) (cut_mem (d, 0)) \<and> (rc = ERR_OK \<longrightarrow> ys = bs)))"
      using length_cut_mem by (auto simp: ram_flash_def cut_area_def cut_mem_id blit_def)
  qed (simp_all add: ram_flash_def length_cut_mem cut_area_def)
  then show ?thesis by (simp add: state_area_def cut_area_def OTA_STATE_REC_BYTES_def)
qed

lemma ram_inv: "flash_store_inv ram_flash cut_area (\<lambda>d. cut_mem (d, 0)) cut_blank"
proof -
  have "cut_mem (cut_blank, 0) = log_image [] @ replicate 16 0xFF"
    using cut_mem_id [OF length_cut_blank, of 0] by (simp add: cut_blank_def)
  then have "sector_ok (cut_mem (cut_blank, 0)) []" using sector_blank [of "[]" 16] by (metis list.pred_inject(1))
  then show ?thesis using ram_area by (auto simp: flash_store_inv_def flash_works_def ram_flash_def)
qed

theorem ota_state_log_roundtrip_witness:
  "\<exists>so d'. ota_state_flash_register (Some ram_flash) None = (ERR_OK, so) \<and> store_all so cut_blank [0x40, 0x80, 0x10] = Some ([0, 0, 0], d') \<and>
    ota_state_load so d' (Some 0) = Some (ERR_OK, Some (ota_state_with_magic 0x10))"
  using ota_state_log_roundtrip [OF ram_inv, of "[0x40, 0x80, 0x10]" 0] by (simp del: store_all.simps)

end
