(* ===== verification/Ota_Crypto.thy ===== *)
theory Ota_Crypto
  imports Ota_State
begin

text \<open>
  \<^verbatim>\<open>lib/mini-ota/algorithm/src/sha.c\<close>, \<^verbatim>\<open>hmac.c\<close> and \<^verbatim>\<open>aes.c\<close>: the incremental hash, message code and cipher streams of
  the update, and the key slot of \<^verbatim>\<open>bootutil/src/boot_keys.c\<close>. They wrap the mbedtls library, which is not part of the
  sources: its functions and error codes are the fields of \<open>mbedtls\<close>. A stream is \<open>None\<close> where the caller passes a
  null pointer; freeing a context releases memory only and drops it here.
\<close>

record ('s, 'h, 'g, 'a) mbedtls =
  mb_sha256_init :: 's
  mb_sha256_starts_ret :: "'s \<Rightarrow> int \<times> 's"
  mb_sha256_update_ret :: "'s \<Rightarrow> u8 list \<Rightarrow> int \<times> 's"
  mb_sha256_finish_ret :: "'s \<Rightarrow> int \<times> u8 list"
  mb_md_has_sha256 :: bool
  mb_md_init :: 'h
  mb_md_setup :: "'h \<Rightarrow> int \<times> 'h"
  mb_md_hmac_starts :: "'h \<Rightarrow> u8 list \<Rightarrow> int \<times> 'h"
  mb_md_hmac_update :: "'h \<Rightarrow> u8 list \<Rightarrow> int \<times> 'h"
  mb_md_hmac_finish :: "'h \<Rightarrow> int \<times> u8 list"
  mb_gcm_init :: 'g
  mb_gcm_setkey :: "'g \<Rightarrow> u8 list \<Rightarrow> u32 \<Rightarrow> int \<times> 'g"
  mb_gcm_starts :: "'g \<Rightarrow> bool \<Rightarrow> u8 list \<Rightarrow> int \<times> 'g"
  mb_gcm_update :: "'g \<Rightarrow> u8 list \<Rightarrow> int \<times> u8 list \<times> 'g"
  mb_gcm_finish :: "'g \<Rightarrow> nat \<Rightarrow> int \<times> u8 list"
  mb_aes_init :: 'a
  mb_aes_setkey_enc :: "'a \<Rightarrow> u8 list \<Rightarrow> u32 \<Rightarrow> int \<times> 'a"
  mb_aes_setkey_dec :: "'a \<Rightarrow> u8 list \<Rightarrow> u32 \<Rightarrow> int \<times> 'a"
  mb_aes_crypt_cbc :: "'a \<Rightarrow> bool \<Rightarrow> u8 list \<Rightarrow> u8 list \<Rightarrow> int \<times> u8 list \<times> u8 list"
  MBEDTLS_ERR_SHA256_BAD_INPUT_DATA :: int
  MBEDTLS_ERR_MD_BAD_INPUT_DATA :: int
  MBEDTLS_ERR_GCM_BAD_INPUT :: int
  MBEDTLS_ERR_GCM_AUTH_FAILED :: int
  MBEDTLS_ERR_AES_INVALID_INPUT_LENGTH :: int

subsection \<open>Hash\<close>

definition sha256_begin :: "('s, 'h, 'g, 'a) mbedtls \<Rightarrow> bool \<Rightarrow> int \<times> 's option" where
  "sha256_begin mb has_s =
     (if \<not> has_s then (MBEDTLS_ERR_SHA256_BAD_INPUT_DATA mb, None)
      else let (rc, s) = mb_sha256_starts_ret mb (mb_sha256_init mb) in (rc, Some s))"

definition sha256_feed :: "('s, 'h, 'g, 'a) mbedtls \<Rightarrow> 's option \<Rightarrow> u8 list option \<Rightarrow> int \<times> 's option" where
  "sha256_feed mb s data =
     (case (s, data) of
        (Some s, Some data) \<Rightarrow> let (rc, s) = mb_sha256_update_ret mb s data in (rc, Some s)
      | _ \<Rightarrow> (MBEDTLS_ERR_SHA256_BAD_INPUT_DATA mb, s))"

text \<open>The result is the code and what is written to \<open>output\<close>.\<close>

definition sha256_end :: "('s, 'h, 'g, 'a) mbedtls \<Rightarrow> 's option \<Rightarrow> bool \<Rightarrow> int \<times> u8 list" where
  "sha256_end mb s has_output =
     (case s of
        Some s \<Rightarrow> if \<not> has_output then (MBEDTLS_ERR_SHA256_BAD_INPUT_DATA mb, []) else mb_sha256_finish_ret mb s
      | None \<Rightarrow> (MBEDTLS_ERR_SHA256_BAD_INPUT_DATA mb, []))"

subsection \<open>Message code\<close>

definition hmac_sha256_stream_begin :: "('s, 'h, 'g, 'a) mbedtls \<Rightarrow> bool \<Rightarrow> u8 list option \<Rightarrow> int \<times> 'h option" where
  "hmac_sha256_stream_begin mb has_s key =
     (case key of
        None \<Rightarrow> (MBEDTLS_ERR_MD_BAD_INPUT_DATA mb, None)
      | Some key \<Rightarrow>
          if \<not> has_s then (MBEDTLS_ERR_MD_BAD_INPUT_DATA mb, None)
          else if \<not> mb_md_has_sha256 mb then (MBEDTLS_ERR_MD_BAD_INPUT_DATA mb, None)
          else
            let (ret, s) = mb_md_setup mb (mb_md_init mb) in
            if ret \<noteq> 0 then (ret, None)
            else let (ret, s) = mb_md_hmac_starts mb s key in (ret, if ret \<noteq> 0 then None else Some s))"

definition hmac_sha256_stream_feed :: "('s, 'h, 'g, 'a) mbedtls \<Rightarrow> 'h option \<Rightarrow> u8 list option \<Rightarrow> int \<times> 'h option" where
  "hmac_sha256_stream_feed mb s data =
     (case (s, data) of
        (Some s, Some data) \<Rightarrow> let (rc, s) = mb_md_hmac_update mb s data in (rc, Some s)
      | _ \<Rightarrow> (MBEDTLS_ERR_MD_BAD_INPUT_DATA mb, s))"

definition hmac_sha256_stream_end :: "('s, 'h, 'g, 'a) mbedtls \<Rightarrow> 'h option \<Rightarrow> bool \<Rightarrow> int \<times> u8 list" where
  "hmac_sha256_stream_end mb s has_output =
     (case s of
        Some s \<Rightarrow> if \<not> has_output then (MBEDTLS_ERR_MD_BAD_INPUT_DATA mb, []) else mb_md_hmac_finish mb s
      | None \<Rightarrow> (MBEDTLS_ERR_MD_BAD_INPUT_DATA mb, []))"

subsection \<open>AES-GCM\<close>

definition AES_GCM_MAX_TAG_LEN :: nat where "AES_GCM_MAX_TAG_LEN = 16"

text \<open>The number of bits of a key, as the \<open>unsigned int\<close> the library takes.\<close>

definition key_bits :: "u8 list \<Rightarrow> u32" where
  "key_bits key = of_nat (length key * 8)"

definition aes_gcm_encrypt_stream_begin ::
    "('s, 'h, 'g, 'a) mbedtls \<Rightarrow> bool \<Rightarrow> u8 list option \<Rightarrow> u8 list option \<Rightarrow> int \<times> 'g option" where
  "aes_gcm_encrypt_stream_begin mb has_s iv key =
     (case (iv, key) of
        (Some iv, Some key) \<Rightarrow>
          if \<not> has_s then (MBEDTLS_ERR_GCM_BAD_INPUT mb, None)
          else
            let (ret, s) = mb_gcm_setkey mb (mb_gcm_init mb) key (key_bits key) in
            if ret \<noteq> 0 then (ret, None)
            else let (ret, s) = mb_gcm_starts mb s True iv in (ret, if ret \<noteq> 0 then None else Some s)
      | _ \<Rightarrow> (MBEDTLS_ERR_GCM_BAD_INPUT mb, None))"

definition aes_gcm_decrypt_stream_begin ::
    "('s, 'h, 'g, 'a) mbedtls \<Rightarrow> bool \<Rightarrow> u8 list option \<Rightarrow> u8 list option \<Rightarrow> int \<times> 'g option" where
  "aes_gcm_decrypt_stream_begin mb has_s iv key =
     (case (iv, key) of
        (Some iv, Some key) \<Rightarrow>
          if \<not> has_s then (MBEDTLS_ERR_GCM_BAD_INPUT mb, None)
          else
            let (ret, s) = mb_gcm_setkey mb (mb_gcm_init mb) key (key_bits key) in
            if ret \<noteq> 0 then (ret, None)
            else let (ret, s) = mb_gcm_starts mb s False iv in (ret, if ret \<noteq> 0 then None else Some s)
      | _ \<Rightarrow> (MBEDTLS_ERR_GCM_BAD_INPUT mb, None))"

definition aes_gcm_stream_feed ::
    "('s, 'h, 'g, 'a) mbedtls \<Rightarrow> 'g option \<Rightarrow> u8 list option \<Rightarrow> bool \<Rightarrow> int \<times> u8 list \<times> 'g option" where
  "aes_gcm_stream_feed mb s in' has_out =
     (case (s, in') of
        (Some g, Some data) \<Rightarrow>
          if \<not> has_out then (MBEDTLS_ERR_GCM_BAD_INPUT mb, [], s)
          else let (rc, out, g) = mb_gcm_update mb g data in (rc, out, Some g)
      | _ \<Rightarrow> (MBEDTLS_ERR_GCM_BAD_INPUT mb, [], s))"

definition aes_gcm_encrypt_stream_finish :: "('s, 'h, 'g, 'a) mbedtls \<Rightarrow> 'g option \<Rightarrow> bool \<Rightarrow> nat \<Rightarrow> int \<times> u8 list" where
  "aes_gcm_encrypt_stream_finish mb s has_tag tag_len =
     (case s of
        Some g \<Rightarrow>
          if \<not> has_tag \<or> tag_len = 0 \<or> AES_GCM_MAX_TAG_LEN < tag_len then (MBEDTLS_ERR_GCM_BAD_INPUT mb, [])
          else mb_gcm_finish mb g tag_len
      | None \<Rightarrow> (MBEDTLS_ERR_GCM_BAD_INPUT mb, []))"

text \<open>The loop that ors the differences of \<open>len\<close> bytes; reading past the end of either array is \<open>None\<close>.\<close>

fun ct_diff :: "u8 list \<Rightarrow> u8 list \<Rightarrow> nat \<Rightarrow> u8 \<Rightarrow> u8 option" where
  "ct_diff a b 0 diff = Some diff"
| "ct_diff (x # a) (y # b) (Suc n) diff = ct_diff a b n (diff OR (x XOR y))"
| "ct_diff _ _ (Suc n) diff = None"

definition aes_gcm_decrypt_stream_finish :: "('s, 'h, 'g, 'a) mbedtls \<Rightarrow> 'g option \<Rightarrow> u8 list option \<Rightarrow> nat \<Rightarrow> int option" where
  "aes_gcm_decrypt_stream_finish mb s tag tag_len =
     (case (s, tag) of
        (Some g, Some tag) \<Rightarrow>
          if tag_len = 0 \<or> AES_GCM_MAX_TAG_LEN < tag_len then Some (MBEDTLS_ERR_GCM_BAD_INPUT mb)
          else
            let (ret, check_tag) = mb_gcm_finish mb g tag_len in
            if ret \<noteq> 0 then Some ret
            else do {
              diff \<leftarrow> ct_diff check_tag tag tag_len 0;
              Some (if diff = 0 then 0 else MBEDTLS_ERR_GCM_AUTH_FAILED mb)
            }
      | _ \<Rightarrow> Some (MBEDTLS_ERR_GCM_BAD_INPUT mb))"

subsection \<open>AES-CBC\<close>

record 'a cbc_stream_t =
  cbc_aes :: 'a
  cbc_iv :: "u8 list"

text \<open>The copy of the first 16 bytes of \<open>iv\<close> into the stream.\<close>

definition cbc_stream_init :: "'a \<Rightarrow> u8 list \<Rightarrow> 'a cbc_stream_t option" where
  "cbc_stream_init aes iv = do { b \<leftarrow> mem_read iv 0 16; Some \<lparr>cbc_aes = aes, cbc_iv = b\<rparr> }"

definition aes_cbc_encrypt_stream_begin ::
    "('s, 'h, 'g, 'a) mbedtls \<Rightarrow> bool \<Rightarrow> u8 list option \<Rightarrow> u8 list option \<Rightarrow> (int \<times> 'a cbc_stream_t option) option" where
  "aes_cbc_encrypt_stream_begin mb has_s iv key =
     (case (iv, key) of
        (Some iv, Some key) \<Rightarrow>
          if \<not> has_s then Some (MBEDTLS_ERR_AES_INVALID_INPUT_LENGTH mb, None)
          else
            let (ret, aes) = mb_aes_setkey_enc mb (mb_aes_init mb) key (key_bits key) in
            if ret \<noteq> 0 then Some (ret, None)
            else do { s \<leftarrow> cbc_stream_init aes iv; Some (0, Some s) }
      | _ \<Rightarrow> Some (MBEDTLS_ERR_AES_INVALID_INPUT_LENGTH mb, None))"

definition aes_cbc_decrypt_stream_begin ::
    "('s, 'h, 'g, 'a) mbedtls \<Rightarrow> bool \<Rightarrow> u8 list option \<Rightarrow> u8 list option \<Rightarrow> (int \<times> 'a cbc_stream_t option) option" where
  "aes_cbc_decrypt_stream_begin mb has_s iv key =
     (case (iv, key) of
        (Some iv, Some key) \<Rightarrow>
          if \<not> has_s then Some (MBEDTLS_ERR_AES_INVALID_INPUT_LENGTH mb, None)
          else
            let (ret, aes) = mb_aes_setkey_dec mb (mb_aes_init mb) key (key_bits key) in
            if ret \<noteq> 0 then Some (ret, None)
            else do { s \<leftarrow> cbc_stream_init aes iv; Some (0, Some s) }
      | _ \<Rightarrow> Some (MBEDTLS_ERR_AES_INVALID_INPUT_LENGTH mb, None))"

text \<open>The body the two directions share: the library returns the output and the vector for the next call.\<close>

definition cbc_stream_feed ::
    "('s, 'h, 'g, 'a) mbedtls \<Rightarrow> bool \<Rightarrow> 'a cbc_stream_t option \<Rightarrow> u8 list option \<Rightarrow> bool \<Rightarrow> int \<times> u8 list \<times> 'a cbc_stream_t option" where
  "cbc_stream_feed mb enc s in' has_out =
     (case (s, in') of
        (Some c, Some data) \<Rightarrow>
          if \<not> has_out \<or> data = [] \<or> length data mod 16 \<noteq> 0 then (MBEDTLS_ERR_AES_INVALID_INPUT_LENGTH mb, [], s)
          else
            let (rc, out, iv) = mb_aes_crypt_cbc mb (cbc_aes c) enc (cbc_iv c) data in
            (rc, out, Some (c\<lparr>cbc_iv := iv\<rparr>))
      | _ \<Rightarrow> (MBEDTLS_ERR_AES_INVALID_INPUT_LENGTH mb, [], s))"

definition aes_cbc_encrypt_stream_feed ::
    "('s, 'h, 'g, 'a) mbedtls \<Rightarrow> 'a cbc_stream_t option \<Rightarrow> u8 list option \<Rightarrow> bool \<Rightarrow> int \<times> u8 list \<times> 'a cbc_stream_t option" where
  "aes_cbc_encrypt_stream_feed mb s in' has_out = cbc_stream_feed mb True s in' has_out"

definition aes_cbc_decrypt_stream_feed ::
    "('s, 'h, 'g, 'a) mbedtls \<Rightarrow> 'a cbc_stream_t option \<Rightarrow> u8 list option \<Rightarrow> bool \<Rightarrow> int \<times> u8 list \<times> 'a cbc_stream_t option" where
  "aes_cbc_decrypt_stream_feed mb s in' has_out = cbc_stream_feed mb False s in' has_out"

subsection \<open>The key slot\<close>

record boot_keys_t =
  s_key :: "u8 list"
  s_key_len :: nat

definition BOOT_KEY_MAX_LEN :: nat where "BOOT_KEY_MAX_LEN = 32"

definition boot_key_wipe :: "boot_keys_t \<Rightarrow> boot_keys_t" where
  "boot_key_wipe ks = ks\<lparr>s_key := replicate BOOT_KEY_MAX_LEN 0, s_key_len := 0\<rparr>"

definition boot_key_set :: "boot_keys_t \<Rightarrow> u8 list option \<Rightarrow> nat \<Rightarrow> (int \<times> boot_keys_t) option" where
  "boot_key_set ks key len =
     (case key of
        None \<Rightarrow> Some (ERR_ARG, ks)
      | Some key \<Rightarrow>
          if len \<noteq> 16 \<and> len \<noteq> 24 \<and> len \<noteq> 32 then Some (ERR_ARG, ks)
          else do {
            b \<leftarrow> mem_copy (replicate BOOT_KEY_MAX_LEN 0) 0 key 0 len;
            Some (ERR_OK, ks\<lparr>s_key := b, s_key_len := len\<rparr>)
          })"

text \<open>The key with the length that \<open>out_len\<close> receives: the first \<open>s_key_len\<close> bytes of the slot.\<close>

definition boot_key_get :: "boot_keys_t \<Rightarrow> u8 list option" where
  "boot_key_get ks = (if s_key_len ks = 0 then None else Some (take (s_key_len ks) (s_key ks)))"

subsection \<open>Comparison\<close>

lemma u8_or_eq_0: "a OR b = 0 \<longleftrightarrow> a = 0 \<and> b = 0" for a b :: u8
  by (auto simp: bit_eq_iff bit_or_iff)

lemma u8_xor_eq_0: "a XOR b = 0 \<longleftrightarrow> a = b" for a b :: u8
  by (metis bit.xor_self bit.xor_left_self)

lemma ct_diff_Some: "n \<le> length a \<Longrightarrow> n \<le> length b \<Longrightarrow> \<exists>d. ct_diff a b n diff = Some d \<and> (d = 0 \<longleftrightarrow> diff = 0 \<and> take n a = take n b)"
  by (induction a b n diff rule: ct_diff.induct) (auto simp: u8_or_eq_0 u8_xor_eq_0)

subsection \<open>Streams\<close>

text \<open>
  What the chunked checks rely on: feeding nothing changes nothing, and feeding two parts is feeding them joined, where the
  first part is a multiple of the granule (16 bytes for GCM, 1 for the others).
\<close>

locale byte_stream =
  fixes feed :: "'x \<Rightarrow> u8 list \<Rightarrow> int \<times> 'x" and gran :: nat
  assumes feed_nil: "feed s [] = (0, s)"
    and feed_append: "gran dvd length a \<Longrightarrow> feed s (a @ b) = (let (rc, s') = feed s a in if rc \<noteq> 0 then (rc, s') else feed s' b)"

end
