(* ===== verification/Ota_Image.thy ===== *)
theory Ota_Image
  imports Ota_Flash Ota_Crypto
begin

text \<open>
  \<^verbatim>\<open>lib/mini-ota/bootutil/src/read.c\<close> and \<^verbatim>\<open>verify.c\<close>: the layout of an update image, its checks (CRC, SHA-256, AES-GCM,
  HMAC) and the extraction of its payload, as compiled with \<open>IMAGE_CRYPTO_ENABLE\<close>. A view holds positions in the
  image instead of pointers; a read or a write outside a buffer is \<open>None\<close>. The checksum uses the bitwise CRC engine;
  the table engine gives the same values (\<open>crc_stream_agree\<close>).
\<close>

definition IMAGE_CRC_LEN :: nat where "IMAGE_CRC_LEN = 4"
definition IMAGE_META_LEN :: nat where "IMAGE_META_LEN = 4"
definition IMAGE_META_MAGIC :: u8 where "IMAGE_META_MAGIC = 0xA5"
definition IMAGE_GCM_NONCE_LEN :: nat where "IMAGE_GCM_NONCE_LEN = 12"
definition IMAGE_GCM_TAG_LEN :: nat where "IMAGE_GCM_TAG_LEN = 16"
definition IMAGE_CBC_IV_LEN :: nat where "IMAGE_CBC_IV_LEN = 16"
definition IMAGE_HASH_LEN :: nat where "IMAGE_HASH_LEN = 32"
definition IMAGE_CBC_BLOCK_LEN :: nat where "IMAGE_CBC_BLOCK_LEN = 16"
definition SIZE_MAX :: nat where "SIZE_MAX = 4294967295"

lemmas image_lens [simp] = IMAGE_CRC_LEN_def IMAGE_META_LEN_def IMAGE_GCM_NONCE_LEN_def IMAGE_GCM_TAG_LEN_def IMAGE_CBC_IV_LEN_def
  IMAGE_HASH_LEN_def IMAGE_CBC_BLOCK_LEN_def SIZE_MAX_def

datatype image_check_t = IMAGE_CHECK_CRC | IMAGE_CHECK_SHA | IMAGE_CHECK_GCM | IMAGE_CHECK_CBC | IMAGE_CHECK_CBC_SHA

record image_view_t =
  vw_mode :: image_check_t
  vw_is_front :: bool
  vw_payload :: nat
  vw_payload_len :: nat
  vw_aux :: nat
  vw_aux_len :: nat
  vw_version :: nat
  vw_version_len :: nat
  vw_tag :: nat
  vw_tag_len :: nat
  vw_crc_stored :: u32

text \<open>The keys of a call; \<open>None\<close> is a null pointer, the length is that of the list.\<close>

record image_read_cfg_t =
  cfg_key :: "u8 list option"
  cfg_mac_key :: "u8 list option"

subsection \<open>Layout\<close>

definition check_of :: "u8 \<Rightarrow> image_check_t" where
  "check_of b = (if b = 0 then IMAGE_CHECK_CRC else if b = 1 then IMAGE_CHECK_SHA else if b = 2 then IMAGE_CHECK_GCM
     else if b = 3 then IMAGE_CHECK_CBC else IMAGE_CHECK_CBC_SHA)"

definition meta_decode :: "u8 list \<Rightarrow> int \<times> (image_check_t \<times> bool \<times> nat \<times> nat) option" where
  "meta_decode m =
     (if m ! 0 \<noteq> IMAGE_META_MAGIC \<or> 4 < m ! 1 AND 0x7F then (ERR_ARG, None)
      else (ERR_OK, Some (check_of (m ! 1 AND 0x7F), m ! 1 AND 0x80 \<noteq> 0, unat (m ! 2), unat (m ! 3))))"

definition image_aux_len :: "image_check_t \<Rightarrow> bool \<Rightarrow> int \<times> nat option" where
  "image_aux_len mode has_out =
     (if \<not> has_out then (ERR_ARG, None)
      else (ERR_OK, Some (case mode of
          IMAGE_CHECK_CRC \<Rightarrow> 0 | IMAGE_CHECK_SHA \<Rightarrow> 32 | IMAGE_CHECK_GCM \<Rightarrow> 12 + 16 | IMAGE_CHECK_CBC \<Rightarrow> 16 | IMAGE_CHECK_CBC_SHA \<Rightarrow> 16 + 32)))"

definition image_overhead :: "image_check_t \<Rightarrow> nat \<Rightarrow> nat \<Rightarrow> bool \<Rightarrow> int \<times> nat option" where
  "image_overhead mode version_len tag_len has_out =
     (if \<not> has_out then (ERR_ARG, None)
      else case image_aux_len mode True of
        (rc, Some aux_len) \<Rightarrow>
          if rc \<noteq> ERR_OK then (rc, None)
          else if SIZE_MAX - IMAGE_CRC_LEN - IMAGE_META_LEN < version_len \<or>
              SIZE_MAX - IMAGE_CRC_LEN - IMAGE_META_LEN - version_len < tag_len \<or>
              SIZE_MAX - IMAGE_CRC_LEN - IMAGE_META_LEN - version_len - tag_len < aux_len
          then (ERR_OVERFLOW, None)
          else (ERR_OK, Some (IMAGE_CRC_LEN + IMAGE_META_LEN + version_len + tag_len + aux_len))
      | (rc, None) \<Rightarrow> (rc, None))"

definition image_parse :: "u8 list option \<Rightarrow> nat \<Rightarrow> bool \<Rightarrow> (int \<times> image_view_t option) option" where
  "image_parse buf len has_out =
     (case buf of
        None \<Rightarrow> Some (ERR_ARG, None)
      | Some b \<Rightarrow>
          if \<not> has_out \<or> len < IMAGE_CRC_LEN + IMAGE_META_LEN then Some (ERR_ARG, None)
          else do {
            m \<leftarrow> mem_read b (len - IMAGE_META_LEN) IMAGE_META_LEN;
            case meta_decode m of
              (rc, None) \<Rightarrow> Some (rc, None)
            | (rc, Some (mode, is_front, version_len, tag_len)) \<Rightarrow>
                (case image_overhead mode version_len tag_len True of
                   (rc, None) \<Rightarrow> Some (rc, None)
                 | (rc, Some overhead) \<Rightarrow>
                     if len < overhead then Some (ERR_TOO_SMALL, None)
                     else do {
                       aux_len \<leftarrow> snd (image_aux_len mode True);
                       let payload_len = len - overhead;
                       let version = (if is_front then IMAGE_CRC_LEN else payload_len + aux_len);
                       let aux = (if is_front then version + version_len + tag_len else payload_len);
                       let tag = version + version_len;
                       c \<leftarrow> mem_read b (if is_front then 0 else tag + tag_len) 4;
                       Some (ERR_OK, Some \<lparr>vw_mode = mode, vw_is_front = is_front,
                         vw_payload = (if is_front then aux + aux_len else 0), vw_payload_len = payload_len,
                         vw_aux = aux, vw_aux_len = aux_len, vw_version = version, vw_version_len = version_len,
                         vw_tag = tag, vw_tag_len = tag_len, vw_crc_stored = rd32 c 0\<rparr>)
                     })
          })"

subsection \<open>Checks and decryption\<close>

definition ct_equal :: "u8 list \<Rightarrow> u8 list \<Rightarrow> nat \<Rightarrow> bool option" where
  "ct_equal a b len = do { diff \<leftarrow> ct_diff a b len 0; Some (diff = 0) }"

definition crc_model_start :: "crc_stream_t option" where
  "crc_model_start = crc_stream_start (Some crc_stream_blank) 0xFFFFFFFF True True 0xFFFFFFFF 0x04C11DB7 32"

definition calc_crc :: "u8 list \<Rightarrow> image_view_t \<Rightarrow> u32 option" where
  "calc_crc b view =
     do {
       p \<leftarrow> mem_read b (vw_payload view) (vw_payload_len view);
       Some (crc_stream_finish (crc_stream_feed_bitwise crc_model_start p))
     }"

text \<open>The results of an extraction: code, output buffer, length of the plain text where it is set.\<close>

definition copy_plain :: "u8 list \<Rightarrow> image_view_t \<Rightarrow> u8 list option \<Rightarrow> nat \<Rightarrow> (int \<times> u8 list option \<times> nat option) option" where
  "copy_plain b view out cap =
     (case out of
        None \<Rightarrow> Some (ERR_OK, None, Some (vw_payload_len view))
      | Some o' \<Rightarrow>
          if cap < vw_payload_len view then Some (ERR_BUF_TOO_SMALL, out, Some (vw_payload_len view))
          else do {
            p \<leftarrow> mem_read b (vw_payload view) (vw_payload_len view);
            o'' \<leftarrow> mem_copy o' 0 p 0 (vw_payload_len view);
            Some (ERR_OK, Some o'', Some (vw_payload_len view))
          })"

definition check_sha :: "('s, 'h, 'g, 'a) mbedtls \<Rightarrow> u8 list \<Rightarrow> image_view_t \<Rightarrow> int option" where
  "check_sha mb b view =
     (if vw_aux_len view < IMAGE_HASH_LEN then Some ERR_TOO_SMALL
      else
        let (rc, sh) = sha256_begin mb True in
        if rc \<noteq> 0 then Some ERR_HASH_FAILED
        else do {
          p \<leftarrow> mem_read b (vw_payload view) (vw_payload_len view);
          let (rc, sh) = sha256_feed mb sh (Some p);
          if rc \<noteq> 0 then Some ERR_HASH_FAILED
          else
            let (rc, digest) = sha256_end mb sh True in
            if rc \<noteq> 0 then Some ERR_HASH_FAILED
            else do {
              a \<leftarrow> mem_read b (vw_aux view) IMAGE_HASH_LEN;
              eq \<leftarrow> ct_equal digest a IMAGE_HASH_LEN;
              Some (if eq then ERR_OK else ERR_HASH_MISMATCH)
            }
        })"

fun pad_bytes_ok :: "u8 list \<Rightarrow> u8 \<Rightarrow> nat \<Rightarrow> bool" where
  "pad_bytes_ok xs pad 0 = True"
| "pad_bytes_ok [] pad (Suc n) = True"
| "pad_bytes_ok (x # xs) pad (Suc n) = (if x \<noteq> pad then False else pad_bytes_ok xs pad n)"

text \<open>The loop compares the last \<open>pad\<close> bytes from the end; \<open>pad \<le> len\<close>, so it stays inside.\<close>

definition pkcs7_unpad :: "u8 list option \<Rightarrow> nat \<Rightarrow> bool \<Rightarrow> (int \<times> nat option) option" where
  "pkcs7_unpad data len has_out =
     (case data of
        None \<Rightarrow> Some (ERR_ARG, None)
      | Some d \<Rightarrow>
          if \<not> has_out \<or> len = 0 \<or> len mod IMAGE_CBC_BLOCK_LEN \<noteq> 0 then Some (ERR_ARG, None)
          else do {
            pad \<leftarrow> arr_get d (len - 1);
            if pad = 0 \<or> IMAGE_CBC_BLOCK_LEN < unat pad \<or> len < unat pad then Some (ERR_PADDING, None)
            else if \<not> pad_bytes_ok (rev (take len d)) pad (unat pad) then Some (ERR_PADDING, None)
            else Some (ERR_OK, Some (len - unat pad))
          })"

text \<open>Decrypting the payload into the output and taking the padding off; shared by the two CBC modes.\<close>

definition cbc_payload ::
    "('s, 'h, 'g, 'a) mbedtls \<Rightarrow> u8 list \<Rightarrow> image_view_t \<Rightarrow> u8 list \<Rightarrow> u8 list \<Rightarrow> u8 list \<Rightarrow> (int \<times> u8 list option \<times> nat option) option" where
  "cbc_payload mb b view iv key out =
     do {
      (rc, s) \<leftarrow> aes_cbc_decrypt_stream_begin mb True (Some iv) (Some key);
      if rc \<noteq> 0 then Some (ERR_DECRYPT_FAILED, Some out, None)
      else do {
        p \<leftarrow> mem_read b (vw_payload view) (vw_payload_len view);
        let (rc, plain, s) = aes_cbc_decrypt_stream_feed mb s (Some p) True;
        out \<leftarrow> mem_copy out 0 plain 0 (vw_payload_len view);
        if rc \<noteq> 0 then Some (ERR_DECRYPT_FAILED, Some out, None)
        else do {
          (rc, plain_len) \<leftarrow> pkcs7_unpad (Some out) (vw_payload_len view) True;
          if rc \<noteq> ERR_OK then Some (rc, Some out, None) else Some (ERR_OK, Some out, plain_len)
        }
      }
     }"

definition cbc_decrypt ::
    "('s, 'h, 'g, 'a) mbedtls \<Rightarrow> u8 list \<Rightarrow> image_view_t \<Rightarrow> u8 list \<Rightarrow> u8 list \<Rightarrow> nat \<Rightarrow> (int \<times> u8 list option \<times> nat option) option" where
  "cbc_decrypt mb b view key out cap =
     (if vw_aux_len view < IMAGE_CBC_IV_LEN then Some (ERR_TOO_SMALL, Some out, None)
      else if vw_payload_len view = 0 \<or> vw_payload_len view mod IMAGE_CBC_BLOCK_LEN \<noteq> 0 then Some (ERR_ARG, Some out, None)
      else if cap < vw_payload_len view then Some (ERR_BUF_TOO_SMALL, Some out, None)
      else do { iv \<leftarrow> mem_read b (vw_aux view) IMAGE_CBC_IV_LEN; cbc_payload mb b view iv key out })"

definition gcm_decrypt ::
    "('s, 'h, 'g, 'a) mbedtls \<Rightarrow> u8 list \<Rightarrow> image_view_t \<Rightarrow> u8 list \<Rightarrow> u8 list \<Rightarrow> nat \<Rightarrow> (int \<times> u8 list option \<times> nat option) option" where
  "gcm_decrypt mb b view key out cap =
     (if vw_aux_len view < IMAGE_GCM_NONCE_LEN + IMAGE_GCM_TAG_LEN then Some (ERR_TOO_SMALL, Some out, None)
      else if cap < vw_payload_len view then Some (ERR_BUF_TOO_SMALL, Some out, None)
      else do {
        nonce \<leftarrow> mem_read b (vw_aux view) IMAGE_GCM_NONCE_LEN;
        let (rc, g) = aes_gcm_decrypt_stream_begin mb True (Some nonce) (Some key);
        if rc \<noteq> 0 then Some (ERR_DECRYPT_FAILED, Some out, None)
        else do {
          p \<leftarrow> mem_read b (vw_payload view) (vw_payload_len view);
          let (rc, plain, g) = aes_gcm_stream_feed mb g (Some p) True;
          out \<leftarrow> mem_copy out 0 plain 0 (vw_payload_len view);
          if rc \<noteq> 0 then Some (ERR_DECRYPT_FAILED, Some out, None)
          else do {
            tag \<leftarrow> mem_read b (vw_aux view + IMAGE_GCM_NONCE_LEN) IMAGE_GCM_TAG_LEN;
            rc \<leftarrow> aes_gcm_decrypt_stream_finish mb g (Some tag) IMAGE_GCM_TAG_LEN;
            if rc \<noteq> 0 then Some (ERR_AUTH_FAILED, Some out, None)
            else Some (ERR_OK, Some out, Some (vw_payload_len view))
          }
        }
      })"

definition cbc_decrypt_dispatch ::
    "('s, 'h, 'g, 'a) mbedtls \<Rightarrow> u8 list \<Rightarrow> image_view_t \<Rightarrow> u8 list \<Rightarrow> u8 list \<Rightarrow> nat \<Rightarrow> (int \<times> u8 list option \<times> nat option) option" where
  "cbc_decrypt_dispatch mb b view key out cap = cbc_decrypt mb b view key out cap"

text \<open>The message code of an image: begin, the initial vector, the payload, end; each step only when the one before succeeded.\<close>

definition image_hmac :: "('s, 'h, 'g, 'a) mbedtls \<Rightarrow> u8 list \<Rightarrow> u8 list \<Rightarrow> u8 list \<Rightarrow> int \<times> u8 list" where
  "image_hmac mb mac_key iv p =
     (let (rc, h) = hmac_sha256_stream_begin mb True (Some mac_key);
          (rc, h) = (if rc = 0 then hmac_sha256_stream_feed mb h (Some iv) else (rc, h));
          (rc, h) = (if rc = 0 then hmac_sha256_stream_feed mb h (Some p) else (rc, h)) in
      if rc = 0 then hmac_sha256_stream_end mb h True else (rc, []))"

definition cbc_sha_decrypt ::
    "('s, 'h, 'g, 'a) mbedtls \<Rightarrow> u8 list \<Rightarrow> image_view_t \<Rightarrow> u8 list \<Rightarrow> u8 list \<Rightarrow> u8 list \<Rightarrow> nat \<Rightarrow>
     (int \<times> u8 list option \<times> nat option) option" where
  "cbc_sha_decrypt mb b view key mac_key out cap =
     (if vw_aux_len view < IMAGE_CBC_IV_LEN + IMAGE_HASH_LEN then Some (ERR_TOO_SMALL, Some out, None)
      else if vw_payload_len view = 0 \<or> vw_payload_len view mod IMAGE_CBC_BLOCK_LEN \<noteq> 0 then Some (ERR_ARG, Some out, None)
      else if cap < vw_payload_len view then Some (ERR_BUF_TOO_SMALL, Some out, None)
      else do {
        iv \<leftarrow> mem_read b (vw_aux view) IMAGE_CBC_IV_LEN;
        p \<leftarrow> mem_read b (vw_payload view) (vw_payload_len view);
        let (rc, calc) = image_hmac mb mac_key iv p;
        if rc \<noteq> 0 then Some (ERR_AUTH_FAILED, Some out, None)
        else do {
          a \<leftarrow> mem_read b (vw_aux view + IMAGE_CBC_IV_LEN) IMAGE_HASH_LEN;
          eq \<leftarrow> ct_equal calc a IMAGE_HASH_LEN;
          if \<not> eq then Some (ERR_AUTH_FAILED, Some out, None)
          else cbc_payload mb b view iv key out
        }
      })"

definition check_crypto_args :: "image_read_cfg_t \<Rightarrow> bool \<Rightarrow> int" where
  "check_crypto_args cfg has_out =
     (case cfg_key cfg of
        None \<Rightarrow> ERR_ARG
      | Some k \<Rightarrow>
          if length k \<noteq> 16 \<and> length k \<noteq> 24 \<and> length k \<noteq> 32 then ERR_ARG
          else if \<not> has_out then ERR_ARG
          else ERR_OK)"

text \<open>Running \<open>f\<close> once the key and the output are there.\<close>

definition with_crypto_args ::
    "image_read_cfg_t \<Rightarrow> u8 list option \<Rightarrow> (u8 list \<Rightarrow> u8 list \<Rightarrow> (int \<times> u8 list option \<times> nat option) option) \<Rightarrow>
     (int \<times> u8 list option \<times> nat option) option" where
  "with_crypto_args cfg out f =
     (let rc = check_crypto_args cfg (out \<noteq> None) in
      if rc \<noteq> ERR_OK then Some (rc, out, None) else do { k \<leftarrow> cfg_key cfg; o' \<leftarrow> out; f k o' })"

definition image_read_payload ::
    "('s, 'h, 'g, 'a) mbedtls \<Rightarrow> u8 list option \<Rightarrow> nat \<Rightarrow> image_read_cfg_t option \<Rightarrow> u8 list option \<Rightarrow> nat \<Rightarrow>
     (int \<times> u8 list option \<times> nat option \<times> image_view_t option \<times> u32 option) option" where
  "image_read_payload mb buf len cfg out cap =
     (case (buf, cfg) of
        (Some b, Some cf) \<Rightarrow> do {
          (rc, view) \<leftarrow> image_parse buf len True;
          case view of
            None \<Rightarrow> Some (rc, out, None, None, None)
          | Some v \<Rightarrow>
              (case vw_mode v of
                 IMAGE_CHECK_CRC \<Rightarrow> do {
                   calc \<leftarrow> calc_crc b v;
                   if calc \<noteq> vw_crc_stored v then Some (ERR_CRC_MISMATCH, out, None, view, Some calc)
                   else do { (rc, o', n) \<leftarrow> copy_plain b v out cap; Some (rc, o', n, view, Some calc) }
                 }
               | IMAGE_CHECK_SHA \<Rightarrow> do {
                   rc \<leftarrow> check_sha mb b v;
                   if rc \<noteq> ERR_OK then Some (rc, out, None, view, None)
                   else do { (rc, o', n) \<leftarrow> copy_plain b v out cap; Some (rc, o', n, view, None) }
                 }
               | IMAGE_CHECK_GCM \<Rightarrow> do {
                   (rc, o', n) \<leftarrow> with_crypto_args cf out (\<lambda>k o'. gcm_decrypt mb b v k o' cap); Some (rc, o', n, view, None)
                 }
               | IMAGE_CHECK_CBC \<Rightarrow> do {
                   (rc, o', n) \<leftarrow> with_crypto_args cf out (\<lambda>k o'. cbc_decrypt_dispatch mb b v k o' cap); Some (rc, o', n, view, None)
                 }
               | IMAGE_CHECK_CBC_SHA \<Rightarrow> do {
                   (rc, o', n) \<leftarrow> with_crypto_args cf out
                     (\<lambda>k o'. cbc_sha_decrypt mb b v k (case cfg_mac_key cf of Some m \<Rightarrow> m | None \<Rightarrow> k) o' cap);
                   Some (rc, o', n, view, None)
                 })
        }
      | _ \<Rightarrow> Some (ERR_ARG, out, None, None, None))"

subsection \<open>Verification in chunks\<close>

text \<open>
  A loop over the payload: read a chunk through the callback, feed it to the stream. \<open>err\<close> is what a failing stream returns.
  A chunk size of zero would never end the loop, which is \<open>None\<close>.
\<close>

function (sequential) stream_loop ::
    "(nat \<Rightarrow> nat \<Rightarrow> (int \<times> u8 list) option) \<Rightarrow> ('x \<Rightarrow> u8 list \<Rightarrow> int \<times> 'x) \<Rightarrow> int \<Rightarrow> nat \<Rightarrow> nat \<Rightarrow> nat \<Rightarrow> 'x \<Rightarrow> (int \<times> 'x) option" where
  "stream_loop rd feed err scratch_size off remaining s =
     (if remaining = 0 then Some (ERR_OK, s)
      else if scratch_size = 0 then None
      else
        let chunk = (if scratch_size < remaining then scratch_size else remaining) in
        do {
          (rc, b) \<leftarrow> rd off chunk;
          if rc \<noteq> ERR_OK then Some (rc, s)
          else
            let (rc, s) = feed s b in
            if rc \<noteq> 0 then Some (err, s)
            else stream_loop rd feed err scratch_size (sz_add off chunk) (remaining - chunk) s
        })"
  by pat_completeness auto
termination
  by (relation "measure (\<lambda>(rd, feed, err, scratch_size, off, remaining, s). remaining)") (auto split: if_splits)

text \<open>The streams of the four modes that check something, from the positions the layout gives.\<close>

definition verify_crc ::
    "(nat \<Rightarrow> nat \<Rightarrow> (int \<times> u8 list) option) \<Rightarrow> nat \<Rightarrow> nat \<Rightarrow> nat \<Rightarrow> u32 \<Rightarrow> int option" where
  "verify_crc rd scratch_size payload_off payload_len crc_stored =
     do {
       (rc, cs) \<leftarrow> stream_loop rd (\<lambda>s b. (0, crc_stream_feed_bitwise s b)) ERR_OK scratch_size payload_off payload_len crc_model_start;
       if rc \<noteq> ERR_OK then Some rc
       else Some (if crc_stream_finish cs = crc_stored then ERR_OK else ERR_CRC_MISMATCH)
     }"

definition verify_sha ::
    "('s, 'h, 'g, 'a) mbedtls \<Rightarrow> (nat \<Rightarrow> nat \<Rightarrow> (int \<times> u8 list) option) \<Rightarrow> nat \<Rightarrow> nat \<Rightarrow> nat \<Rightarrow> nat \<Rightarrow> int option" where
  "verify_sha mb rd scratch_size aux_off payload_off payload_len =
     do {
       (rc, expect) \<leftarrow> rd aux_off IMAGE_HASH_LEN;
       if rc \<noteq> ERR_OK then Some rc
       else
         let (rc, sh) = sha256_begin mb True in
         if rc \<noteq> 0 then Some ERR_HASH_FAILED
         else do {
           (rc, sh) \<leftarrow> stream_loop rd (\<lambda>s b. sha256_feed mb s (Some b)) ERR_HASH_FAILED scratch_size payload_off payload_len sh;
           if rc \<noteq> ERR_OK then Some rc
           else
             let (rc, digest) = sha256_end mb sh True in
             if rc \<noteq> 0 then Some ERR_HASH_FAILED
             else do { eq \<leftarrow> ct_equal digest expect IMAGE_HASH_LEN; Some (if eq then ERR_OK else ERR_HASH_MISMATCH) }
         }
     }"

definition verify_gcm ::
    "('s, 'h, 'g, 'a) mbedtls \<Rightarrow> (nat \<Rightarrow> nat \<Rightarrow> (int \<times> u8 list) option) \<Rightarrow> nat \<Rightarrow> u8 list option \<Rightarrow> nat \<Rightarrow> nat \<Rightarrow> nat \<Rightarrow> int option" where
  "verify_gcm mb rd scratch_size key aux_off payload_off payload_len =
     (if key = None then Some ERR_ARG
      else do {
        (rc, nonce) \<leftarrow> rd aux_off IMAGE_GCM_NONCE_LEN;
        if rc \<noteq> ERR_OK then Some rc
        else do {
          (rc, tag) \<leftarrow> rd (sz_add aux_off IMAGE_GCM_NONCE_LEN) IMAGE_GCM_TAG_LEN;
          if rc \<noteq> ERR_OK then Some rc
          else
            let (rc, g) = aes_gcm_decrypt_stream_begin mb True (Some nonce) key in
            if rc \<noteq> 0 then Some ERR_DECRYPT_FAILED
            else do {
              (rc, g) \<leftarrow> stream_loop rd (\<lambda>s b. let (rc, out, s) = aes_gcm_stream_feed mb s (Some b) True in (rc, s))
                ERR_DECRYPT_FAILED scratch_size payload_off payload_len g;
              if rc \<noteq> ERR_OK then Some rc
              else do {
                rc \<leftarrow> aes_gcm_decrypt_stream_finish mb g (Some tag) IMAGE_GCM_TAG_LEN;
                Some (if rc = 0 then ERR_OK else ERR_AUTH_FAILED)
              }
            }
        }
      })"

definition verify_cbc_sha ::
    "('s, 'h, 'g, 'a) mbedtls \<Rightarrow> (nat \<Rightarrow> nat \<Rightarrow> (int \<times> u8 list) option) \<Rightarrow> nat \<Rightarrow> u8 list option \<Rightarrow> nat \<Rightarrow> nat \<Rightarrow> nat \<Rightarrow> int option" where
  "verify_cbc_sha mb rd scratch_size mac_key aux_off payload_off payload_len =
     (if mac_key = None then Some ERR_ARG
      else do {
        (rc, iv) \<leftarrow> rd aux_off IMAGE_CBC_IV_LEN;
        if rc \<noteq> ERR_OK then Some rc
        else do {
          (rc, hmac) \<leftarrow> rd (sz_add aux_off IMAGE_CBC_IV_LEN) IMAGE_HASH_LEN;
          if rc \<noteq> ERR_OK then Some rc
          else
            let (rc, h) = hmac_sha256_stream_begin mb True mac_key in
            if rc \<noteq> 0 then Some ERR_AUTH_FAILED
            else
              let (rc, h) = hmac_sha256_stream_feed mb h (Some iv) in
              if rc \<noteq> 0 then Some ERR_AUTH_FAILED
              else do {
                (rc, h) \<leftarrow> stream_loop rd (\<lambda>s b. hmac_sha256_stream_feed mb s (Some b)) ERR_AUTH_FAILED scratch_size payload_off payload_len h;
                if rc \<noteq> ERR_OK then Some rc
                else
                  let (rc, calc) = hmac_sha256_stream_end mb h True in
                  if rc \<noteq> 0 then Some ERR_AUTH_FAILED
                  else do { eq \<leftarrow> ct_equal calc hmac IMAGE_HASH_LEN; Some (if eq then ERR_OK else ERR_AUTH_FAILED) }
              }
        }
      })"

text \<open>The key of the message code: the cipher key where no other is given.\<close>

definition mac_key_of :: "image_read_cfg_t \<Rightarrow> u8 list option" where
  "mac_key_of cfg = (if cfg_mac_key cfg \<noteq> None then cfg_mac_key cfg else cfg_key cfg)"

definition image_verify_stream ::
    "('s, 'h, 'g, 'a) mbedtls \<Rightarrow> (nat \<Rightarrow> nat \<Rightarrow> (int \<times> u8 list) option) option \<Rightarrow> nat \<Rightarrow> image_read_cfg_t option \<Rightarrow> bool \<Rightarrow> nat \<Rightarrow>
     (int \<times> u32 option) option" where
  "image_verify_stream mb read_fn img_size cfg has_scratch scratch_size =
     (case (read_fn, cfg) of
        (Some rd, Some cf) \<Rightarrow>
          if \<not> has_scratch \<or> scratch_size < 16 \<or> img_size < IMAGE_CRC_LEN + IMAGE_META_LEN then Some (ERR_ARG, None)
          else do {
            (rc, m) \<leftarrow> rd (img_size - IMAGE_META_LEN) IMAGE_META_LEN;
            if rc \<noteq> ERR_OK then Some (rc, None)
            else case meta_decode m of
              (rc, None) \<Rightarrow> Some (rc, None)
            | (rc, Some (mode, is_front, version_len, tag_len)) \<Rightarrow> do {
                aux_len \<leftarrow> snd (image_aux_len mode True);
                case image_overhead mode version_len tag_len True of
                  (rc, None) \<Rightarrow> Some (rc, None)
                | (rc, Some overhead) \<Rightarrow>
                    if img_size < overhead then Some (ERR_TOO_SMALL, None)
                    else do {
                      let payload_len = img_size - overhead;
                      (rc, c) \<leftarrow> rd (if is_front then 0 else img_size - IMAGE_CRC_LEN - IMAGE_META_LEN) IMAGE_CRC_LEN;
                      if rc \<noteq> ERR_OK then Some (rc, None)
                      else do {
                        let crc_stored = rd32 c 0;
                        let payload_off = (if is_front then IMAGE_CRC_LEN + version_len + tag_len + aux_len else 0);
                        let aux_off = (if is_front then IMAGE_CRC_LEN + version_len + tag_len
                                       else img_size - IMAGE_CRC_LEN - IMAGE_META_LEN - version_len - tag_len - aux_len);
                        rc \<leftarrow> (case mode of
                            IMAGE_CHECK_CRC \<Rightarrow> verify_crc rd scratch_size payload_off payload_len crc_stored
                          | IMAGE_CHECK_CBC \<Rightarrow> Some ERR_OK
                          | IMAGE_CHECK_SHA \<Rightarrow> verify_sha mb rd scratch_size aux_off payload_off payload_len
                          | IMAGE_CHECK_GCM \<Rightarrow> verify_gcm mb rd scratch_size (cfg_key cf) aux_off payload_off payload_len
                          | IMAGE_CHECK_CBC_SHA \<Rightarrow> verify_cbc_sha mb rd scratch_size (mac_key_of cf) aux_off payload_off payload_len);
                        Some (rc, Some crc_stored)
                      }
                    }
              }
          }
      | _ \<Rightarrow> Some (ERR_ARG, None))"

subsection \<open>Checksum of plain data\<close>

definition IMAGE_VERIFY_CHUNK :: nat where "IMAGE_VERIFY_CHUNK = 256"

function (sequential) verify_raw_loop ::
    "(nat \<Rightarrow> nat \<Rightarrow> (int \<times> u8 list) option) \<Rightarrow> nat \<Rightarrow> nat \<Rightarrow> crc_stream_t option \<Rightarrow> (int \<times> crc_stream_t option) option" where
  "verify_raw_loop rd len offset crc =
     (if offset < len then
        let want = (if IMAGE_VERIFY_CHUNK < len - offset then IMAGE_VERIFY_CHUNK else len - offset) in
        do {
          (ret, b) \<leftarrow> rd offset want;
          if ret \<noteq> ERR_OK then Some (ret, crc)
          else verify_raw_loop rd len (offset + want) (crc_stream_feed_bitwise crc b)
        }
      else Some (ERR_OK, crc))"
  by pat_completeness auto
termination
  by (relation "measure (\<lambda>(rd, len, offset, crc). len - offset)") (auto simp: IMAGE_VERIFY_CHUNK_def split: if_splits)

definition image_verify_raw :: "(nat \<Rightarrow> nat \<Rightarrow> (int \<times> u8 list) option) option \<Rightarrow> nat \<Rightarrow> u32 \<Rightarrow> int option" where
  "image_verify_raw read_fn len expected_crc =
     (case read_fn of
        None \<Rightarrow> Some ERR_ARG
      | Some rd \<Rightarrow>
          if len = 0 then Some ERR_ARG
          else do {
            (rc, crc) \<leftarrow> verify_raw_loop rd len 0 crc_model_start;
            if rc \<noteq> ERR_OK then Some rc
            else Some (if crc_stream_finish crc = expected_crc then ERR_OK else ERR_CRC_MISMATCH)
          })"

definition verify_area_read :: "'d flash_ops_t option \<Rightarrow> 'd \<Rightarrow> flash_area \<Rightarrow> nat \<Rightarrow> nat \<Rightarrow> nat \<Rightarrow> (int \<times> u8 list) option" where
  "verify_area_read fl d area off offset len = flash_area_read_operation fl d area (sz_add off offset) len"

definition image_verify_area :: "'d flash_ops_t option \<Rightarrow> 'd \<Rightarrow> u32 \<Rightarrow> nat \<Rightarrow> nat \<Rightarrow> u32 \<Rightarrow> int option" where
  "image_verify_area fl d area_id off len expected_crc =
     do {
       (ret, area) \<leftarrow> flash_area_open fl d area_id;
       if ret \<noteq> ERR_OK then Some ret
       else case area of
         None \<Rightarrow> Some ERR_NOT_SUPPORTED
       | Some area \<Rightarrow> image_verify_raw (Some (verify_area_read fl d area off)) len expected_crc
     }"

subsection \<open>Chunked and one-shot feeding\<close>

text \<open>A medium that holds the image in memory.\<close>

definition buf_read :: "u8 list \<Rightarrow> nat \<Rightarrow> nat \<Rightarrow> (int \<times> u8 list) option" where
  "buf_read b off n = do { x \<leftarrow> mem_read b off n; Some (ERR_OK, x) }"

lemma mem_read_Some: "off + n \<le> length b \<Longrightarrow> mem_read b off n = Some (take n (drop off b))"
  by (simp add: mem_read_def)

lemma buf_read_Some: "off + n \<le> length b \<Longrightarrow> buf_read b off n = Some (ERR_OK, take n (drop off b))"
  by (simp add: buf_read_def mem_read_Some)

declare stream_loop.simps [simp del] verify_raw_loop.simps [simp del]

lemma take_drop_split: "c \<le> n \<Longrightarrow> take n (drop off b) = take c (drop off b) @ take (n - c) (drop (off + c) b)"
  by (metis add.commute drop_drop le_add_diff_inverse take_add)

context byte_stream
begin

lemma loop_eq:
  assumes "length b < 2 ^ 32" "0 < scratch" "gran dvd scratch"
  shows "off + n \<le> length b \<Longrightarrow> stream_loop (buf_read b) feed err scratch off n s =
    Some (let (rc, s') = feed s (take n (drop off b)) in (if rc \<noteq> 0 then err else ERR_OK, s'))"
proof (induction n arbitrary: off s rule: less_induct)
  case (less n)
  show ?case
  proof (cases "n = 0")
    case True
    then show ?thesis by (subst stream_loop.simps) (simp add: feed_nil)
  next
    case False
    show ?thesis
    proof (cases "scratch < n")
      case True
      obtain rc s' where f: "feed s (take scratch (drop off b)) = (rc, s')" by fastforce
      have sz: "sz_add off scratch = off + scratch" using True less.prems assms(1) by (simp add: sz_add_eq)
      have r: "buf_read b off scratch = Some (ERR_OK, take scratch (drop off b))"
        using True less.prems by (simp add: buf_read_Some)
      have "length (take scratch (drop off b)) = scratch" using True less.prems by simp
      then have "feed s (take n (drop off b)) = (if rc \<noteq> 0 then (rc, s') else feed s' (take (n - scratch) (drop (off + scratch) b)))"
        using True f assms(3) by (simp add: take_drop_split [of scratch n off b] feed_append)
      moreover have "stream_loop (buf_read b) feed err scratch (off + scratch) (n - scratch) s' =
          Some (let (rc, s'') = feed s' (take (n - scratch) (drop (off + scratch) b)) in (if rc \<noteq> 0 then err else ERR_OK, s''))"
        using less.IH [of "n - scratch" "off + scratch" s'] True assms(2) less.prems by simp
      ultimately show ?thesis using True False f r sz assms(2) by (subst stream_loop.simps) (simp add: Let_def)
    next
      case nf: False
      obtain rc s' where f: "feed s (take n (drop off b)) = (rc, s')" by fastforce
      have r: "buf_read b off n = Some (ERR_OK, take n (drop off b))" using less.prems by (simp add: buf_read_Some)
      have "stream_loop (buf_read b) feed err scratch (sz_add off n) 0 s' = Some (ERR_OK, s')"
        by (subst stream_loop.simps) simp
      then show ?thesis using nf False f r assms(2) by (subst stream_loop.simps) (simp add: Let_def)
    qed
  qed
qed

end

lemma loop_map:
  assumes "\<And>s b. feed' (h s) b = (let (rc, s') = feed s b in (rc, h s'))"
  shows "stream_loop rd feed' err scratch off n (h s) = map_option (\<lambda>(rc, s'). (rc, h s')) (stream_loop rd feed err scratch off n s)"
proof (induction n arbitrary: off s rule: less_induct)
  case (less n)
  let ?c = "if scratch < n then scratch else n"
  show ?case
  proof (cases "n = 0 \<or> scratch = 0 \<or> rd off ?c = None")
    case True
    then show ?thesis by (subst (1 2) stream_loop.simps) (auto simp: Let_def)
  next
    case False
    then obtain rc b where r: "rd off ?c = Some (rc, b)" by auto
    obtain rc' s' where f: "feed s b = (rc', s')" by fastforce
    have "n - ?c < n" using False by auto
    from less.IH [OF this, of "sz_add off ?c" s'] show ?thesis
      using False r f assms by (subst (1 2) stream_loop.simps) (simp add: Let_def)
  qed
qed

interpretation cs: byte_stream "\<lambda>s b. (0, crc_stream_feed_bitwise s b)" 1
proof
  fix s show "(0 :: int, crc_stream_feed_bitwise s []) = (0, s)"
    by (auto simp: crc_stream_feed_bitwise_def crc_bitwise_engine_def split: option.splits)
next
  fix a s b
  show "(0 :: int, crc_stream_feed_bitwise s (a @ b)) =
      (let (rc, s') = (0, crc_stream_feed_bitwise s a) in if rc \<noteq> 0 then (rc, s') else (0, crc_stream_feed_bitwise s' b))"
    by (simp add: feed_bitwise_append)
qed

subsection \<open>Layout\<close>

definition aux_size :: "image_check_t \<Rightarrow> nat" where
  "aux_size mode = the (snd (image_aux_len mode True))"

lemma aux_len_Some: "image_aux_len mode True = (ERR_OK, Some (aux_size mode))"
  by (simp add: image_aux_len_def aux_size_def)

lemma aux_size_le: "aux_size mode \<le> 48"
  by (cases mode) (simp_all add: image_aux_len_def aux_size_def)

lemma meta_decode_Some:
  assumes "meta_decode m = (rc, Some (mode, is_front, vl, tg))"
  shows "rc = ERR_OK" "vl < 256" "tg < 256"
proof -
  have "unat x < 256" for x :: u8 using unsigned_less [of x] by simp
  then show "rc = ERR_OK" "vl < 256" "tg < 256" using assms by (auto simp: meta_decode_def split: if_splits)
qed

lemma overhead_eq:
  assumes "vl < 256" "tg < 256"
  shows "image_overhead mode vl tg True = (ERR_OK, Some (8 + vl + tg + aux_size mode))"
  using assms aux_size_le [of mode] by (auto simp: image_overhead_def aux_len_Some)

text \<open>The view that a meta record determines for an image of \<open>len\<close> bytes.\<close>

definition view_at :: "u8 list \<Rightarrow> image_check_t \<Rightarrow> bool \<Rightarrow> nat \<Rightarrow> nat \<Rightarrow> image_view_t" where
  "view_at b mode is_front vl tg =
     (let p = length b - (8 + vl + tg + aux_size mode);
          version = (if is_front then 4 else p + aux_size mode);
          aux = (if is_front then 4 + vl + tg else p) in
      \<lparr>vw_mode = mode, vw_is_front = is_front, vw_payload = (if is_front then aux + aux_size mode else 0), vw_payload_len = p,
       vw_aux = aux, vw_aux_len = aux_size mode, vw_version = version, vw_version_len = vl, vw_tag = version + vl, vw_tag_len = tg,
       vw_crc_stored = rd32 (take 4 (drop (if is_front then 0 else version + vl + tg) b)) 0\<rparr>)"

lemma parse_eq:
  "image_parse (Some b) (length b) True =
     (if length b < 8 then Some (ERR_ARG, None)
      else case snd (meta_decode (take 4 (drop (length b - 4) b))) of
        None \<Rightarrow> Some (ERR_ARG, None)
      | Some (mode, is_front, vl, tg) \<Rightarrow>
          if length b < 8 + vl + tg + aux_size mode then Some (ERR_TOO_SMALL, None)
          else Some (ERR_OK, Some (view_at b mode is_front vl tg)))"
proof (cases "length b < 8")
  case False
  let ?m = "take 4 (drop (length b - 4) b)"
  have m: "mem_read b (length b - 4) 4 = Some ?m" using False by (simp add: mem_read_Some)
  obtain rc r where d: "meta_decode ?m = (rc, r)" by fastforce
  show ?thesis
  proof (cases r)
    case None
    then have "rc = ERR_ARG" using d by (auto simp: meta_decode_def split: if_splits)
    then show ?thesis using False m d None by (simp add: image_parse_def)
  next
    case (Some q)
    obtain mode is_front vl tg where q: "q = (mode, is_front, vl, tg)" by (cases q) auto
    have vt: "rc = ERR_OK" "vl < 256" "tg < 256" using meta_decode_Some [of ?m] d Some q by auto
    have c: "mem_read b (if is_front then 0 else length b - (8 + vl + tg + aux_size mode) + aux_size mode + vl + tg) 4 =
        Some (take 4 (drop (if is_front then 0 else length b - (8 + vl + tg + aux_size mode) + aux_size mode + vl + tg) b))"
      if "\<not> length b < 8 + vl + tg + aux_size mode" using that False by (intro mem_read_Some) auto
    show ?thesis
    proof (cases "length b < 8 + vl + tg + aux_size mode")
      case True
      then show ?thesis using False m d Some q vt by (simp add: image_parse_def overhead_eq)
    next
      case nf: False
      have a: "snd (image_aux_len mode True) = Some (aux_size mode)" by (simp add: aux_len_Some)
      show ?thesis using False m d Some q vt nf c [OF nf]
        by (cases is_front) (simp_all add: image_parse_def overhead_eq a view_at_def Let_def add.assoc)
    qed
  qed
qed (simp add: image_parse_def)

lemma parse_Some:
  "\<exists>rc v. image_parse (Some b) (length b) True = Some (rc, v) \<and> (v = None \<longrightarrow> rc = ERR_ARG \<or> rc = ERR_TOO_SMALL)"
  by (auto simp: parse_eq split: option.splits)

text \<open>The part of \<open>image_verify_stream\<close> after the layout is known.\<close>

definition verify_mode ::
    "('s, 'h, 'g, 'a) mbedtls \<Rightarrow> (nat \<Rightarrow> nat \<Rightarrow> (int \<times> u8 list) option) \<Rightarrow> nat \<Rightarrow> image_read_cfg_t \<Rightarrow> image_view_t \<Rightarrow> int option" where
  "verify_mode mb rd scratch_size cf v =
     (case vw_mode v of
        IMAGE_CHECK_CRC \<Rightarrow> verify_crc rd scratch_size (vw_payload v) (vw_payload_len v) (vw_crc_stored v)
      | IMAGE_CHECK_CBC \<Rightarrow> Some ERR_OK
      | IMAGE_CHECK_SHA \<Rightarrow> verify_sha mb rd scratch_size (vw_aux v) (vw_payload v) (vw_payload_len v)
      | IMAGE_CHECK_GCM \<Rightarrow> verify_gcm mb rd scratch_size (cfg_key cf) (vw_aux v) (vw_payload v) (vw_payload_len v)
      | IMAGE_CHECK_CBC_SHA \<Rightarrow> verify_cbc_sha mb rd scratch_size (mac_key_of cf) (vw_aux v) (vw_payload v) (vw_payload_len v))"

lemma stream_eq:
  assumes "16 \<le> scratch"
  shows "image_verify_stream mb (Some (buf_read b)) (length b) (Some cf) True scratch =
    (case image_parse (Some b) (length b) True of
       Some (rc, Some v) \<Rightarrow> do { rc \<leftarrow> verify_mode mb (buf_read b) scratch cf v; Some (rc, Some (vw_crc_stored v)) }
     | Some (rc, None) \<Rightarrow> Some (rc, None)
     | None \<Rightarrow> None)"
proof (cases "length b < 8")
  case False
  let ?m = "take 4 (drop (length b - 4) b)"
  have m: "buf_read b (length b - 4) 4 = Some (ERR_OK, ?m)" using False by (simp add: buf_read_Some)
  obtain rc r where d: "meta_decode ?m = (rc, r)" by fastforce
  show ?thesis
  proof (cases r)
    case None
    then have "rc = ERR_ARG" using d by (auto simp: meta_decode_def split: if_splits)
    then show ?thesis using False m d None assms by (simp add: image_verify_stream_def parse_eq)
  next
    case (Some q)
    obtain mode is_front vl tg where q: "q = (mode, is_front, vl, tg)" by (cases q) auto
    have vt: "rc = ERR_OK" "vl < 256" "tg < 256" using meta_decode_Some [of ?m] d Some q by auto
    have a: "snd (image_aux_len mode True) = Some (aux_size mode)" by (simp add: aux_len_Some)
    show ?thesis
    proof (cases "length b < 8 + vl + tg + aux_size mode")
      case True
      then show ?thesis using False m d Some q vt assms by (simp add: image_verify_stream_def overhead_eq parse_eq a)
    next
      case nf: False
      have c: "buf_read b (if is_front then 0 else length b - 4 - 4) 4 = Some (ERR_OK, take 4 (drop (if is_front then 0 else length b - 4 - 4) b))"
        using False by (intro buf_read_Some) auto
      have e: "length b - (8 + vl + tg + aux_size mode) + aux_size mode + vl + tg = length b - 4 - 4"
        "length b - 4 - 4 - vl - tg - aux_size mode = length b - (8 + vl + tg + aux_size mode)" using nf by simp_all
      show ?thesis using False m d Some q vt nf c e assms
        by (cases is_front; cases mode) (simp_all add: image_verify_stream_def overhead_eq parse_eq aux_len_Some verify_mode_def view_at_def Let_def)
    qed
  qed
qed (use assms in \<open>simp add: image_verify_stream_def parse_eq\<close>)

lemma parse_view:
  assumes "image_parse (Some b) (length b) True = Some (rc, Some v)"
  shows "rc = ERR_OK" "vw_payload v + vw_payload_len v \<le> length b" "vw_aux v + vw_aux_len v \<le> length b"
    "vw_aux_len v = aux_size (vw_mode v)" "vw_version v + vw_version_len v \<le> length b" "vw_tag v + vw_tag_len v \<le> length b"
  using assms by (auto simp: parse_eq view_at_def Let_def split: if_splits option.splits)

text \<open>
  What the checks rely on of mbedtls: the streams take a message in parts, for GCM in multiples of 16 bytes; the results have
  their documented lengths.
\<close>

definition gcm_absorb :: "('s, 'h, 'g, 'a) mbedtls \<Rightarrow> 'g \<Rightarrow> u8 list \<Rightarrow> int \<times> 'g" where
  "gcm_absorb mb g b = (let (rc, out, g') = mb_gcm_update mb g b in (rc, g'))"

definition mbedtls_streams :: "('s, 'h, 'g, 'a) mbedtls \<Rightarrow> bool" where
  "mbedtls_streams mb \<longleftrightarrow> MBEDTLS_ERR_MD_BAD_INPUT_DATA mb \<noteq> 0 \<and>
     byte_stream (mb_sha256_update_ret mb) 1 \<and> byte_stream (mb_md_hmac_update mb) 1 \<and> byte_stream (gcm_absorb mb) 16 \<and>
     (\<forall>s. length (snd (mb_sha256_finish_ret mb s)) = 32) \<and> (\<forall>h. length (snd (mb_md_hmac_finish mb h)) = 32) \<and>
     (\<forall>g n. length (snd (mb_gcm_finish mb g n)) = n) \<and> (\<forall>g b. length (fst (snd (mb_gcm_update mb g b))) = length b) \<and>
     (\<forall>a e iv b. length (fst (snd (mb_aes_crypt_cbc mb a e iv b))) = length b)"

text \<open>Each mode: what the loop over chunks computes is what the one-shot routine computes.\<close>

lemma ct_equal_eq: "n \<le> length a \<Longrightarrow> n \<le> length b \<Longrightarrow> ct_equal a b n = Some (take n a = take n b)"
  using ct_diff_Some [of n a b 0] by (auto simp: ct_equal_def)

lemma verify_crc_eq:
  assumes "length b < 2 ^ 32" "0 < scratch" "vw_payload v + vw_payload_len v \<le> length b"
  shows "verify_crc (buf_read b) scratch (vw_payload v) (vw_payload_len v) (vw_crc_stored v) =
    do { calc \<leftarrow> calc_crc b v; Some (if calc = vw_crc_stored v then ERR_OK else ERR_CRC_MISMATCH) }"
  using cs.loop_eq [OF assms(1,2) _ assms(3), of ERR_OK crc_model_start] mem_read_Some [OF assms(3)]
  by (simp add: verify_crc_def calc_crc_def)

lemma feed_Some:
  "sha256_feed mb (Some s) (Some b) = (let (rc, s') = mb_sha256_update_ret mb s b in (rc, Some s'))"
  "hmac_sha256_stream_feed mb (Some h) (Some b) = (let (rc, h') = mb_md_hmac_update mb h b in (rc, Some h'))"
  "aes_gcm_stream_feed mb (Some g) (Some b) True = (let (rc, out, g') = mb_gcm_update mb g b in (rc, out, Some g'))"
  by (simp_all add: sha256_feed_def hmac_sha256_stream_feed_def aes_gcm_stream_feed_def)

lemma sha_loop:
  "stream_loop rd (\<lambda>s b. sha256_feed mb s (Some b)) err scratch off n (Some s) =
     map_option (\<lambda>(rc, s'). (rc, Some s')) (stream_loop rd (mb_sha256_update_ret mb) err scratch off n s)"
  by (rule loop_map) (simp add: feed_Some)

lemma hmac_loop:
  "stream_loop rd (\<lambda>s b. hmac_sha256_stream_feed mb s (Some b)) err scratch off n (Some s) =
     map_option (\<lambda>(rc, s'). (rc, Some s')) (stream_loop rd (mb_md_hmac_update mb) err scratch off n s)"
  by (rule loop_map) (simp add: feed_Some)

lemma gcm_loop:
  "stream_loop rd (\<lambda>s b. case aes_gcm_stream_feed mb s (Some b) True of (rc, out, s) \<Rightarrow> (rc, s)) err scratch off n (Some g) =
     map_option (\<lambda>(rc, s'). (rc, Some s')) (stream_loop rd (gcm_absorb mb) err scratch off n g)"
  by (rule loop_map) (simp add: feed_Some gcm_absorb_def split: prod.splits)

lemma verify_sha_eq:
  assumes "mbedtls_streams mb" "length b < 2 ^ 32" "0 < scratch" "vw_payload v + vw_payload_len v \<le> length b"
    "vw_aux v + vw_aux_len v \<le> length b" "vw_aux_len v = 32"
  shows "verify_sha mb (buf_read b) scratch (vw_aux v) (vw_payload v) (vw_payload_len v) = check_sha mb b v"
proof -
  have law: "byte_stream (mb_sha256_update_ret mb) 1" and len: "\<forall>s. length (snd (mb_sha256_finish_ret mb s)) = 32"
    using assms(1) by (simp_all add: mbedtls_streams_def)
  obtain rc s where b: "mb_sha256_starts_ret mb (mb_sha256_init mb) = (rc, s)" by fastforce
  let ?p = "take (vw_payload_len v) (drop (vw_payload v) b)"
  obtain rc1 s1 where f: "mb_sha256_update_ret mb s ?p = (rc1, s1)" by fastforce
  have l: "stream_loop (buf_read b) (mb_sha256_update_ret mb) ERR_HASH_FAILED scratch (vw_payload v) (vw_payload_len v) s =
      Some (if rc1 \<noteq> 0 then ERR_HASH_FAILED else ERR_OK, s1)"
    using byte_stream.loop_eq [OF law assms(2,3) _ assms(4), of ERR_HASH_FAILED s] f by simp
  have a: "mem_read b (vw_aux v) 32 = Some (take 32 (drop (vw_aux v) b))" "buf_read b (vw_aux v) 32 = Some (ERR_OK, take 32 (drop (vw_aux v) b))"
    using assms(5,6) by (simp_all add: mem_read_Some buf_read_Some)
  show ?thesis
    using b f l a mem_read_Some [OF assms(4)] assms(6)
    by (simp add: verify_sha_def check_sha_def sha256_begin_def sha_loop feed_Some sha256_end_def split: prod.splits)
qed

lemma gcm_begin_Some:
  "aes_gcm_decrypt_stream_begin mb True (Some iv) (Some key) = (0, g) \<Longrightarrow> \<exists>g'. g = Some g'"
  by (auto simp: aes_gcm_decrypt_stream_begin_def split: prod.splits if_splits)

lemma hmac_begin_Some:
  "hmac_sha256_stream_begin mb True (Some key) = (0, h) \<Longrightarrow> MBEDTLS_ERR_MD_BAD_INPUT_DATA mb \<noteq> 0 \<Longrightarrow> \<exists>h'. h = Some h'"
  by (auto simp: hmac_sha256_stream_begin_def split: prod.splits if_splits)

lemma verify_gcm_eq:
  assumes "mbedtls_streams mb" "length b < 2 ^ 32" "0 < scratch" "16 dvd scratch" "vw_payload v + vw_payload_len v \<le> length b"
    "vw_aux v + vw_aux_len v \<le> length b" "vw_aux_len v = 28" "vw_payload_len v \<le> cap" "cap \<le> length out"
  shows "verify_gcm mb (buf_read b) scratch (Some key) (vw_aux v) (vw_payload v) (vw_payload_len v) =
      do { (rc, o', n) \<leftarrow> gcm_decrypt mb b v key out cap; Some rc }"
proof -
  have law: "byte_stream (gcm_absorb mb) 16" and len: "\<forall>g n. length (snd (mb_gcm_finish mb g n)) = n"
    "\<forall>g b. length (fst (snd (mb_gcm_update mb g b))) = length b"
    using assms(1) by (simp_all add: mbedtls_streams_def)
  let ?p = "take (vw_payload_len v) (drop (vw_payload v) b)" and ?n = "take 12 (drop (vw_aux v) b)" and ?t = "take 16 (drop (vw_aux v + 12) b)"
  have a: "mem_read b (vw_aux v) 12 = Some ?n" "buf_read b (vw_aux v) 12 = Some (ERR_OK, ?n)"
    "mem_read b (vw_aux v + 12) 16 = Some ?t" "buf_read b (sz_add (vw_aux v) 12) 16 = Some (ERR_OK, ?t)"
    using assms(2,6,7) by (simp_all add: mem_read_Some buf_read_Some sz_add_eq)
  obtain rc g where b: "aes_gcm_decrypt_stream_begin mb True (Some ?n) (Some key) = (rc, g)" by fastforce
  show ?thesis
  proof (cases "rc = 0")
    case False
    then show ?thesis using a b assms(7,8) by (simp add: verify_gcm_def gcm_decrypt_def)
  next
    case True
    then obtain g0 where g: "g = Some g0" using gcm_begin_Some b by blast
    obtain rc1 pl g1 where f: "mb_gcm_update mb g0 ?p = (rc1, pl, g1)" by (metis prod_cases3)
    have l: "stream_loop (buf_read b) (gcm_absorb mb) ERR_DECRYPT_FAILED scratch (vw_payload v) (vw_payload_len v) g0 =
        Some (if rc1 \<noteq> 0 then ERR_DECRYPT_FAILED else ERR_OK, g1)"
      using byte_stream.loop_eq [OF law assms(2,3,4,5), of ERR_DECRYPT_FAILED g0] f by (simp add: gcm_absorb_def)
    have "length pl = vw_payload_len v" using len(2) f assms(5) by (metis fst_conv snd_conv length_take length_drop min.absorb2 le_diff_conv2 add.commute le_add1 order_trans)
    then have "mem_copy out 0 pl 0 (vw_payload_len v) = Some (blit out 0 (take (vw_payload_len v) (drop 0 pl)))"
      using assms(8,9) by (intro mem_copy_Some) auto
    then show ?thesis using a b g f l True mem_read_Some [OF assms(5)] assms(7,8)
      by (simp add: verify_gcm_def gcm_decrypt_def gcm_loop feed_Some split: Option.bind_splits)
  qed
qed

text \<open>An image of the last mode is authentic when the message code of vector and payload is the stored one.\<close>

definition hmac_authentic :: "('s, 'h, 'g, 'a) mbedtls \<Rightarrow> u8 list \<Rightarrow> u8 list \<Rightarrow> image_view_t \<Rightarrow> bool" where
  "hmac_authentic mb mac_key b v \<longleftrightarrow>
     image_hmac mb mac_key (take 16 (drop (vw_aux v) b)) (take (vw_payload_len v) (drop (vw_payload v) b)) =
       (0, take 32 (drop (vw_aux v + 16) b))"

lemma hmac_end_length:
  assumes "mbedtls_streams mb" "image_hmac mb k iv p = (0, c)"
  shows "length c = 32"
proof -
  obtain rc h where b: "hmac_sha256_stream_begin mb True (Some k) = (rc, h)" by fastforce
  have "rc = 0" using assms(2) b by (auto simp: image_hmac_def Let_def split: if_splits prod.splits)
  then obtain h0 where "h = Some h0" using hmac_begin_Some b assms(1) by (metis mbedtls_streams_def)
  then show ?thesis using assms b \<open>rc = 0\<close>
    by (auto simp: image_hmac_def Let_def feed_Some hmac_sha256_stream_end_def mbedtls_streams_def split: if_splits prod.splits)
      (metis snd_conv)+
qed

lemma cbc_sha_decrypt_eq:
  assumes "mbedtls_streams mb" "vw_payload v + vw_payload_len v \<le> length b" "vw_aux v + vw_aux_len v \<le> length b" "vw_aux_len v = 48"
    "vw_payload_len v \<noteq> 0" "vw_payload_len v mod 16 = 0" "vw_payload_len v \<le> cap"
  shows "cbc_sha_decrypt mb b v key mac_key out cap =
    (if hmac_authentic mb mac_key b v then cbc_payload mb b v (take 16 (drop (vw_aux v) b)) key out
     else Some (ERR_AUTH_FAILED, Some out, None))"
proof -
  let ?p = "take (vw_payload_len v) (drop (vw_payload v) b)" and ?iv = "take 16 (drop (vw_aux v) b)" and ?h = "take 32 (drop (vw_aux v + 16) b)"
  have a: "mem_read b (vw_aux v) 16 = Some ?iv" "mem_read b (vw_aux v + 16) 32 = Some ?h"
    using assms(3,4) by (simp_all add: mem_read_Some)
  obtain rc c where h: "image_hmac mb mac_key ?iv ?p = (rc, c)" by fastforce
  have "ct_equal c ?h 32 = Some (c = ?h)" if "rc = 0"
    using ct_equal_eq [of 32 c ?h] hmac_end_length [OF assms(1), of mac_key ?iv ?p c] h that assms(3,4) by simp
  then show ?thesis using a h mem_read_Some [OF assms(2)] assms(4-7)
    by (auto simp: cbc_sha_decrypt_def hmac_authentic_def)
qed

lemma verify_cbc_sha_eq:
  assumes "mbedtls_streams mb" "length b < 2 ^ 32" "0 < scratch" "vw_payload v + vw_payload_len v \<le> length b"
    "vw_aux v + vw_aux_len v \<le> length b" "vw_aux_len v = 48"
  shows "verify_cbc_sha mb (buf_read b) scratch (Some k) (vw_aux v) (vw_payload v) (vw_payload_len v) =
    Some (if hmac_authentic mb k b v then ERR_OK else ERR_AUTH_FAILED)"
proof -
  have law: "byte_stream (mb_md_hmac_update mb) 1" using assms(1) by (simp add: mbedtls_streams_def)
  let ?p = "take (vw_payload_len v) (drop (vw_payload v) b)" and ?iv = "take 16 (drop (vw_aux v) b)" and ?h = "take 32 (drop (vw_aux v + 16) b)"
  have a: "buf_read b (vw_aux v) 16 = Some (ERR_OK, ?iv)" "buf_read b (sz_add (vw_aux v) 16) 32 = Some (ERR_OK, ?h)"
    using assms(2,5,6) by (simp_all add: buf_read_Some sz_add_eq)
  obtain rc h where b: "hmac_sha256_stream_begin mb True (Some k) = (rc, h)" by fastforce
  show ?thesis
  proof (cases "rc = 0")
    case False
    then show ?thesis using a b by (simp add: verify_cbc_sha_def hmac_authentic_def image_hmac_def Let_def)
  next
    case True
    then obtain h0 where h: "h = Some h0" using hmac_begin_Some b assms(1) by (metis mbedtls_streams_def)
    obtain rc1 h1 where f: "mb_md_hmac_update mb h0 ?iv = (rc1, h1)" by fastforce
    obtain rc2 h2 where g: "mb_md_hmac_update mb h1 ?p = (rc2, h2)" by fastforce
    obtain rc3 c where e: "mb_md_hmac_finish mb h2 = (rc3, c)" by fastforce
    have l: "stream_loop (buf_read b) (mb_md_hmac_update mb) ERR_AUTH_FAILED scratch (vw_payload v) (vw_payload_len v) h1 =
        Some (if rc2 \<noteq> 0 then ERR_AUTH_FAILED else ERR_OK, h2)"
      using byte_stream.loop_eq [OF law assms(2,3) _ assms(4), of ERR_AUTH_FAILED h1] g by simp
    have "length c = 32" using assms(1) e unfolding mbedtls_streams_def by (metis snd_conv)
    then have "ct_equal c ?h 32 = Some (c = ?h)" using ct_equal_eq [of 32 c ?h] assms(5,6) by simp
    then show ?thesis using a b h f g e l True
      by (simp add: verify_cbc_sha_def hmac_authentic_def image_hmac_def Let_def feed_Some hmac_loop hmac_sha256_stream_end_def)
  qed
qed

subsection \<open>The one-shot reader\<close>

lemma unpad_Some:
  assumes "n \<noteq> 0" "n mod 16 = 0" "n \<le> length d"
  shows "\<exists>rc m. pkcs7_unpad (Some d) n True = Some (rc, m) \<and> rc \<in> {ERR_OK, ERR_PADDING}"
proof -
  have "arr_get d (n - 1) = Some (d ! (n - 1))" using assms by (simp add: arr_get_def)
  then show ?thesis using assms by (simp add: pkcs7_unpad_def)
qed

lemma cbc_payload_Some:
  assumes "mbedtls_streams mb" "length iv = 16" "vw_payload v + vw_payload_len v \<le> length b" "vw_payload_len v \<noteq> 0"
    "vw_payload_len v mod 16 = 0" "vw_payload_len v \<le> length out"
  shows "\<exists>rc o' n. cbc_payload mb b v iv key out = Some (rc, o', n) \<and> rc \<in> {ERR_OK, ERR_PADDING, ERR_DECRYPT_FAILED}"
proof -
  let ?p = "take (vw_payload_len v) (drop (vw_payload v) b)"
  obtain rc a where k: "mb_aes_setkey_dec mb (mb_aes_init mb) key (key_bits key) = (rc, a)" by fastforce
  obtain rc1 pl iv1 where c: "mb_aes_crypt_cbc mb a False iv ?p = (rc1, pl, iv1)" by (metis prod_cases3)
  have lp: "length ?p = vw_payload_len v" using assms(3) by simp
  then have "length pl = vw_payload_len v" using assms(1) c unfolding mbedtls_streams_def by (metis fst_conv snd_conv)
  then have m: "mem_copy out 0 pl 0 (vw_payload_len v) = Some (blit out 0 pl)" using assms(6) by simp
  then have "length (blit out 0 pl) = length out" using mem_copy_length by blast
  then obtain r n where "pkcs7_unpad (Some (blit out 0 pl)) (vw_payload_len v) True = Some (r, n)" "r \<in> {ERR_OK, ERR_PADDING}"
    using unpad_Some assms(4-6) by metis
  moreover have "?p \<noteq> []" using lp assms(4) by (metis list.size(3))
  ultimately show ?thesis
    using k c m lp assms(2,5) mem_read_Some [OF assms(3)]
    by (auto simp: cbc_payload_def aes_cbc_decrypt_stream_begin_def cbc_stream_init_def mem_read_def aes_cbc_decrypt_stream_feed_def cbc_stream_feed_def)
qed

lemma check_sha_Some:
  assumes "mbedtls_streams mb" "vw_payload v + vw_payload_len v \<le> length b" "vw_aux v + vw_aux_len v \<le> length b" "vw_aux_len v = 32"
  shows "\<exists>rc. check_sha mb b v = Some rc"
proof -
  let ?a = "take 32 (drop (vw_aux v) b)"
  have "ct_equal d ?a 32 = Some (d = ?a)" if "mb_sha256_finish_ret mb s = (rc, d)" for s rc d
  proof -
    have "length d = 32" using assms(1) that unfolding mbedtls_streams_def by (metis snd_conv)
    moreover have "length ?a = 32" using assms(3,4) by simp
    ultimately show ?thesis using ct_equal_eq [of 32 d ?a] by simp
  qed
  then show ?thesis using mem_read_Some [OF assms(2)] mem_read_Some [of "vw_aux v" 32 b] assms(3,4)
    by (simp add: check_sha_def sha256_begin_def feed_Some sha256_end_def split: prod.splits)
qed

lemma gcm_decrypt_Some:
  assumes "mbedtls_streams mb" "vw_payload v + vw_payload_len v \<le> length b" "vw_aux v + vw_aux_len v \<le> length b" "vw_aux_len v = 28"
    "vw_payload_len v \<le> cap" "cap \<le> length out"
  shows "\<exists>rc o' n. gcm_decrypt mb b v key out cap = Some (rc, o', n)"
proof -
  let ?p = "take (vw_payload_len v) (drop (vw_payload v) b)" and ?n = "take 12 (drop (vw_aux v) b)" and ?t = "take 16 (drop (vw_aux v + 12) b)"
  have a: "mem_read b (vw_aux v) 12 = Some ?n" "mem_read b (vw_aux v + 12) 16 = Some ?t" using assms(3,4) by (simp_all add: mem_read_Some)
  have len: "length (snd (mb_gcm_finish mb g n)) = n" "length (fst (snd (mb_gcm_update mb g x))) = length x" for g n x
    using assms(1) by (simp_all add: mbedtls_streams_def)
  obtain rc g where b: "aes_gcm_decrypt_stream_begin mb True (Some ?n) (Some key) = (rc, g)" by fastforce
  show ?thesis
  proof (cases "rc = 0")
    case True
    then obtain g0 where g: "g = Some g0" using gcm_begin_Some b by blast
    obtain rc1 pl g1 where f: "mb_gcm_update mb g0 ?p = (rc1, pl, g1)" by (metis prod_cases3)
    have "length ?p = vw_payload_len v" using assms(2) by simp
    then have "length pl = vw_payload_len v" using len(2) [of g0 ?p] f by simp
    then have m: "mem_copy out 0 pl 0 (vw_payload_len v) = Some (blit out 0 pl)" using assms(5,6) by simp
    obtain rc2 t where e: "mb_gcm_finish mb g1 16 = (rc2, t)" by fastforce
    then have "length t = 16" using len(1) [of g1 16] by simp
    then obtain d where "ct_diff t ?t 16 0 = Some d" using ct_diff_Some [of 16 t ?t 0] assms(3,4) by auto
    then show ?thesis using a b g f e m True mem_read_Some [OF assms(2)] assms(4,5)
      by (simp add: gcm_decrypt_def feed_Some aes_gcm_decrypt_stream_finish_def AES_GCM_MAX_TAG_LEN_def)
  qed (use a b assms(4,5) in \<open>simp add: gcm_decrypt_def\<close>)
qed

lemma cbc_decrypt_Some:
  assumes "mbedtls_streams mb" "vw_payload v + vw_payload_len v \<le> length b" "vw_aux v + vw_aux_len v \<le> length b" "vw_aux_len v = 16"
    "vw_payload_len v \<le> cap" "cap \<le> length out"
  shows "\<exists>rc o' n. cbc_decrypt mb b v key out cap = Some (rc, o', n)"
proof (cases "vw_payload_len v = 0 \<or> vw_payload_len v mod 16 \<noteq> 0")
  case False
  have "length (take 16 (drop (vw_aux v) b)) = 16" using assms(3,4) by simp
  from cbc_payload_Some [OF assms(1) this assms(2), of out key] show ?thesis
    using False assms(4-6) mem_read_Some [of "vw_aux v" 16 b] assms(3) by (auto simp: cbc_decrypt_def)
qed (use assms(4) in \<open>auto simp: cbc_decrypt_def\<close>)

lemma cbc_sha_decrypt_Some:
  assumes "mbedtls_streams mb" "vw_payload v + vw_payload_len v \<le> length b" "vw_aux v + vw_aux_len v \<le> length b" "vw_aux_len v = 48"
    "vw_payload_len v \<le> cap" "cap \<le> length out"
  shows "\<exists>rc o' n. cbc_sha_decrypt mb b v key mac_key out cap = Some (rc, o', n) \<and>
    (rc = ERR_OK \<or> o' \<noteq> Some out \<longrightarrow> hmac_authentic mb mac_key b v) \<and> (hmac_authentic mb mac_key b v \<longrightarrow> rc \<noteq> ERR_AUTH_FAILED)"
proof (cases "vw_payload_len v = 0 \<or> vw_payload_len v mod 16 \<noteq> 0")
  case False
  then have n0: "vw_payload_len v \<noteq> 0" and n16: "vw_payload_len v mod 16 = 0" by auto
  have iv: "length (take 16 (drop (vw_aux v) b)) = 16" using assms(3,4) by simp
  obtain rc o' n where "cbc_payload mb b v (take 16 (drop (vw_aux v) b)) key out = Some (rc, o', n)"
    "rc \<in> {ERR_OK, ERR_PADDING, ERR_DECRYPT_FAILED}"
    using cbc_payload_Some [OF assms(1) iv assms(2) n0 n16 order_trans [OF assms(5,6)], of key] by blast
  then show ?thesis using cbc_sha_decrypt_eq [OF assms(1-4) _ _ assms(5), of key mac_key out] False by auto
qed (use assms(4) in \<open>auto simp: cbc_sha_decrypt_def\<close>)

text \<open>The code that extraction returns for a view, given a key and an output buffer that can hold the image.\<close>

lemma copy_plain_OK:
  assumes "vw_payload v + vw_payload_len v \<le> length b" "length b \<le> length out"
  shows "\<exists>o' n. copy_plain b v (Some out) (length out) = Some (ERR_OK, o', n)"
  using assms mem_read_Some [OF assms(1)] by (simp add: copy_plain_def)

definition good_key :: "image_read_cfg_t \<Rightarrow> bool" where
  "good_key cf \<longleftrightarrow> (\<exists>k. cfg_key cf = Some k \<and> length k \<in> {16, 24, 32})"

lemma good_key_args: "good_key cf \<Longrightarrow> check_crypto_args cf True = ERR_OK"
  by (auto simp: good_key_def check_crypto_args_def)

subsection \<open>Properties\<close>

text \<open>A view fits an image when its fields, read in the order of the layout, are exactly the image.\<close>

definition bytes_at :: "u8 list \<Rightarrow> nat \<Rightarrow> nat \<Rightarrow> u8 list" where
  "bytes_at b off n = take n (drop off b)"

definition view_fits :: "u8 list \<Rightarrow> image_view_t \<Rightarrow> bool" where
  "view_fits b v \<longleftrightarrow> vw_aux_len v = aux_size (vw_mode v) \<and>
     (let fields = bytes_at b (vw_version v) (vw_version_len v) @ bytes_at b (vw_tag v) (vw_tag_len v);
          aux = bytes_at b (vw_aux v) (vw_aux_len v);
          payload = bytes_at b (vw_payload v) (vw_payload_len v);
          meta = bytes_at b (length b - 4) 4 in
      b = (if vw_is_front v then le32 (vw_crc_stored v) @ fields @ aux @ payload @ meta
           else payload @ aux @ fields @ le32 (vw_crc_stored v) @ meta) \<and>
      length aux = vw_aux_len v \<and> length payload = vw_payload_len v \<and> length fields = vw_version_len v + vw_tag_len v)"

lemma bytes_at_drop: "bytes_at b off n @ drop (off + n) b = drop off b"
  unfolding bytes_at_def by (metis add.commute append_take_drop_id drop_drop)

lemma bytes_at_end: "length b \<le> off + n \<Longrightarrow> bytes_at b off n = drop off b"
  by (simp add: bytes_at_def)

lemma le32_rd32:
  assumes "length c = 4"
  shows "le32 (rd32 c 0) = c"
proof -
  obtain w x y z where c: "c = [w, x, y, z]" using assms by (auto simp: numeral_eq_Suc length_Suc_conv)
  have "ucast (rd32 c 0) = w" "ucast (drop_bit 8 (rd32 c 0)) = x" "ucast (drop_bit 16 (rd32 c 0)) = y" "ucast (drop_bit 24 (rd32 c 0)) = z"
    by (rule bit_word_eqI; auto simp: c rd32_def bit_simps dest: bit_imp_le_length; fail)+
  then show ?thesis by (simp add: le32_def c)
qed

lemma view_at_fits:
  assumes "8 + vl + tg + aux_size mode \<le> length b"
  shows "view_fits b (view_at b mode is_front vl tg)"
proof -
  define p where "p = length b - (8 + vl + tg + aux_size mode)"
  have p: "length b = 8 + vl + tg + aux_size mode + p" using assms by (simp add: p_def)
  have len: "length (bytes_at b off n) = n" if "off + n \<le> length b" for off n using that by (simp add: bytes_at_def)
  have crc: "le32 (rd32 (take 4 (drop off b)) 0) = bytes_at b off 4" if "off + 4 \<le> length b" for off
    using that by (simp add: le32_rd32 bytes_at_def)
  show ?thesis
  proof (cases is_front)
    case True
    have "bytes_at b 0 4 @ bytes_at b 4 vl @ bytes_at b (4 + vl) tg @ bytes_at b (4 + vl + tg) (aux_size mode) @
        bytes_at b (4 + vl + tg + aux_size mode) p @ bytes_at b (4 + vl + tg + aux_size mode + p) 4 = b"
      using bytes_at_drop [of b 0 4] bytes_at_drop [of b 4 vl] bytes_at_drop [of b "4 + vl" tg]
        bytes_at_drop [of b "4 + vl + tg" "aux_size mode"] bytes_at_drop [of b "4 + vl + tg + aux_size mode" p]
        bytes_at_end [of b "4 + vl + tg + aux_size mode + p" 4] p by simp
    moreover have "length b - 4 = 4 + vl + tg + aux_size mode + p" using p by simp
    ultimately show ?thesis using True p len crc [of 0] by (simp add: view_fits_def view_at_def Let_def add.assoc flip: p_def)
  next
    case False
    have "bytes_at b 0 p @ bytes_at b p (aux_size mode) @ bytes_at b (p + aux_size mode) vl @ bytes_at b (p + aux_size mode + vl) tg @
        bytes_at b (p + aux_size mode + vl + tg) 4 @ bytes_at b (p + aux_size mode + vl + tg + 4) 4 = b"
      using bytes_at_drop [of b 0 p] bytes_at_drop [of b p "aux_size mode"] bytes_at_drop [of b "p + aux_size mode" vl]
        bytes_at_drop [of b "p + aux_size mode + vl" tg] bytes_at_drop [of b "p + aux_size mode + vl + tg" 4]
        bytes_at_end [of b "p + aux_size mode + vl + tg + 4" 4] p by simp
    moreover have "length b - 4 = p + aux_size mode + vl + tg + 4" using p by simp
    ultimately show ?thesis using False p len crc [of "p + aux_size mode + vl + tg"]
      by (simp add: view_fits_def view_at_def Let_def ac_simps flip: p_def)
  qed
qed

text \<open>
  C12. On any bytes the parser of update images returns without reading outside them. It succeeds or leaves no view; a view
  it returns fits the image: checksum, version, tag, additional data, payload and meta are adjacent and cover it, in the
  order of the layout the meta names, and the additional data has the length of its mode.
\<close>

theorem image_parse_view_fits:
  "\<exists>rc v. image_parse (Some b) (length b) True = Some (rc, v) \<and>
     (case v of None \<Rightarrow> rc = ERR_ARG \<or> rc = ERR_TOO_SMALL | Some v \<Rightarrow> rc = ERR_OK \<and> view_fits b v)"
  using view_at_fits by (auto simp: parse_eq split: option.splits)

text \<open>The two interfaces on one image.\<close>

definition agree :: "image_check_t \<Rightarrow> int \<Rightarrow> int \<Rightarrow> bool" where
  "agree mode stream oneshot \<longleftrightarrow>
     (if mode = IMAGE_CHECK_CBC then stream = ERR_OK
      else if mode = IMAGE_CHECK_CBC_SHA then (oneshot = ERR_OK \<longrightarrow> stream = ERR_OK) \<and> (stream = ERR_OK \<longrightarrow> oneshot \<noteq> ERR_AUTH_FAILED)
      else stream = oneshot)"

lemma read_agree:
  assumes "mbedtls_streams mb" "length b < 2 ^ 32" "16 \<le> scratch" "16 dvd scratch" "good_key cf" "length b \<le> length out"
    "image_parse (Some b) (length b) True = Some (rc, Some v)"
  shows "\<exists>r1 r2 o' n c. verify_mode mb (buf_read b) scratch cf v = Some r1 \<and>
    image_read_payload mb (Some b) (length b) (Some cf) (Some out) (length out) = Some (r2, o', n, Some v, c) \<and> agree (vw_mode v) r1 r2"
proof -
  note v = parse_view [OF assms(7)] and p = assms(7)
  obtain k where k: "cfg_key cf = Some k" "check_crypto_args cf True = ERR_OK"
    using assms(5) good_key_args by (auto simp: good_key_def)
  have cap: "vw_payload_len v \<le> length out" and s0: "0 < scratch" using v(2) assms(3,6) by simp_all
  obtain o1 n1 where cp: "copy_plain b v (Some out) (length out) = Some (ERR_OK, o1, n1)" using copy_plain_OK [OF v(2) assms(6)] by blast
  show ?thesis
  proof (cases "vw_mode v")
    case IMAGE_CHECK_CRC
    then show ?thesis using p cp verify_crc_eq [OF assms(2) s0 v(2)] mem_read_Some [OF v(2)]
      by (auto simp: verify_mode_def image_read_payload_def agree_def calc_crc_def)
  next
    case IMAGE_CHECK_SHA
    then have a: "vw_aux_len v = 32" using v(4) by (simp add: aux_size_def image_aux_len_def)
    obtain r where "check_sha mb b v = Some r" using check_sha_Some [OF assms(1) v(2,3) a] by blast
    then show ?thesis using IMAGE_CHECK_SHA p cp verify_sha_eq [OF assms(1,2) s0 v(2,3) a]
      by (auto simp: verify_mode_def image_read_payload_def agree_def)
  next
    case IMAGE_CHECK_GCM
    then have a: "vw_aux_len v = 28" using v(4) by (simp add: aux_size_def image_aux_len_def)
    obtain r o2 n2 where "gcm_decrypt mb b v k out (length out) = Some (r, o2, n2)"
      using gcm_decrypt_Some [OF assms(1) v(2,3) a cap order_refl] by blast
    then show ?thesis using IMAGE_CHECK_GCM p k verify_gcm_eq [OF assms(1,2) s0 assms(4) v(2,3) a cap order_refl, of k]
      by (auto simp: verify_mode_def image_read_payload_def agree_def with_crypto_args_def)
  next
    case IMAGE_CHECK_CBC
    then have a: "vw_aux_len v = 16" using v(4) by (simp add: aux_size_def image_aux_len_def)
    obtain r o2 n2 where "cbc_decrypt mb b v k out (length out) = Some (r, o2, n2)"
      using cbc_decrypt_Some [OF assms(1) v(2,3) a cap order_refl] by blast
    then show ?thesis using IMAGE_CHECK_CBC p k
      by (auto simp: verify_mode_def image_read_payload_def agree_def with_crypto_args_def cbc_decrypt_dispatch_def)
  next
    case IMAGE_CHECK_CBC_SHA
    then have a: "vw_aux_len v = 48" using v(4) by (simp add: aux_size_def image_aux_len_def)
    obtain mk where mk: "mac_key_of cf = Some mk" "(case cfg_mac_key cf of Some m \<Rightarrow> m | None \<Rightarrow> k) = mk"
      using k(1) by (cases "cfg_mac_key cf") (auto simp: mac_key_of_def)
    obtain r o2 n2 where "cbc_sha_decrypt mb b v k mk out (length out) = Some (r, o2, n2)"
      "r = ERR_OK \<longrightarrow> hmac_authentic mb mk b v" "hmac_authentic mb mk b v \<longrightarrow> r \<noteq> ERR_AUTH_FAILED"
      using cbc_sha_decrypt_Some [OF assms(1) v(2,3) a cap order_refl, of k mk] by blast
    then show ?thesis using IMAGE_CHECK_CBC_SHA p k mk verify_cbc_sha_eq [OF assms(1,2) s0 v(2,3) a, of mk]
      by (auto simp: verify_mode_def image_read_payload_def agree_def with_crypto_args_def)
  qed
qed


text \<open>A library with transparent streams, on which the checks can be computed.\<close>

definition plain_crypto :: "(u8 list, u8 list, u8 list, unit) mbedtls" where
  "plain_crypto =
     \<lparr>mb_sha256_init = [], mb_sha256_starts_ret = (\<lambda>s. (0, [])), mb_sha256_update_ret = (\<lambda>s b. (0, s @ b)),
      mb_sha256_finish_ret = (\<lambda>s. (0, take 32 (s @ replicate 32 0))),
      mb_md_has_sha256 = True, mb_md_init = [], mb_md_setup = (\<lambda>h. (0, h)), mb_md_hmac_starts = (\<lambda>h k. (0, k)),
      mb_md_hmac_update = (\<lambda>h b. (0, h @ b)), mb_md_hmac_finish = (\<lambda>h. (0, take 32 (h @ replicate 32 0))),
      mb_gcm_init = [], mb_gcm_setkey = (\<lambda>g k n. (0, k)), mb_gcm_starts = (\<lambda>g e iv. (0, g @ iv)),
      mb_gcm_update = (\<lambda>g b. (0, b, g @ b)), mb_gcm_finish = (\<lambda>g n. (0, take n (g @ replicate n 0))),
      mb_aes_init = (), mb_aes_setkey_enc = (\<lambda>a k n. (0, ())), mb_aes_setkey_dec = (\<lambda>a k n. (0, ())),
      mb_aes_crypt_cbc = (\<lambda>a e iv b. (0, b, iv)),
      MBEDTLS_ERR_SHA256_BAD_INPUT_DATA = - 116, MBEDTLS_ERR_MD_BAD_INPUT_DATA = - 20736, MBEDTLS_ERR_GCM_BAD_INPUT = - 20,
      MBEDTLS_ERR_GCM_AUTH_FAILED = - 18, MBEDTLS_ERR_AES_INVALID_INPUT_LENGTH = - 34\<rparr>"

lemma plain_crypto_streams: "mbedtls_streams plain_crypto"
  by (auto simp: mbedtls_streams_def plain_crypto_def byte_stream_def gcm_absorb_def min_def)


text \<open>
  C13. An image of the mode with message code is authenticated before anything is decrypted: the reader reports success, or changes
  the output buffer, only when the message code of initial vector and payload under the given key is the one stored in
  the image.
\<close>

theorem image_auth_before_decrypt:
  assumes "mbedtls_streams mb" "cap \<le> length out"
    "image_read_payload mb (Some b) (length b) (Some cf) (Some out) cap = Some (rc, o', n, Some v, c)"
    "vw_mode v = IMAGE_CHECK_CBC_SHA" "rc = ERR_OK \<or> o' \<noteq> Some out"
  shows "\<exists>k. mac_key_of cf = Some k \<and> hmac_authentic mb k b v"
proof -
  obtain rc0 v0 where p: "image_parse (Some b) (length b) True = Some (rc0, v0)" using parse_Some [of b] by blast
  then have "v0 = Some v" using assms(3)
    by (auto simp: image_read_payload_def split: option.splits image_check_t.splits bind_splits prod.splits if_splits)
  then have v: "image_parse (Some b) (length b) True = Some (rc0, Some v)" using p by simp
  note w = parse_view [OF this]
  have a: "vw_aux_len v = 48" using w(4) assms(4) by (simp add: aux_size_def image_aux_len_def)
  have ok: "check_crypto_args cf True = ERR_OK"
    using assms(3-5) v by (auto simp: image_read_payload_def with_crypto_args_def Let_def split: if_splits)
  then obtain k where k: "cfg_key cf = Some k" by (auto simp: check_crypto_args_def split: option.splits)
  define mk where "mk = (case cfg_mac_key cf of Some m \<Rightarrow> m | None \<Rightarrow> k)"
  have d: "cbc_sha_decrypt mb b v k mk out cap = Some (rc, o', n)"
    using assms(3,4) v ok k by (auto simp: image_read_payload_def with_crypto_args_def mk_def split: bind_splits)
  have "vw_payload_len v \<le> cap"
    using d assms(5) a by (auto simp: cbc_sha_decrypt_def split: if_splits)
  then have "hmac_authentic mb mk b v"
    using cbc_sha_decrypt_Some [OF assms(1) w(2,3) a _ assms(2), of k mk] d assms(5) by auto
  then show ?thesis using k by (auto simp: mac_key_of_def mk_def split: option.splits)
qed

text \<open>One block of padding, encrypted by the transparent library.\<close>

definition sealed_key :: "u8 list" where "sealed_key = [1, 2, 3, 4, 5, 6, 7, 8, 9, 10, 11, 12, 13, 14, 15, 16]"
definition sealed_image :: "u8 list" where
  "sealed_image = replicate 16 16 @ replicate 16 5 @ sealed_key @ replicate 16 5 @ [0, 0, 0, 0] @ [0xA5, 4, 0, 0]"

theorem image_auth_before_decrypt_witness:
  "\<exists>v. vw_mode v = IMAGE_CHECK_CBC_SHA \<and>
     image_read_payload plain_crypto (Some sealed_image) (length sealed_image) (Some \<lparr>cfg_key = Some sealed_key, cfg_mac_key = None\<rparr>)
       (Some (replicate 16 0)) 16 = Some (ERR_OK, Some (replicate 16 16), Some 0, Some v, None) \<and>
     (\<exists>k. mac_key_of \<lparr>cfg_key = Some sealed_key, cfg_mac_key = None\<rparr> = Some k \<and> hmac_authentic plain_crypto k sealed_image v)"
proof -
  let ?v = "\<lparr>vw_mode = IMAGE_CHECK_CBC_SHA, vw_is_front = False, vw_payload = 0, vw_payload_len = 16, vw_aux = 16, vw_aux_len = 48,
    vw_version = 64, vw_version_len = 0, vw_tag = 64, vw_tag_len = 0, vw_crc_stored = 0\<rparr>"
  have "image_parse (Some sealed_image) (length sealed_image) True = Some (ERR_OK, Some ?v)"
    unfolding parse_eq by code_simp
  moreover have "cbc_sha_decrypt plain_crypto sealed_image ?v sealed_key sealed_key (replicate 16 0) 16 =
      Some (ERR_OK, Some (replicate 16 16), Some 0)"
    by code_simp
  moreover have "check_crypto_args \<lparr>cfg_key = Some sealed_key, cfg_mac_key = None\<rparr> True = ERR_OK"
    by code_simp
  ultimately have "image_read_payload plain_crypto (Some sealed_image) (length sealed_image)
      (Some \<lparr>cfg_key = Some sealed_key, cfg_mac_key = None\<rparr>) (Some (replicate 16 0)) 16 =
      Some (ERR_OK, Some (replicate 16 16), Some 0, Some ?v, None)"
    by (simp add: image_read_payload_def with_crypto_args_def)
  then show ?thesis using image_auth_before_decrypt [OF plain_crypto_streams, of 16 "replicate 16 0" sealed_image _ ERR_OK _ _ ?v]
    by fastforce
qed

end
