(* ===== verification/Py_Crc.thy ===== *)
theory Py_Crc
  imports Crc
begin

text \<open>
  \<^verbatim>\<open>lib/mini-ota/tools/m_crc/image_crc.py\<close>: the CRC of the host tools that pack update images, over unbounded integers and
  with a cache of tables. It computes the checksum of the device code for every model of 1 to 32 bits. A negative shift
  count, which raises an exception, is \<open>None\<close>.
\<close>

fun py_reflect_loop :: "nat \<Rightarrow> int \<Rightarrow> int \<Rightarrow> int" where
  "py_reflect_loop 0 result x = result"
| "py_reflect_loop (Suc n) result x = py_reflect_loop n (push_bit 1 result OR (x AND 1)) (drop_bit 1 x)"

definition py_reflect :: "int \<Rightarrow> nat \<Rightarrow> int" where
  "py_reflect x width = py_reflect_loop width 0 x"

definition py_mask :: "nat \<Rightarrow> int" where
  "py_mask width = push_bit width 1 - 1"

text \<open>The bodies of the inner loops.\<close>

definition py_shr :: "int \<Rightarrow> int \<Rightarrow> int" where
  "py_shr poly reg = (if reg AND 1 \<noteq> 0 then drop_bit 1 reg XOR poly else drop_bit 1 reg)"

definition py_shl :: "int \<Rightarrow> int \<Rightarrow> int \<Rightarrow> int" where
  "py_shl top_bit poly reg = (if reg AND top_bit \<noteq> 0 then push_bit 1 reg XOR poly else push_bit 1 reg)"

type_synonym table_cache = "int \<times> nat \<times> bool \<Rightarrow> int list option"

definition py_table :: "int \<Rightarrow> nat \<Rightarrow> bool \<Rightarrow> int list" where
  "py_table poly width refin =
     (if refin then map (\<lambda>i. (py_shr (py_reflect poly width) ^^ 8) (int i) AND py_mask width) [0..<256]
      else map (\<lambda>i. ((\<lambda>reg. py_shl (push_bit (width - 1) 1) poly reg AND py_mask width) ^^ 8)
                     (push_bit (width - 8) (int i) AND py_mask width)) [0..<256])"

definition build_table :: "table_cache \<Rightarrow> int \<Rightarrow> nat \<Rightarrow> bool \<Rightarrow> int list \<times> table_cache" where
  "build_table cache poly width refin =
     (case cache (poly, width, refin) of
        Some table \<Rightarrow> (table, cache)
      | None \<Rightarrow> let table = py_table poly width refin in (table, cache((poly, width, refin) \<mapsto> table)))"

definition py_byte_refin_table :: "int list \<Rightarrow> nat \<Rightarrow> int \<Rightarrow> u8 \<Rightarrow> int" where
  "py_byte_refin_table table width reg byte =
     (drop_bit 8 reg XOR table ! nat ((reg XOR uint byte) AND 0xFF)) AND py_mask width"

definition py_byte_norm_table :: "int list \<Rightarrow> nat \<Rightarrow> int \<Rightarrow> u8 \<Rightarrow> int" where
  "py_byte_norm_table table width reg byte =
     ((push_bit 8 reg AND py_mask width) XOR table ! nat ((drop_bit (width - 8) reg XOR uint byte) AND 0xFF)) AND py_mask width"

definition py_byte_refin :: "int \<Rightarrow> nat \<Rightarrow> int \<Rightarrow> u8 \<Rightarrow> int" where
  "py_byte_refin poly width reg byte =
     fold (\<lambda>i r. py_shr poly (r XOR (drop_bit i (uint byte) AND 1)) AND py_mask width) [0..<8] reg"

definition py_byte_norm :: "int \<Rightarrow> nat \<Rightarrow> int \<Rightarrow> u8 \<Rightarrow> int" where
  "py_byte_norm poly width reg byte =
     fold (\<lambda>i r. py_shl (push_bit (width - 1) 1) poly (r XOR push_bit (width - 1) (drop_bit i (uint byte) AND 1)) AND py_mask width)
       (rev [0..<8]) reg"

definition crc_generic :: "table_cache \<Rightarrow> u8 list \<Rightarrow> int \<Rightarrow> bool \<Rightarrow> bool \<Rightarrow> int \<Rightarrow> int \<Rightarrow> nat \<Rightarrow> (int \<times> table_cache) option" where
  "crc_generic cache data init refin refout xor_out poly width =
     do {
       (reg, cache) \<leftarrow>
         (if refin then
            let reg = py_reflect init width AND py_mask width in
            if 8 \<le> width then
              let (table, cache) = build_table cache poly width refin in
              Some (foldl (py_byte_refin_table table width) reg data, cache)
            else Some (foldl (py_byte_refin (py_reflect poly width) width) reg data, cache)
          else
            let reg = init AND py_mask width in
            if 8 \<le> width then
              let (table, cache) = build_table cache poly width refin in
              Some (foldl (py_byte_norm_table table width) reg data, cache)
            else if width = 0 then None
            else Some (foldl (py_byte_norm poly width) reg data, cache));
       let reg = (if refin \<noteq> refout then py_reflect reg width else reg);
       Some ((reg XOR xor_out) AND py_mask width, cache)
     }"

subsection \<open>Integers and words\<close>

lemma py_mask_eq: "py_mask n = mask n"
  by (simp add: py_mask_def mask_eq_exp_minus_1 push_bit_of_1)

lemma bit_push_1: "bit (push_bit 1 r) k \<longleftrightarrow> 0 < k \<and> bit r (k - 1)" for r :: int
  unfolding bit_push_bit_iff by auto

lemma bit_py_reflect_loop:
  "bit (py_reflect_loop n r x) i \<longleftrightarrow> (if i < n then bit x (n - 1 - i) else bit r (i - n))"
proof (induction n arbitrary: r x i)
  case (Suc n)
  have b: "bit (x AND 1) k \<longleftrightarrow> k = 0 \<and> bit x 0" for k by (cases k) (auto simp: bit_simps)
  show ?case
  proof (cases "i < n")
    case True
    then show ?thesis using Suc by (simp add: bit_simps Suc_diff_Suc)
  next
    case False
    have k: "bit (push_bit 1 r OR (x AND 1)) k \<longleftrightarrow> (if k = 0 then bit x 0 else bit r (k - 1))" for k by (auto simp only: bit_or_iff bit_push_1 b split: if_split)
    have "bit (py_reflect_loop (Suc n) r x) i \<longleftrightarrow> (if i - n = 0 then bit x 0 else bit r (i - n - 1))"
      unfolding py_reflect_loop.simps Suc using False k by (simp only: if_False)
    then show ?thesis using False by (cases "i = n") simp_all
  qed
qed simp

lemma bit_py_reflect: "bit (py_reflect x n) i \<longleftrightarrow> i < n \<and> bit x (n - 1 - i)"
  by (simp add: py_reflect_def bit_py_reflect_loop)

lemma uint_mask:
  assumes "unat w \<le> 32"
  shows "x AND py_mask (unat w) = uint (word_of_int x AND crc_mask w)"
  using assms by (intro bit_eqI) (auto simp: bit_simps py_mask_eq bit_crc_mask)

lemma bit_reflect_word: "bit (reflect v w) i \<longleftrightarrow> i < 32 \<and> i < unat w \<and> bit v (unat w - 1 - i)"
  using bit_reflect [of i v w] bit_imp_le_length [of "reflect v w" i] by auto

lemma uint_reflect:
  assumes "unat w \<le> 32"
  shows "py_reflect x (unat w) = uint (reflect (word_of_int x) w)"
  using assms by (intro bit_eqI) (auto simp: bit_py_reflect bit_simps bit_reflect_word)

lemma uint_shr: "py_shr (uint p) (uint r) = uint (if r AND 1 \<noteq> 0 then drop_bit 1 r XOR p else drop_bit 1 r)"
proof -
  have "uint r AND 1 = 0 \<longleftrightarrow> r AND 1 = 0" by (metis uint_0_iff uint_and uint_1_eq)
  then show ?thesis unfolding py_shr_def by (intro bit_eqI) (auto simp: bit_simps)
qed

lemma uint_shl:
  assumes "unat w \<le> 32" "0 < unat w"
  shows "py_shl (push_bit (unat w - 1) 1) x (uint r) AND py_mask (unat w) =
    uint (crc_shift_left (push_bit (unat w - 1) 1) (word_of_int x AND crc_mask w) (crc_mask w) r)"
proof (rule bit_eqI)
  fix i
  have t: "uint r AND push_bit (unat w - 1) 1 \<noteq> 0 \<longleftrightarrow> bit r (unat w - 1)"
    unfolding bit_iff_and_push_bit_not_eq_0 [of "uint r", symmetric] using assms by (auto simp: bit_uint_iff)
  have "bit (uint r) (i - 1) \<longleftrightarrow> bit r (i - 1)" if "i < 32" using that by (auto simp: bit_uint_iff)
  then have l: "bit (py_shl (push_bit (unat w - 1) 1) x (uint r)) i \<longleftrightarrow> (0 < i \<and> bit r (i - 1)) \<noteq> (bit r (unat w - 1) \<and> bit x i)" if "i < 32"
    using that unfolding py_shl_def t by (auto simp only: bit_xor_iff bit_push_1 split: if_split)
  show "bit (py_shl (push_bit (unat w - 1) 1) x (uint r) AND py_mask (unat w)) i =
      bit (uint (crc_shift_left (push_bit (unat w - 1) 1) (word_of_int x AND crc_mask w) (crc_mask w) r)) i"
  proof (cases "i < unat w")
    case True
    have "bit (crc_shift_left (push_bit (unat w - 1) 1) (word_of_int x AND crc_mask w) (crc_mask w) r) i \<longleftrightarrow>
        bit (crc_mask w) i \<and> ((0 < i \<and> bit r (i - 1)) \<noteq> (bit r (unat w - 1) \<and> bit (word_of_int x AND crc_mask w) i))"
      using True assms(1) by (intro bit_shift_left) simp
    then show ?thesis using True assms(1) l
      by (simp add: bit_and_iff bit_uint_iff py_mask_eq bit_mask_iff bit_crc_mask bit_word_of_int_iff del: push_bit_of_1)
  next
    case False
    then show ?thesis using shift_left_within [of "push_bit (unat w - 1) 1" "word_of_int x AND crc_mask w" w r]
      by (auto simp: bit_and_iff bit_uint_iff py_mask_eq bit_mask_iff within_def)
  qed
qed

subsection \<open>One byte\<close>

lemma uint_mask_word: "unat w \<le> 32 \<Longrightarrow> uint x AND py_mask (unat w) = uint (x AND crc_mask w)"
  using uint_mask [of w "uint x"] by simp

lemma uint_shr_iter: "(py_shr (uint p) ^^ n) (uint r) = uint (((\<lambda>r. if r AND 1 \<noteq> 0 then drop_bit 1 r XOR p else drop_bit 1 r) ^^ n) r)"
  by (induction n) (simp_all only: funpow.simps o_apply id_apply uint_shr)

lemma uint_shl_iter:
  assumes "unat w \<le> 32" "0 < unat w"
  shows "((\<lambda>reg. py_shl (push_bit (unat w - 1) 1) x reg AND py_mask (unat w)) ^^ n) (uint r) =
    uint ((crc_shift_left (push_bit (unat w - 1) 1) (word_of_int x AND crc_mask w) (crc_mask w) ^^ n) r)"
  by (induction n) (simp_all only: funpow.simps o_apply id_apply uint_shl [OF assms])

text \<open>The polynomial of the device code for that of the tools.\<close>

definition dev_poly :: "int \<Rightarrow> u8 \<Rightarrow> bool \<Rightarrow> u32" where
  "dev_poly poly w refin = (if refin then reflect (word_of_int poly) w else word_of_int poly) AND crc_mask w"

lemma dev_poly_reflect: "dev_poly poly w True = reflect (word_of_int poly) w"
  unfolding dev_poly_def by (rule bit_word_eqI) (auto simp: bit_and_iff bit_crc_mask bit_reflect_word)

lemma table_entry_eq:
  assumes "8 \<le> w" "w \<le> 32" "unat i < 256"
  shows "py_table poly (unat w) refin ! unat i = uint (crc_table_entry (dev_poly poly w refin) w refin i)"
proof -
  have w: "unat w \<le> 32" "0 < unat w" "8 \<le> unat w" "w \<noteq> 0" using unat_ge8 [OF assms(1)] unat_le32 [OF assms(2)] assms(1) by auto
  have i: "map f [0..<256] ! unat i = f (unat i)" for f :: "nat \<Rightarrow> int" using assms(3) nth_map_upt [of "unat i" 256 0 f] by (simp only: add_0 diff_zero)
  have ui: "int (unat i) = uint i" by (simp only: uint_nat)
  show ?thesis
  proof (cases refin)
    case True
    have "py_table poly (unat w) True ! unat i = (py_shr (py_reflect poly (unat w)) ^^ 8) (uint i) AND py_mask (unat w)"
      by (simp only: py_table_def i ui if_True if_False)
    then show ?thesis using True
      by (simp only: uint_reflect [OF w(1)] uint_shr_iter uint_mask_word [OF w(1)] crc_table_entry_def Let_def dev_poly_reflect if_True)
  next
    case False
    have "push_bit (unat w - 8) (uint i) AND py_mask (unat w) = uint (push_bit (unat w - 8) i)"
    proof (rule bit_eqI)
      fix n
      have "take_bit 8 (unat i) = unat i" using assms(3) by (simp add: take_bit_nat_eq_self_iff)
      then have "bit (unat i) k \<Longrightarrow> k < 8" for k by (metis bit_take_bit_iff)
      then have k8: "bit i k \<Longrightarrow> k < 8" for k by (metis bit_unsigned_iff possible_bit_nat bit_imp_le_length possible_bit_def)
      show "bit (push_bit (unat w - 8) (uint i) AND py_mask (unat w)) n = bit (uint (push_bit (unat w - 8) i)) n"
        using w k8 [of "n + 8 - unat w"] by (auto simp: bit_and_iff bit_push_bit_iff bit_uint_iff py_mask_eq bit_mask_iff)
    qed
    moreover have "py_table poly (unat w) False ! unat i =
        ((\<lambda>reg. py_shl (push_bit (unat w - 1) 1) poly reg AND py_mask (unat w)) ^^ 8) (push_bit (unat w - 8) (uint i) AND py_mask (unat w))"
      by (simp only: py_table_def i ui if_True if_False)
    ultimately show ?thesis using False
      by (simp only: uint_shl_iter [OF w(1,2)] table_entry_left [OF w(4)] dev_poly_def if_False)
  qed
qed

lemma uint_xor: "uint (a XOR b) = uint a XOR uint b"
  by (rule bit_eqI) (auto simp: bit_simps)

lemma uint_byte: "uint (ucast (b :: u8) :: u32) = uint b"
  by (rule bit_eqI) (auto simp: bit_simps dest: bit_u8_less)

lemma uint_drop: "uint (drop_bit n x) = drop_bit n (uint x)" for x :: u32
  by (rule bit_eqI) (auto simp: bit_simps dest: bit_imp_le_length)

lemma byte_refin_table_eq:
  assumes "8 \<le> w" "w \<le> 32" "within reg w"
  shows "py_byte_refin_table (py_table poly (unat w) True) (unat w) (uint reg) b = uint (crc_byte True (dev_poly poly w True) w reg b)"
proof -
  let ?p = "dev_poly poly w True" and ?i = "(reg XOR ucast b) AND 0xFF"
  have w: "unat w \<le> 32" using unat_le32 [OF assms(2)] .
  have p: "within ?p w" by (simp add: dev_poly_def within_and_mask)
  have "uint ?i = (uint reg XOR uint b) AND 0xFF" by (simp add: uint_and uint_xor uint_byte)
  then have i: "nat ((uint reg XOR uint b) AND 0xFF) = unat ?i" by (simp only: unat_eq_nat_uint)
  have c: "crc_byte True ?p w reg b = drop_bit 8 reg XOR crc_table_entry ?p w True ?i"
    using byte_refin_table [OF assms(1,2) p assms(3)] by (simp add: crc_byte_def)
  have "py_byte_refin_table (py_table poly (unat w) True) (unat w) (uint reg) b =
      uint (drop_bit 8 reg XOR crc_table_entry ?p w True ?i) AND py_mask (unat w)"
    unfolding py_byte_refin_table_def i table_entry_eq [OF assms(1,2) unat_and_FF] by (simp only: uint_xor uint_drop)
  also have "\<dots> = uint (crc_byte True ?p w reg b)"
    unfolding c [symmetric] uint_mask_word [OF w] within_mask_id [OF crc_byte_within] ..
  finally show ?thesis .
qed

lemma byte_norm_table_eq:
  assumes "8 \<le> w" "w \<le> 32" "within reg w"
  shows "py_byte_norm_table (py_table poly (unat w) False) (unat w) (uint reg) b = uint (crc_byte False (dev_poly poly w False) w reg b)"
proof -
  let ?p = "dev_poly poly w False"
  define i where "i = (ucast (ucast (drop_bit (unat w - 8) reg XOR ucast b) :: u8) :: u32)"
  have w: "unat w \<le> 32" using unat_le32 [OF assms(2)] .
  have i: "i = (drop_bit (unat w - 8) reg XOR ucast b) AND 0xFF"
  proof -
    have ff: "(0xFF :: u32) = mask 8" by (simp add: mask_eq_exp_minus_1)
    show ?thesis unfolding i_def ff
      by (rule bit_word_eqI) (auto simp: bit_and_iff bit_xor_iff bit_mask_iff bit_ucast_iff bit_drop_bit_eq possible_bit_word)
  qed
  have "uint i = (drop_bit (unat w - 8) (uint reg) XOR uint b) AND 0xFF" unfolding i by (simp add: uint_and uint_xor uint_byte uint_drop)
  then have n: "nat ((drop_bit (unat w - 8) (uint reg) XOR uint b) AND 0xFF) = unat i" by (simp only: unat_eq_nat_uint)
  have c: "crc_byte False ?p w reg b = (push_bit 8 reg AND crc_mask w) XOR crc_table_entry ?p w False i"
    using byte_norm_table [OF assms, of ?p b] by (simp add: crc_byte_def i_def)
  have m: "push_bit 8 (uint reg) AND py_mask (unat w) = uint (push_bit 8 reg AND crc_mask w)"
    using w by (intro bit_eqI) (auto simp: bit_simps py_mask_eq bit_crc_mask)
  have "unat i < 256" unfolding i by (rule unat_and_FF)
  then have "py_byte_norm_table (py_table poly (unat w) False) (unat w) (uint reg) b =
      uint ((push_bit 8 reg AND crc_mask w) XOR crc_table_entry ?p w False i) AND py_mask (unat w)"
    unfolding py_byte_norm_table_def n m by (simp only: table_entry_eq [OF assms(1,2)] uint_xor)
  also have "\<dots> = uint (crc_byte False ?p w reg b)"
    unfolding c [symmetric] uint_mask_word [OF w] within_mask_id [OF crc_byte_within] ..
  finally show ?thesis .
qed

lemma fold_uint:
  assumes "\<And>i r. g i (uint r) = uint (f i r)"
  shows "fold g is (uint (r :: u32)) = uint (fold f is r)"
  by (induction "is" arbitrary: r) (simp_all add: assms)

lemma uint_bit: "drop_bit i (uint b) AND 1 = uint (ucast (drop_bit i b) AND 1 :: u32)" for b :: u8
  by (rule bit_eqI) (auto simp: bit_simps bit_1_iff)

lemma byte_refin_eq:
  assumes "\<not> 8 \<le> w"
  shows "py_byte_refin (py_reflect poly (unat w)) (unat w) (uint reg) b = uint (crc_byte True (dev_poly poly w True) w reg b)"
proof -
  have w: "unat w \<le> 32" using assms by (simp add: word_le_nat_alt)
  have "py_shr (uint p) (uint r) AND py_mask (unat w) = uint (crc_shift_right p (crc_mask w) r)" for p r
    by (simp only: uint_shr uint_mask_word [OF w] crc_shift_right_def)
  then show ?thesis using assms
    by (simp only: py_byte_refin_def uint_reflect [OF w] crc_byte_def crc_byte_refin_def if_True if_False dev_poly_reflect)
      (rule fold_uint, simp only: uint_bit uint_xor [symmetric])
qed

lemma byte_norm_eq:
  assumes "\<not> 8 \<le> w" "w \<noteq> 0"
  shows "py_byte_norm poly (unat w) (uint reg) b = uint (crc_byte False (dev_poly poly w False) w reg b)"
proof -
  have w: "unat w \<le> 32" "0 < unat w" using assms by (simp_all add: word_le_nat_alt unat_gt_0)
  have "push_bit (unat w - 1) (uint x) = uint (push_bit (unat w - 1) x)" if "x = ucast (drop_bit i b) AND 1" for x :: u32 and i
    using that w by (intro bit_eqI) (auto simp: bit_simps bit_1_iff)
  then show ?thesis using assms
    by (simp only: py_byte_norm_def crc_byte_def crc_byte_norm_def Let_def if_False dev_poly_def)
      (rule fold_uint, simp only: uint_bit uint_xor [symmetric] uint_shl [OF w])
qed

subsection \<open>Messages\<close>

definition table_cache_ok :: "table_cache \<Rightarrow> bool" where
  "table_cache_ok cache \<longleftrightarrow> (\<forall>poly w refin table. cache (poly, w, refin) = Some table \<longrightarrow> table = py_table poly w refin)"

lemma build_table_ok:
  assumes "table_cache_ok cache"
  shows "\<exists>c. build_table cache poly w refin = (py_table poly w refin, c) \<and> table_cache_ok c"
  using assms by (auto simp: build_table_def table_cache_ok_def Let_def split: option.splits)

lemma foldl_engine:
  assumes "\<And>reg b. within reg w \<Longrightarrow> g (uint reg) b = uint (crc_byte refin poly w reg b)"
  shows "within reg w \<Longrightarrow> foldl g (uint reg) data = uint (crc_bitwise_engine data reg refin poly w (crc_mask w))"
  by (induction data arbitrary: reg) (simp_all add: engine_Nil engine_Cons assms crc_byte_within)

lemma register_eq:
  assumes "table_cache_ok cache" "w \<noteq> 0" "w \<le> 32" "within reg w"
  shows "\<exists>c. table_cache_ok c \<and>
    (if 8 \<le> unat w then
       let (table, cache) = build_table cache poly (unat w) refin in
       (foldl (if refin then py_byte_refin_table table (unat w) else py_byte_norm_table table (unat w)) (uint reg) data, cache)
     else (foldl (if refin then py_byte_refin (py_reflect poly (unat w)) (unat w) else py_byte_norm poly (unat w)) (uint reg) data, cache)) =
    (uint (crc_bitwise_engine data reg refin (dev_poly poly w refin) w (crc_mask w)), c)"
proof (cases "8 \<le> w")
  case True
  then have "8 \<le> unat w" by (rule unat_ge8)
  moreover obtain c where "build_table cache poly (unat w) refin = (py_table poly (unat w) refin, c)" "table_cache_ok c"
    using build_table_ok [OF assms(1)] by blast
  moreover have "foldl (if refin then py_byte_refin_table (py_table poly (unat w) refin) (unat w) else py_byte_norm_table (py_table poly (unat w) refin) (unat w))
      (uint reg) data = uint (crc_bitwise_engine data reg refin (dev_poly poly w refin) w (crc_mask w))"
    using True assms(3,4) byte_refin_table_eq byte_norm_table_eq by (intro foldl_engine) (auto split: if_split)
  ultimately show ?thesis by auto
next
  case False
  then have "\<not> 8 \<le> unat w" by (simp add: word_le_nat_alt)
  moreover have "foldl (if refin then py_byte_refin (py_reflect poly (unat w)) (unat w) else py_byte_norm poly (unat w)) (uint reg) data =
      uint (crc_bitwise_engine data reg refin (dev_poly poly w refin) w (crc_mask w))"
    using False assms(2,4) byte_refin_eq byte_norm_eq by (intro foldl_engine) (auto split: if_split)
  ultimately show ?thesis using assms(1) by auto
qed

lemma finish_eq:
  assumes "unat w \<le> 32"
  shows "((if refin \<noteq> refout then py_reflect (uint reg) (unat w) else uint reg) XOR xo) AND py_mask (unat w) =
    uint (crc_finalize reg w refin refout (word_of_int xo) (crc_mask w))"
proof -
  have "(uint x XOR xo) AND py_mask (unat w) = uint ((x XOR word_of_int xo) AND crc_mask w)" for x :: u32
    using assms by (intro bit_eqI) (auto simp: bit_simps py_mask_eq bit_crc_mask)
  moreover have "py_reflect (uint reg) (unat w) = uint (reflect reg w)" using uint_reflect [OF assms, of "uint reg"] by simp
  ultimately show ?thesis by (simp add: crc_finalize_def)
qed

lemma py_crc_eq:
  assumes "table_cache_ok cache" "w \<noteq> 0" "w \<le> 32"
  shows "\<exists>c. table_cache_ok c \<and> crc_generic cache data init refin refout xor_out poly (unat w) =
    Some (uint (crc_stream_finish (crc_stream_feed_bitwise
      (crc_stream_start (Some s0) (word_of_int init) refin refout (word_of_int xor_out) (word_of_int poly) w) data)), c)"
proof -
  have w: "unat w \<le> 32" "unat w \<noteq> 0" using unat_le32 [OF assms(3)] assms(2) by (simp_all add: unat_eq_0)
  define reg where "reg = (if refin then reflect (word_of_int init) w else word_of_int init) AND crc_mask w"
  have "within reg w" by (simp add: reg_def within_and_mask)
  from register_eq [OF assms this, of poly refin data] obtain c where c: "table_cache_ok c"
    "(if 8 \<le> unat w then
       let (table, cache) = build_table cache poly (unat w) refin in
       (foldl (if refin then py_byte_refin_table table (unat w) else py_byte_norm_table table (unat w)) (uint reg) data, cache)
     else (foldl (if refin then py_byte_refin (py_reflect poly (unat w)) (unat w) else py_byte_norm poly (unat w)) (uint reg) data, cache)) =
    (uint (crc_bitwise_engine data reg refin (dev_poly poly w refin) w (crc_mask w)), c)" by blast
  have r: "(if refin then py_reflect init (unat w) else init) AND py_mask (unat w) = uint reg"
    using uint_mask_word [OF w(1)] by (simp add: reg_def uint_reflect [OF w(1)] uint_mask [OF w(1)])
  have "crc_stream_finish (crc_stream_feed_bitwise
      (crc_stream_start (Some s0) (word_of_int init) refin refout (word_of_int xor_out) (word_of_int poly) w) data) =
    crc_finalize (crc_bitwise_engine data reg refin (dev_poly poly w refin) w (crc_mask w)) w refin refout (word_of_int xor_out) (crc_mask w)"
    using assms(2,3) by (auto simp: crc_stream_start_def crc_stream_feed_bitwise_def crc_stream_finish_def Let_def reg_def dev_poly_def)
  then show ?thesis
    using c r w(2) finish_eq [OF w(1), of refin refout _ xor_out]
    by (cases refin) (auto simp: crc_generic_def Let_def split: if_splits prod.splits)
qed

text \<open>
  C15. The checksum of the host tools is the checksum of the device: for every model of 1 to 32 bits, any initial value,
  polynomial and final mask (integers that the device takes modulo 2 to the 32), and any message, the tool returns
  without an exception the value that the device's stream gives, and leaves its cache of tables correct.
\<close>

theorem py_crc_agrees:
  assumes "table_cache_ok cache" "w \<noteq> 0" "w \<le> 32"
  shows "\<exists>c. table_cache_ok c \<and> crc_generic cache data init refin refout xor_out poly (unat w) =
    Some (uint (crc_stream_finish (crc_stream_feed_bitwise
      (crc_stream_start (Some s0) (word_of_int init) refin refout (word_of_int xor_out) (word_of_int poly) w) data)), c)"
  using assms by (rule py_crc_eq)

theorem py_crc_agrees_witness:
  "\<exists>c. table_cache_ok c \<and> crc_generic (\<lambda>k. None) [0x31, 0x32, 0x33] 0xFFFFFFFF True True 0xFFFFFFFF 0x04C11DB7 32 =
    Some (uint (crc_stream_finish (crc_stream_feed_bitwise
      (crc_stream_start (Some \<lparr>cs_reg = 0, cs_poly = 0, cs_xor_out = 0, cs_width = 0, cs_refin = False, cs_refout = False\<rparr>)
        0xFFFFFFFF True True 0xFFFFFFFF 0x04C11DB7 32) [0x31, 0x32, 0x33])), c)"
  using py_crc_agrees [of "\<lambda>k. None" 32 "[0x31, 0x32, 0x33]" "0xFFFFFFFF" True True "0xFFFFFFFF" "0x04C11DB7"
      "\<lparr>cs_reg = 0, cs_poly = 0, cs_xor_out = 0, cs_width = 0, cs_refin = False, cs_refout = False\<rparr>"]
  by (simp add: table_cache_ok_def)

end
