(* ===== verification/Ota_Pack.thy ===== *)
theory Ota_Pack
  imports Ota_Image Py_Crc
begin

text \<open>
  \<^verbatim>\<open>lib/mini-ota/tools/main.py\<close>, \<^verbatim>\<open>check_bin_file.py\<close>, \<^verbatim>\<open>m_dsig/image_aes.py\<close> and \<^verbatim>\<open>image_sha.py\<close>: the host tool that packs a
  firmware into an update image, and the image reader of the tool that compares images. The ciphers and digests come
  from Python packages outside the sources and are the fields of \<open>pycrypto\<close>; an exception is \<open>None\<close>. Reading and
  writing the files is not modelled: the functions take and return their contents.
\<close>

record pycrypto =
  pc_sha256 :: "u8 list \<Rightarrow> u8 list"
  pc_hmac_sha256 :: "u8 list \<Rightarrow> u8 list \<Rightarrow> u8 list"
  pc_pkcs7_pad :: "u8 list \<Rightarrow> u8 list"
  pc_pkcs7_unpad :: "u8 list \<Rightarrow> u8 list option"
  pc_cbc_encrypt :: "u8 list \<Rightarrow> u8 list \<Rightarrow> u8 list \<Rightarrow> u8 list option"
  pc_cbc_decrypt :: "u8 list \<Rightarrow> u8 list \<Rightarrow> u8 list \<Rightarrow> u8 list option"
  pc_gcm_encrypt :: "u8 list \<Rightarrow> u8 list \<Rightarrow> u8 list \<Rightarrow> (u8 list \<times> u8 list) option"
  pc_gcm_decrypt :: "u8 list \<Rightarrow> u8 list \<Rightarrow> u8 list \<Rightarrow> u8 list \<Rightarrow> u8 list option"

subsection \<open>Ciphers\<close>

definition sha256 :: "pycrypto \<Rightarrow> u8 list \<Rightarrow> u8 list" where
  "sha256 pc data = pc_sha256 pc data"

text \<open>\<open>iv\<close> and \<open>nonce\<close> are what \<open>os.urandom\<close> returns.\<close>

definition aes_cbc_encrypt :: "pycrypto \<Rightarrow> u8 list \<Rightarrow> u8 list \<Rightarrow> u8 list \<Rightarrow> (u8 list \<times> u8 list) option" where
  "aes_cbc_encrypt pc iv data key =
     do { ciphertext \<leftarrow> pc_cbc_encrypt pc key iv (pc_pkcs7_pad pc data); Some (ciphertext, iv) }"

definition aes_cbc_decrypt :: "pycrypto \<Rightarrow> u8 list \<Rightarrow> u8 list \<Rightarrow> u8 list \<Rightarrow> u8 list option" where
  "aes_cbc_decrypt pc ciphertext key iv =
     do { padded_data \<leftarrow> pc_cbc_decrypt pc key iv ciphertext; pc_pkcs7_unpad pc padded_data }"

definition ase_gcm_encrypt :: "pycrypto \<Rightarrow> u8 list \<Rightarrow> u8 list \<Rightarrow> u8 list \<Rightarrow> (u8 list \<times> u8 list \<times> u8 list) option" where
  "ase_gcm_encrypt pc nonce plain_data key =
     do { (ciphertext, tag) \<leftarrow> pc_gcm_encrypt pc key nonce plain_data; Some (ciphertext, nonce, tag) }"

definition ase_gcm_decrypt :: "pycrypto \<Rightarrow> u8 list \<Rightarrow> u8 list \<Rightarrow> u8 list \<Rightarrow> u8 list \<Rightarrow> u8 list option" where
  "ase_gcm_decrypt pc ciphertext key nonce tag = pc_gcm_decrypt pc key nonce tag ciphertext"

subsection \<open>Packing\<close>

definition make_hmac_tag :: "pycrypto \<Rightarrow> u8 list \<Rightarrow> u8 list \<Rightarrow> u8 list" where
  "make_hmac_tag pc key ciphertext = pc_hmac_sha256 pc key ciphertext"

definition mode_code :: "image_check_t \<Rightarrow> u8" where
  "mode_code mode = (case mode of IMAGE_CHECK_CRC \<Rightarrow> 0 | IMAGE_CHECK_SHA \<Rightarrow> 1 | IMAGE_CHECK_GCM \<Rightarrow> 2 | IMAGE_CHECK_CBC \<Rightarrow> 3 | IMAGE_CHECK_CBC_SHA \<Rightarrow> 4)"

text \<open>\<open>crc_value.to_bytes(4, "little")\<close>, which raises when the value does not fit.\<close>

definition to_bytes4 :: "int \<Rightarrow> u8 list option" where
  "to_bytes4 x = (if 0 \<le> x \<and> x < 2 ^ 32 then Some (le32 (word_of_int x)) else None)"

text \<open>The payload and the additional data of a mode.\<close>

definition pack_payload :: "pycrypto \<Rightarrow> u8 list \<Rightarrow> u8 list \<Rightarrow> image_check_t \<Rightarrow> u8 list \<Rightarrow> u8 list \<Rightarrow> (u8 list \<times> u8 list) option" where
  "pack_payload pc rnd fw cripted key mac_key =
     (case cripted of
        IMAGE_CHECK_GCM \<Rightarrow> do { (payload, nonce, gcm_tag) \<leftarrow> ase_gcm_encrypt pc rnd fw key; Some (payload, nonce @ gcm_tag) }
      | IMAGE_CHECK_CBC \<Rightarrow> aes_cbc_encrypt pc rnd fw key
      | IMAGE_CHECK_CBC_SHA \<Rightarrow> do {
          (payload, iv) \<leftarrow> aes_cbc_encrypt pc rnd fw key;
          Some (payload, iv @ make_hmac_tag pc mac_key (iv @ payload))
        }
      | IMAGE_CHECK_SHA \<Rightarrow> Some (fw, sha256 pc fw)
      | IMAGE_CHECK_CRC \<Rightarrow> Some (fw, []))"

record crc_args =
  crc_init :: int
  crc_refin :: bool
  crc_refout :: bool
  crc_xor_out :: int
  crc_poly :: int

definition crc_defaults :: crc_args where
  "crc_defaults = \<lparr>crc_init = 0xFFFFFFFF, crc_refin = True, crc_refout = True, crc_xor_out = 0xFFFFFFFF, crc_poly = 0x04C11DB7\<rparr>"

definition make_image ::
    "pycrypto \<Rightarrow> table_cache \<Rightarrow> u8 list \<Rightarrow> u8 list \<Rightarrow> u8 list \<Rightarrow> u8 list \<Rightarrow> bool \<Rightarrow> image_check_t \<Rightarrow> u8 list \<Rightarrow> u8 list \<Rightarrow> crc_args \<Rightarrow>
     (u8 list \<times> table_cache) option" where
  "make_image pc cache rnd fw version tag is_front cripted key mac_key ca =
     (let mac_key = (if mac_key \<noteq> [] then mac_key else key) in
      if 0xFF < length version \<or> 0xFF < length tag then None
      else do {
        (payload, aux) \<leftarrow> pack_payload pc rnd fw cripted key mac_key;
        (crc_value, cache) \<leftarrow> crc_generic cache payload (crc_init ca) (crc_refin ca) (crc_refout ca) (crc_xor_out ca) (crc_poly ca) 32;
        crc \<leftarrow> to_bytes4 crc_value;
        let image = (if is_front then crc @ version @ tag @ aux @ payload else payload @ aux @ version @ tag @ crc);
        Some (image @ [IMAGE_META_MAGIC, mode_code cripted OR (if is_front then 0x80 else 0), of_nat (length version), of_nat (length tag)], cache)
      })"

subsection \<open>Reading an image on the host\<close>

text \<open>A slice with optional bounds, negative ones counted from the end, both clamped.\<close>

definition py_index :: "nat \<Rightarrow> int \<Rightarrow> nat" where
  "py_index n i = (if i < 0 then nat (int n + i) else min (nat i) n)"

definition py_slice :: "'x list \<Rightarrow> int option \<Rightarrow> int option \<Rightarrow> 'x list" where
  "py_slice xs a b =
     (let n = length xs; i = (case a of None \<Rightarrow> 0 | Some a \<Rightarrow> py_index n a); j = (case b of None \<Rightarrow> n | Some b \<Rightarrow> py_index n b) in
      take (j - i) (drop i xs))"

record image_info =
  in_mode :: image_check_t
  in_front :: bool
  in_crc :: u32
  in_version :: "u8 list"
  in_tag :: "u8 list"
  in_aux :: "u8 list"
  in_payload :: "u8 list"

definition mode_by_code :: "u8 \<Rightarrow> image_check_t option" where
  "mode_by_code c = (if c = 0 then Some IMAGE_CHECK_CRC else if c = 1 then Some IMAGE_CHECK_SHA else if c = 2 then Some IMAGE_CHECK_GCM
     else if c = 3 then Some IMAGE_CHECK_CBC else if c = 4 then Some IMAGE_CHECK_CBC_SHA else None)"

definition image_aux_bytes :: "image_check_t \<Rightarrow> nat" where
  "image_aux_bytes mode = (case mode of IMAGE_CHECK_GCM \<Rightarrow> 12 + 16 | IMAGE_CHECK_CBC \<Rightarrow> 16 | IMAGE_CHECK_CBC_SHA \<Rightarrow> 16 + 32
     | IMAGE_CHECK_SHA \<Rightarrow> 32 | IMAGE_CHECK_CRC \<Rightarrow> 0)"

definition parse_image :: "u8 list \<Rightarrow> image_info option" where
  "parse_image data =
     (if length data < 8 then None
      else
        let m = py_slice data (Some (- 4)) None in
        if m ! 0 \<noteq> 0xA5 then None
        else do {
          mode \<leftarrow> mode_by_code (m ! 1 AND 0x7F);
          let version_len = (uint (m ! 2) :: int);
          let tag_len = (uint (m ! 3) :: int);
          let overhead = 4 + version_len + tag_len + int (image_aux_bytes mode);
          let body = py_slice data None (Some (- 4));
          if int (length body) < overhead then None
          else if m ! 1 AND 0x80 \<noteq> 0 then
            Some \<lparr>in_mode = mode, in_front = True, in_crc = rd32 (py_slice body None (Some 4)) 0,
              in_version = py_slice body (Some 4) (Some (4 + version_len)),
              in_tag = py_slice body (Some (4 + version_len)) (Some (4 + version_len + tag_len)),
              in_aux = py_slice body (Some (4 + version_len + tag_len)) (Some overhead),
              in_payload = py_slice body (Some overhead) None\<rparr>
          else
            Some \<lparr>in_mode = mode, in_front = False, in_crc = rd32 (py_slice body (Some (- 4)) None) 0,
              in_version = py_slice body (Some (- 4 - tag_len - version_len)) (Some (- 4 - tag_len)),
              in_tag = py_slice body (Some (- 4 - tag_len)) (Some (- 4)),
              in_aux = py_slice body (Some (- overhead)) (Some (- 4 - tag_len - version_len)),
              in_payload = py_slice body None (Some (- overhead))\<rparr>
        })"

definition decrypt_payload :: "pycrypto \<Rightarrow> image_check_t \<Rightarrow> u8 list \<Rightarrow> u8 list \<Rightarrow> u8 list \<Rightarrow> u8 list option" where
  "decrypt_payload pc mode payload aux key =
     (case mode of
        IMAGE_CHECK_GCM \<Rightarrow> ase_gcm_decrypt pc payload key (py_slice aux None (Some 12)) (py_slice aux (Some 12) None)
      | IMAGE_CHECK_CBC \<Rightarrow> aes_cbc_decrypt pc payload key (py_slice aux None (Some 16))
      | IMAGE_CHECK_CBC_SHA \<Rightarrow> aes_cbc_decrypt pc payload key (py_slice aux None (Some 16))
      | _ \<Rightarrow> Some payload)"

subsection \<open>The layout on both sides\<close>

lemma meta_decode_pack:
  assumes "vl < 256" "tg < 256"
  shows "meta_decode [IMAGE_META_MAGIC, mode_code mode OR (if is_front then 0x80 else 0), of_nat vl, of_nat tg] =
    (ERR_OK, Some (mode, is_front, vl, tg))"
  using assms by (cases mode; cases is_front) (simp_all add: meta_decode_def mode_code_def check_of_def unsigned_of_nat take_bit_nat_eq_self)

text \<open>The bytes an image consists of.\<close>

definition image_bytes :: "bool \<Rightarrow> image_check_t \<Rightarrow> u8 list \<Rightarrow> u8 list \<Rightarrow> u8 list \<Rightarrow> u8 list \<Rightarrow> u32 \<Rightarrow> u8 list" where
  "image_bytes is_front mode version tag aux payload crc =
     (if is_front then le32 crc @ version @ tag @ aux @ payload else payload @ aux @ version @ tag @ le32 crc) @
     [IMAGE_META_MAGIC, mode_code mode OR (if is_front then 0x80 else 0), of_nat (length version), of_nat (length tag)]"

lemma length_image_bytes:
  "length aux = aux_size mode \<Longrightarrow>
    length (image_bytes is_front mode version tag aux payload crc) = 8 + length version + length tag + aux_size mode + length payload"
  by (simp add: image_bytes_def)

lemma rd32_le32: "rd32 (le32 c) 0 = c"
  using rd32_at [of "[]" 0 c "[]"] by simp

lemma parse_image_bytes:
  fixes payload :: "u8 list" and crc :: u32 and is_front :: bool
  assumes "length version < 256" "length tag < 256" "length aux = aux_size mode"
  defines "b \<equiv> image_bytes is_front mode version tag aux payload crc"
  obtains v where "image_parse (Some b) (length b) True = Some (ERR_OK, Some v)" "vw_mode v = mode" "vw_crc_stored v = crc"
    "bytes_at b (vw_payload v) (vw_payload_len v) = payload" "vw_payload_len v = length payload"
    "bytes_at b (vw_aux v) (vw_aux_len v) = aux" "vw_aux_len v = length aux"
    "bytes_at b (vw_version v) (vw_version_len v) = version" "bytes_at b (vw_tag v) (vw_tag_len v) = tag"
proof -
  have len: "length b = 8 + length version + length tag + aux_size mode + length payload"
    unfolding b_def using assms(3) by (rule length_image_bytes)
  let ?v = "view_at b mode is_front (length version) (length tag)"
  have "take 4 (drop (length b - 4) b) = [IMAGE_META_MAGIC, mode_code mode OR (if is_front then 0x80 else 0), of_nat (length version), of_nat (length tag)]"
    unfolding b_def image_bytes_def by simp
  then have "meta_decode (take 4 (drop (length b - 4) b)) = (ERR_OK, Some (mode, is_front, length version, length tag))"
    using meta_decode_pack assms(1,2) by simp
  then have "image_parse (Some b) (length b) True = Some (ERR_OK, Some ?v)" unfolding parse_eq using len by simp
  moreover have "vw_mode ?v = mode" "vw_payload_len ?v = length payload" "vw_aux_len ?v = length aux"
    using len assms(3) by (simp_all add: view_at_def Let_def)
  moreover have "bytes_at b (vw_payload ?v) (vw_payload_len ?v) = payload" "bytes_at b (vw_aux ?v) (vw_aux_len ?v) = aux"
      "bytes_at b (vw_version ?v) (vw_version_len ?v) = version" "bytes_at b (vw_tag ?v) (vw_tag_len ?v) = tag" "vw_crc_stored ?v = crc"
    using len assms(3)
    by (cases is_front; simp add: view_at_def Let_def bytes_at_def b_def image_bytes_def rd32_le32; fail)+
  ultimately show ?thesis using that by blast
qed

lemma mode_by_code_eq: "mode_by_code c = (if 4 < c then None else Some (check_of c))"
proof (cases "4 < c")
  case True
  then show ?thesis by (auto simp: mode_by_code_def)
next
  case False
  then have "unat c \<le> 4" by (simp add: word_le_nat_alt not_less)
  then have "unat c = 0 \<or> unat c = 1 \<or> unat c = 2 \<or> unat c = 3 \<or> unat c = 4" by linarith
  then have "c = 0 \<or> c = 1 \<or> c = 2 \<or> c = 3 \<or> c = 4" by (auto simp: word_unat_eq_iff)
  then show ?thesis using False by (auto simp: mode_by_code_def check_of_def)
qed

lemma py_index_simps: "py_index n (int a) = min a n" "0 < k \<Longrightarrow> py_index n (- int k) = n - k"
  by (auto simp: py_index_def)

lemma py_slice_front:
  "a \<le> b \<Longrightarrow> b \<le> length xs \<Longrightarrow> py_slice xs (Some (int a)) (Some (int b)) = take (b - a) (drop a xs)"
  "b \<le> length xs \<Longrightarrow> py_slice xs None (Some (int b)) = take b xs"
  "a \<le> length xs \<Longrightarrow> py_slice xs (Some (int a)) None = drop a xs"
  by (simp_all add: py_slice_def py_index_simps Let_def)

lemma py_slice_back:
  "0 < b \<Longrightarrow> b \<le> a \<Longrightarrow> a \<le> length xs \<Longrightarrow> py_slice xs (Some (- int a)) (Some (- int b)) = take (a - b) (drop (length xs - a) xs)"
  "0 < b \<Longrightarrow> py_slice xs None (Some (- int b)) = take (length xs - b) xs"
  "0 < a \<Longrightarrow> py_slice xs (Some (- int a)) None = drop (length xs - a) xs"
  by (simp_all add: py_slice_def py_index_simps Let_def)

text \<open>The fields of a view, as the host tool returns them.\<close>

definition info_of :: "u8 list \<Rightarrow> image_view_t \<Rightarrow> image_info" where
  "info_of b v =
     \<lparr>in_mode = vw_mode v, in_front = vw_is_front v, in_crc = vw_crc_stored v, in_version = bytes_at b (vw_version v) (vw_version_len v),
      in_tag = bytes_at b (vw_tag v) (vw_tag_len v), in_aux = bytes_at b (vw_aux v) (vw_aux_len v),
      in_payload = bytes_at b (vw_payload v) (vw_payload_len v)\<rparr>"

lemma aux_bytes_eq: "image_aux_bytes mode = aux_size mode"
  by (cases mode) (simp_all add: image_aux_bytes_def aux_size_def image_aux_len_def)

lemma take_drop_take: "i + n \<le> k \<Longrightarrow> take n (drop i (take k xs)) = take n (drop i xs)"
  by (simp add: drop_take min_def)

lemma body_slices:
  assumes "body = take (length b - 4) b" "length b = 8 + vl + tg + n + p"
  shows "py_slice body None (Some 4) = take 4 b"
    "py_slice body (Some 4) (Some (4 + int vl)) = take vl (drop 4 b)"
    "py_slice body (Some (4 + int vl)) (Some (4 + int vl + int tg)) = take tg (drop (4 + vl) b)"
    "py_slice body (Some (4 + int vl + int tg)) (Some (4 + int vl + int tg + int n)) = take n (drop (4 + vl + tg) b)"
    "py_slice body (Some (4 + int vl + int tg + int n)) None = take p (drop (4 + vl + tg + n) b)"
    "py_slice body (Some (- 4)) None = take 4 (drop (p + n + vl + tg) b)"
    "py_slice body (Some (- 4 - int tg - int vl)) (Some (- 4 - int tg)) = take vl (drop (p + n) b)"
    "py_slice body (Some (- 4 - int tg)) (Some (- 4)) = take tg (drop (p + n + vl) b)"
    "py_slice body (Some (- (4 + int vl + int tg + int n))) (Some (- 4 - int tg - int vl)) = take n (drop p b)"
    "py_slice body None (Some (- (4 + int vl + int tg + int n))) = take p b"
proof -
  have len: "length body = 4 + vl + tg + n + p" using assms by simp
  have t: "take k (drop i body) = take k (drop i b)" if "i + k \<le> 4 + vl + tg + n + p" for i k
    using that assms by (simp add: take_drop_take)
  have d: "drop i body = take (4 + vl + tg + n + p - i) (drop i b)" for i using assms by (simp add: drop_take add.assoc)
  note fr = py_slice_front [where xs = body, unfolded len] and bk = py_slice_back [where xs = body, unfolded len]
  show "py_slice body None (Some 4) = take 4 b" using fr(2) [of 4] t [of 0 4] by simp
  show "py_slice body (Some 4) (Some (4 + int vl)) = take vl (drop 4 b)" using fr(1) [of 4 "4 + vl"] t [of 4 vl] by simp
  show "py_slice body (Some (4 + int vl)) (Some (4 + int vl + int tg)) = take tg (drop (4 + vl) b)"
    using fr(1) [of "4 + vl" "4 + vl + tg"] t [of "4 + vl" tg] by simp
  show "py_slice body (Some (4 + int vl + int tg)) (Some (4 + int vl + int tg + int n)) = take n (drop (4 + vl + tg) b)"
    using fr(1) [of "4 + vl + tg" "4 + vl + tg + n"] t [of "4 + vl + tg" n] by simp
  show "py_slice body (Some (4 + int vl + int tg + int n)) None = take p (drop (4 + vl + tg + n) b)"
    using fr(3) [of "4 + vl + tg + n"] d [of "4 + vl + tg + n"] by simp
  have i: "- 4 - int tg - int vl = - int (4 + tg + vl)" "- 4 - int tg = - int (4 + tg)"
    "- (4 + int vl + int tg + int n) = - int (4 + vl + tg + n)" "(- 4 :: int) = - int 4" by simp_all
  have j: "4 + vl + tg + n + p - 4 = p + n + vl + tg" "4 + vl + tg + n + p - (4 + tg) = p + n + vl" "4 + vl + tg + n + p - (4 + tg + vl) = p + n"
    "4 + vl + tg + n + p - (4 + vl + tg + n) = p" by simp_all
  show "py_slice body (Some (- 4)) None = take 4 (drop (p + n + vl + tg) b)"
    using bk(3) [of 4] d [of "p + n + vl + tg"] unfolding i j by simp
  show "py_slice body (Some (- 4 - int tg - int vl)) (Some (- 4 - int tg)) = take vl (drop (p + n) b)"
    using bk(1) [of "4 + tg" "4 + tg + vl"] t [of "p + n" vl] unfolding i j by simp
  show "py_slice body (Some (- 4 - int tg)) (Some (- 4)) = take tg (drop (p + n + vl) b)"
    using bk(1) [of 4 "4 + tg"] t [of "p + n + vl" tg] unfolding i j by simp
  show "py_slice body (Some (- (4 + int vl + int tg + int n))) (Some (- 4 - int tg - int vl)) = take n (drop p b)"
    using bk(1) [of "4 + tg + vl" "4 + vl + tg + n"] t [of p n] unfolding i j by simp
  show "py_slice body None (Some (- (4 + int vl + int tg + int n))) = take p b"
    using bk(2) [of "4 + vl + tg + n"] t [of 0 p] unfolding i j by simp
qed

text \<open>
  C14. The image reader of the host tool and the parser of the device agree on every sequence of bytes: the tool accepts it when
  the device does, and returns the same mode, layout, stored checksum, version, tag, additional data and payload.
\<close>

theorem host_parse_agrees:
  "parse_image b = (case image_parse (Some b) (length b) True of Some (rc, Some v) \<Rightarrow> Some (info_of b v) | _ \<Rightarrow> None)"
proof (cases "length b < 8")
  case True
  then show ?thesis by (simp add: parse_image_def parse_eq)
next
  case False
  define m where "m = take 4 (drop (length b - 4) b)"
  have m: "py_slice b (Some (- 4)) None = m" using py_slice_back(3) [of 4 b] by (simp add: m_def)
  define body where "body = take (length b - 4) b"
  have body: "py_slice b None (Some (- 4)) = body" "length body = length b - 4" using py_slice_back(2) [of 4 b] by (simp_all add: body_def)
  show ?thesis
  proof (cases "m ! 0 \<noteq> 0xA5 \<or> 4 < m ! 1 AND 0x7F")
    case True
    then show ?thesis using False m by (auto simp: parse_image_def parse_eq mode_by_code_eq meta_decode_def IMAGE_META_MAGIC_def simp flip: m_def)
  next
    case ok: False
    define mode where "mode = check_of (m ! 1 AND 0x7F)"
    define vl tg where "vl = unat (m ! 2)" and "tg = unat (m ! 3)"
    have d: "meta_decode m = (ERR_OK, Some (mode, m ! 1 AND 0x80 \<noteq> 0, vl, tg))"
      using ok by (simp add: meta_decode_def IMAGE_META_MAGIC_def mode_def vl_def tg_def)
    have u: "uint (m ! 2) = int vl" "uint (m ! 3) = int tg" by (simp_all add: vl_def tg_def)
    have c: "mode_by_code (m ! 1 AND 0x7F) = Some mode" using ok by (simp add: mode_by_code_eq mode_def)
    show ?thesis
    proof (cases "length b < 8 + vl + tg + aux_size mode")
      case True
      then have "int (length body) < 4 + int vl + int tg + int (image_aux_bytes mode)" using False body(2) by (simp add: aux_bytes_eq)
      then show ?thesis using True False m ok c d u body by (simp add: parse_image_def parse_eq flip: m_def)
    next
      case nf: False
      then have f: "\<not> int (length body) < 4 + int vl + int tg + int (image_aux_bytes mode)" using False body(2) by (simp add: aux_bytes_eq)
      define A where "A = aux_size mode"
      define p where "p = length b - (8 + vl + tg + A)"
      have len: "length b = 8 + vl + tg + A + p" using nf by (simp add: p_def A_def)
      have "image_parse (Some b) (length b) True = Some (ERR_OK, Some (view_at b mode (m ! 1 AND 0x80 \<noteq> 0) vl tg))"
        using False d nf by (simp add: parse_eq flip: m_def)
      moreover have "parse_image b = Some (info_of b (view_at b mode (m ! 1 AND 0x80 \<noteq> 0) vl tg))"
        using False m ok c u body(1) f body_slices [OF body_def len]
        by (simp add: parse_image_def aux_bytes_eq info_of_def view_at_def bytes_at_def Let_def flip: A_def p_def)
      ultimately show ?thesis by simp
    qed
  qed
qed

subsection \<open>From the packer to the device\<close>

text \<open>
  What both sides rely on: the Python packages and mbedtls implement the same algorithms, keys of 16, 24 or 32 bytes are
  accepted, and padding follows PKCS 7 with blocks of 16 bytes.
\<close>

definition pkcs7 :: "u8 list \<Rightarrow> u8 list" where
  "pkcs7 d = (let n = 16 - length d mod 16 in d @ replicate n (of_nat n))"

definition compatible :: "pycrypto \<Rightarrow> ('s, 'h, 'g, 'a) mbedtls \<Rightarrow> bool" where
  "compatible pc mb \<longleftrightarrow>
     (\<forall>d. length (pc_sha256 pc d) = 32 \<and> (\<exists>s s'. mb_sha256_starts_ret mb (mb_sha256_init mb) = (0, s) \<and>
        mb_sha256_update_ret mb s d = (0, s') \<and> mb_sha256_finish_ret mb s' = (0, pc_sha256 pc d))) \<and>
     (\<forall>k iv d. length (pc_hmac_sha256 pc k (iv @ d)) = 32 \<and> image_hmac mb k iv d = (0, pc_hmac_sha256 pc k (iv @ d))) \<and>
     (\<forall>d. pc_pkcs7_pad pc d = pkcs7 d) \<and>
     (\<forall>k iv d. length k \<in> {16, 24, 32} \<longrightarrow> length iv = 16 \<longrightarrow> 16 dvd length d \<longrightarrow>
        (\<exists>c a iv'. pc_cbc_encrypt pc k iv d = Some c \<and> length c = length d \<and>
           mb_aes_setkey_dec mb (mb_aes_init mb) k (key_bits k) = (0, a) \<and> mb_aes_crypt_cbc mb a False iv c = (0, d, iv'))) \<and>
     (\<forall>k n d. length k \<in> {16, 24, 32} \<longrightarrow> length n = 12 \<longrightarrow>
        (\<exists>c t g g1 g2. pc_gcm_encrypt pc k n d = Some (c, t) \<and> length c = length d \<and> length t = 16 \<and>
           mb_gcm_setkey mb (mb_gcm_init mb) k (key_bits k) = (0, g) \<and> mb_gcm_starts mb g False n = (0, g1) \<and>
           mb_gcm_update mb g1 c = (0, d, g2) \<and> mb_gcm_finish mb g2 16 = (0, t)))"

lemma compatible_cbc:
  "compatible pc mb \<Longrightarrow> length k \<in> {16, 24, 32} \<Longrightarrow> length iv = 16 \<Longrightarrow> 16 dvd length d \<Longrightarrow>
     \<exists>c a iv'. pc_cbc_encrypt pc k iv d = Some c \<and> length c = length d \<and>
       mb_aes_setkey_dec mb (mb_aes_init mb) k (key_bits k) = (0, a) \<and> mb_aes_crypt_cbc mb a False iv c = (0, d, iv')"
  unfolding compatible_def by blast

lemma compatible_gcm:
  "compatible pc mb \<Longrightarrow> length k \<in> {16, 24, 32} \<Longrightarrow> length n = 12 \<Longrightarrow>
     \<exists>c t g g1 g2. pc_gcm_encrypt pc k n d = Some (c, t) \<and> length c = length d \<and> length t = 16 \<and>
       mb_gcm_setkey mb (mb_gcm_init mb) k (key_bits k) = (0, g) \<and> mb_gcm_starts mb g False n = (0, g1) \<and>
       mb_gcm_update mb g1 c = (0, d, g2) \<and> mb_gcm_finish mb g2 16 = (0, t)"
  unfolding compatible_def by blast

lemma pad_bytes_replicate: "pad_bytes_ok (replicate n x @ ys) x n"
  by (induction n) simp_all

lemma pkcs7_length: "length (pkcs7 d) = length d + (16 - length d mod 16)" "16 dvd length (pkcs7 d)" "pkcs7 d \<noteq> []"
proof -
  show l: "length (pkcs7 d) = length d + (16 - length d mod 16)" by (simp add: pkcs7_def Let_def)
  have lt: "length d mod 16 < 16" by simp
  have "16 dvd length d + (16 - length d mod 16)" by presburger
  then show "16 dvd length (pkcs7 d)" using l by simp
  show "pkcs7 d \<noteq> []" using l lt by (metis add_is_0 diff_is_0_eq list.size(3) not_le)
qed

lemma unpad_pkcs7:
  assumes "take n out = pkcs7 d" "n = length (pkcs7 d)" "n \<le> length out"
  shows "pkcs7_unpad (Some out) n True = Some (ERR_OK, Some (length d))"
proof -
  define p where "p = 16 - length d mod 16"
  have p: "0 < p" "p \<le> 16" by (simp_all add: p_def)
  have n: "n = length d + p" "n mod 16 = 0" "n \<noteq> 0" using pkcs7_length [of d] assms(2) p by (simp_all add: p_def)
  have t: "take n out = d @ replicate p (of_nat p)" using assms(1) by (simp add: pkcs7_def Let_def p_def)
  have u: "unat (of_nat p :: u8) = p" using p by (simp add: unsigned_of_nat take_bit_nat_eq_self)
  have "out ! (n - 1) = take n out ! (n - 1)" using n by simp
  also have "\<dots> = of_nat p" unfolding t using n p by (auto simp: nth_append)
  finally have "out ! (n - 1) = of_nat p" .
  moreover have "n - 1 < length out" using assms(3) n(1) p(1) by linarith
  ultimately have "arr_get out (n - 1) = Some (of_nat p)" by (simp add: arr_get_def)
  moreover have "pad_bytes_ok (rev (take n out)) (of_nat p) p" unfolding t by (simp add: pad_bytes_replicate)
  moreover have "(of_nat p :: u8) \<noteq> 0" using u p by (metis less_irrefl unat_0)
  ultimately show ?thesis using n u p by (simp add: pkcs7_unpad_def)
qed

text \<open>What the tool packs for each mode is read back by the routine of that mode.\<close>

lemma take_blit_start: "length xs \<le> length dst \<Longrightarrow> take (length xs) (blit dst 0 xs) = xs"
  by (simp add: blit_def)

lemma mem_read_append:
  assumes "mem_read b off k = Some (xs @ ys)" "length xs + length ys = k"
  shows "mem_read b off (length xs) = Some xs" "mem_read b (off + length xs) (length ys) = Some ys"
proof -
  have l: "off + k \<le> length b" and t: "take k (drop off b) = xs @ ys" using assms(1) by (auto simp: mem_read_def split: if_splits)
  have "take (length xs) (take k (drop off b)) = xs" "drop (length xs) (take k (drop off b)) = ys" unfolding t by simp_all
  then have "take (length xs) (drop off b) = xs" "take (length ys) (drop (off + length xs) b) = ys"
    using assms(2) by (auto simp: min_def drop_take add.commute)
  then show "mem_read b off (length xs) = Some xs" "mem_read b (off + length xs) (length ys) = Some ys"
    using l assms(2) by (simp_all add: mem_read_def)
qed

definition device_crc :: "u8 list \<Rightarrow> u32" where
  "device_crc p = crc_stream_finish (crc_stream_feed_bitwise crc_model_start p)"

lemma pack_crc:
  assumes "table_cache_ok cache"
  shows "\<exists>c. table_cache_ok c \<and> crc_generic cache p 0xFFFFFFFF True True 0xFFFFFFFF 0x04C11DB7 32 = Some (uint (device_crc p), c) \<and>
    to_bytes4 (uint (device_crc p)) = Some (le32 (device_crc p))"
  using py_crc_eq [OF assms, of 32 p "0xFFFFFFFF" True True "0xFFFFFFFF" "0x04C11DB7" crc_stream_blank]
    unsigned_less [of "device_crc p", where ?'a = int]
  by (simp add: device_crc_def crc_model_start_def to_bytes4_def)

lemma copy_back:
  assumes "mem_read b (vw_payload v) (vw_payload_len v) = Some fw" "length fw = vw_payload_len v" "length fw \<le> length out"
  shows "copy_plain b v (Some out) (length out) = Some (ERR_OK, Some (blit out 0 fw), Some (length fw))"
  using assms by (simp add: copy_plain_def)

lemma cbc_back:
  assumes "compatible pc mb" "length key \<in> {16, 24, 32}" "length iv = 16" "aes_cbc_encrypt pc iv fw key = Some (c, iv')"
    "mem_read b (vw_payload v) (vw_payload_len v) = Some c" "length c = vw_payload_len v" "length c \<le> length out"
  shows "\<exists>o'. cbc_payload mb b v iv key out = Some (ERR_OK, Some o', Some (length fw)) \<and> take (length fw) o' = fw"
proof -
  have pad: "pc_pkcs7_pad pc fw = pkcs7 fw" using assms(1) by (simp add: compatible_def)
  have "16 dvd length (pkcs7 fw)" by (rule pkcs7_length)
  then obtain c' a iv2 where e: "pc_cbc_encrypt pc key iv (pkcs7 fw) = Some c'" "length c' = length (pkcs7 fw)"
    "mb_aes_setkey_dec mb (mb_aes_init mb) key (key_bits key) = (0, a)" "mb_aes_crypt_cbc mb a False iv c' = (0, pkcs7 fw, iv2)"
    using compatible_cbc [OF assms(1-3)] by blast
  have c: "c' = c" using assms(4) e(1) pad by (simp add: aes_cbc_encrypt_def)
  have n: "c \<noteq> []" "length c mod 16 = 0" "vw_payload_len v = length (pkcs7 fw)" using pkcs7_length [of fw] e(2) assms(6) c by auto
  let ?o = "blit out 0 (pkcs7 fw)"
  have t: "take (length (pkcs7 fw)) ?o = pkcs7 fw" using take_blit_start [of "pkcs7 fw" out] assms(6,7) n(3) by simp
  have "length ?o = length out" using assms(6,7) n(3) by simp
  then have "pkcs7_unpad (Some ?o) (length (pkcs7 fw)) True = Some (ERR_OK, Some (length fw))"
    using unpad_pkcs7 [OF t refl] assms(6,7) n(3) by simp
  moreover have "take (length fw) ?o = fw"
  proof -
    have "take (length fw) ?o = take (length fw) (take (length (pkcs7 fw)) ?o)" using pkcs7_length(1) [of fw] by (simp add: min_def)
    then show ?thesis unfolding t by (simp add: pkcs7_def Let_def)
  qed
  ultimately show ?thesis using e(3,4) c n assms(3,5-7)
    by (simp add: cbc_payload_def aes_cbc_decrypt_stream_begin_def cbc_stream_init_def mem_read_def aes_cbc_decrypt_stream_feed_def cbc_stream_feed_def)
qed

lemma gcm_back:
  assumes "compatible pc mb" "length key \<in> {16, 24, 32}" "length nonce = 12" "ase_gcm_encrypt pc nonce fw key = Some (c, nonce', t)"
    "mem_read b (vw_payload v) (vw_payload_len v) = Some c" "length c = vw_payload_len v" "length c \<le> length out"
    "mem_read b (vw_aux v) (vw_aux_len v) = Some (nonce @ t)" "vw_aux_len v = 28"
  shows "gcm_decrypt mb b v key out (length out) = Some (ERR_OK, Some (blit out 0 fw), Some (length fw)) \<and> length fw \<le> length out"
proof -
  obtain c' t' g g1 g2 where e: "pc_gcm_encrypt pc key nonce fw = Some (c', t')" "length c' = length fw" "length t' = 16"
    "mb_gcm_setkey mb (mb_gcm_init mb) key (key_bits key) = (0, g)" "mb_gcm_starts mb g False nonce = (0, g1)"
    "mb_gcm_update mb g1 c' = (0, fw, g2)" "mb_gcm_finish mb g2 16 = (0, t')"
    using compatible_gcm [OF assms(1-3)] by blast
  have c: "c' = c" "t' = t" using assms(4) e(1) by (simp_all add: ase_gcm_encrypt_def)
  have a: "mem_read b (vw_aux v) 12 = Some nonce" "mem_read b (vw_aux v + 12) 16 = Some t"
    using mem_read_append [of b "vw_aux v" 28 nonce t] assms(3,8,9) e(3) c by simp_all
  have "ct_diff t t 16 0 = Some 0" using ct_diff_Some [of 16 t t 0] e(3) c by auto
  then show ?thesis using a e c assms(5-7,9)
    by (simp add: gcm_decrypt_def aes_gcm_decrypt_stream_begin_def feed_Some aes_gcm_decrypt_stream_finish_def AES_GCM_MAX_TAG_LEN_def)
qed


lemma sha_back:
  assumes "compatible pc mb" "mem_read b (vw_payload v) (vw_payload_len v) = Some fw" "mem_read b (vw_aux v) (vw_aux_len v) = Some (pc_sha256 pc fw)"
    "vw_aux_len v = 32"
  shows "check_sha mb b v = Some ERR_OK"
proof -
  have "length (pc_sha256 pc fw) = 32 \<and> (\<exists>s s'. mb_sha256_starts_ret mb (mb_sha256_init mb) = (0, s) \<and>
      mb_sha256_update_ret mb s fw = (0, s') \<and> mb_sha256_finish_ret mb s' = (0, pc_sha256 pc fw))"
    using assms(1) unfolding compatible_def by blast
  then show ?thesis using assms(2-4) ct_equal_eq [of 32 "pc_sha256 pc fw" "pc_sha256 pc fw"]
    by (auto simp: check_sha_def sha256_begin_def feed_Some sha256_end_def)
qed

lemma cbc_sha_back:
  assumes "compatible pc mb" "length iv = 16" "mem_read b (vw_payload v) (vw_payload_len v) = Some c"
    "mem_read b (vw_aux v) (vw_aux_len v) = Some (iv @ pc_hmac_sha256 pc mk (iv @ c))" "vw_aux_len v = 48"
    "vw_payload_len v \<noteq> 0" "vw_payload_len v mod 16 = 0" "vw_payload_len v \<le> cap"
  shows "cbc_sha_decrypt mb b v key mk out cap = cbc_payload mb b v iv key out"
proof -
  have h: "length (pc_hmac_sha256 pc mk (iv @ c)) = 32" "image_hmac mb mk iv c = (0, pc_hmac_sha256 pc mk (iv @ c))"
    using assms(1) unfolding compatible_def by blast+
  have "mem_read b (vw_aux v) 16 = Some iv" "mem_read b (vw_aux v + 16) 32 = Some (pc_hmac_sha256 pc mk (iv @ c))"
    using mem_read_append [OF assms(4)] assms(2,5) h(1) by simp_all
  then show ?thesis using assms h ct_equal_eq [of 32 "pc_hmac_sha256 pc mk (iv @ c)" "pc_hmac_sha256 pc mk (iv @ c)"]
    by (simp add: cbc_sha_decrypt_def)
qed

text \<open>The configuration of the device for the keys of a packing call.\<close>

definition device_cfg :: "u8 list \<Rightarrow> u8 list \<Rightarrow> image_read_cfg_t" where
  "device_cfg key mac_key = \<lparr>cfg_key = Some key, cfg_mac_key = (if mac_key = [] then None else Some mac_key)\<rparr>"

lemma cbc_encrypt_Some:
  assumes "compatible pc mb" "length key \<in> {16, 24, 32}" "length iv = 16"
  shows "\<exists>c. aes_cbc_encrypt pc iv fw key = Some (c, iv) \<and> length c = length (pkcs7 fw)"
proof -
  have "pc_pkcs7_pad pc fw = pkcs7 fw" using assms(1) by (simp add: compatible_def)
  moreover have "\<exists>c. pc_cbc_encrypt pc key iv (pkcs7 fw) = Some c \<and> length c = length (pkcs7 fw)"
    using compatible_cbc [OF assms pkcs7_length(2) [of fw]] by blast
  ultimately show ?thesis by (auto simp: aes_cbc_encrypt_def)
qed

lemma gcm_encrypt_Some:
  assumes "compatible pc mb" "length key \<in> {16, 24, 32}" "length nonce = 12"
  shows "\<exists>c t. ase_gcm_encrypt pc nonce fw key = Some (c, nonce, t) \<and> length c = length fw \<and> length t = 16"
proof -
  have "\<exists>c t. pc_gcm_encrypt pc key nonce fw = Some (c, t) \<and> length c = length fw \<and> length t = 16"
    using compatible_gcm [OF assms] by blast
  then show ?thesis by (auto simp: ase_gcm_encrypt_def)
qed

lemma pack_payload_aux:
  assumes "compatible pc mb" "length key \<in> {16, 24, 32}" "length rnd = (if mode = IMAGE_CHECK_GCM then 12 else 16)"
  shows "\<exists>payload aux. pack_payload pc rnd fw mode key mk = Some (payload, aux) \<and> length aux = aux_size mode"
proof -
  have l: "length (pc_sha256 pc fw) = 32" "length (pc_hmac_sha256 pc mk (iv @ d)) = 32" for iv d
    using assms(1) by (simp_all add: compatible_def)
  show ?thesis
    using cbc_encrypt_Some [OF assms(1,2), of rnd fw] gcm_encrypt_Some [OF assms(1,2), of rnd fw] assms(3) l
    by (cases mode) (auto simp: pack_payload_def aux_size_def image_aux_len_def sha256_def make_hmac_tag_def)
qed

lemma read_packed:
  fixes is_front :: bool
  assumes "compatible pc mb" "length key \<in> {16, 24, 32}" "length rnd = (if mode = IMAGE_CHECK_GCM then 12 else 16)"
    "pack_payload pc rnd fw mode key (if mac_key \<noteq> [] then mac_key else key) = Some (payload, aux)"
    "length aux = aux_size mode" "length version < 256" "length tag < 256" "length payload \<le> length out"
  defines "b \<equiv> image_bytes is_front mode version tag aux payload (device_crc payload)"
  shows "\<exists>o' v c. image_read_payload mb (Some b) (length b) (Some (device_cfg key mac_key)) (Some out) (length out) =
      Some (ERR_OK, Some o', Some (length fw), Some v, c) \<and> take (length fw) o' = fw \<and>
      bytes_at b (vw_version v) (vw_version_len v) = version \<and> bytes_at b (vw_tag v) (vw_tag_len v) = tag"
proof -
  let ?mk = "if mac_key \<noteq> [] then mac_key else key"
  obtain v where v: "image_parse (Some b) (length b) True = Some (ERR_OK, Some v)" "vw_mode v = mode" "vw_crc_stored v = device_crc payload"
    "bytes_at b (vw_payload v) (vw_payload_len v) = payload" "vw_payload_len v = length payload"
    "bytes_at b (vw_aux v) (vw_aux_len v) = aux" "vw_aux_len v = length aux"
    "bytes_at b (vw_version v) (vw_version_len v) = version" "bytes_at b (vw_tag v) (vw_tag_len v) = tag"
    using parse_image_bytes [OF assms(6,7,5), of is_front payload "device_crc payload"] unfolding b_def by metis
  have p: "mem_read b (vw_payload v) (vw_payload_len v) = Some payload" and a: "mem_read b (vw_aux v) (vw_aux_len v) = Some aux"
    using parse_view(2,3) [OF v(1)] v(4,6) by (simp_all add: mem_read_def bytes_at_def)
  have k: "check_crypto_args (device_cfg key mac_key) True = ERR_OK" "cfg_key (device_cfg key mac_key) = Some key"
    using assms(2) by (auto simp: check_crypto_args_def device_cfg_def)
  show ?thesis
  proof (cases mode)
    case IMAGE_CHECK_CRC
    then have "payload = fw" using assms(4) by (simp add: pack_payload_def)
    then show ?thesis using v p IMAGE_CHECK_CRC copy_back [OF p [folded v(5)]] assms(8) take_blit_start [of fw out]
      by (auto simp: image_read_payload_def calc_crc_def device_crc_def)
  next
    case IMAGE_CHECK_SHA
    then have e: "payload = fw" "aux = pc_sha256 pc fw" using assms(4) by (auto simp: pack_payload_def sha256_def)
    have l: "vw_aux_len v = 32" using IMAGE_CHECK_SHA v(7) assms(5) by (simp add: aux_size_def image_aux_len_def)
    have "check_sha mb b v = Some ERR_OK" using sha_back [OF assms(1) p [unfolded e] a [unfolded e] l] .
    moreover have "copy_plain b v (Some out) (length out) = Some (ERR_OK, Some (blit out 0 fw), Some (length fw))"
      using copy_back [OF p [unfolded e]] v(5) e(1) assms(8) by simp
    moreover have "take (length fw) (blit out 0 fw) = fw" using take_blit_start assms(8) e(1) by blast
    ultimately show ?thesis using v(1,2,8,9) IMAGE_CHECK_SHA by (simp add: image_read_payload_def)
  next
    case IMAGE_CHECK_GCM
    then obtain t where t: "ase_gcm_encrypt pc rnd fw key = Some (payload, rnd, t)" "aux = rnd @ t" "length rnd = 12"
      using assms(3,4) gcm_encrypt_Some [OF assms(1,2), of rnd fw] by (auto simp: pack_payload_def)
    have "vw_aux_len v = 28" using IMAGE_CHECK_GCM v(7) assms(5) by (simp add: aux_size_def image_aux_len_def)
    then show ?thesis using v k IMAGE_CHECK_GCM gcm_back [OF assms(1,2) t(3,1) p _ assms(8) a [unfolded t(2)]] take_blit_start [of fw out]
      by (auto simp: image_read_payload_def with_crypto_args_def)
  next
    case IMAGE_CHECK_CBC
    then have t: "aes_cbc_encrypt pc rnd fw key = Some (payload, rnd)" "aux = rnd" "length rnd = 16" "length payload = length (pkcs7 fw)"
      using assms(3,4) cbc_encrypt_Some [OF assms(1,2), of rnd fw] by (auto simp: pack_payload_def)
    obtain o' where o: "cbc_payload mb b v rnd key out = Some (ERR_OK, Some o', Some (length fw))" "take (length fw) o' = fw"
      using cbc_back [OF assms(1,2) t(3,1) p v(5) [symmetric] assms(8)] by blast
    have n: "vw_payload_len v \<noteq> 0" "vw_payload_len v mod 16 = 0" using pkcs7_length [of fw] t(4) v(5) by auto
    have "cbc_decrypt mb b v key out (length out) = cbc_payload mb b v rnd key out"
      using n t(2,3) a v(5,7) assms(8) by (simp add: cbc_decrypt_def)
    then show ?thesis using v k IMAGE_CHECK_CBC o by (auto simp: image_read_payload_def with_crypto_args_def cbc_decrypt_dispatch_def)
  next
    case IMAGE_CHECK_CBC_SHA
    then have t: "aes_cbc_encrypt pc rnd fw key = Some (payload, rnd)" "aux = rnd @ pc_hmac_sha256 pc ?mk (rnd @ payload)" "length rnd = 16"
        "length payload = length (pkcs7 fw)"
      using assms(3,4) cbc_encrypt_Some [OF assms(1,2), of rnd fw] by (auto simp: pack_payload_def make_hmac_tag_def)
    obtain o' where o: "cbc_payload mb b v rnd key out = Some (ERR_OK, Some o', Some (length fw))" "take (length fw) o' = fw"
      using cbc_back [OF assms(1,2) t(3,1) p v(5) [symmetric] assms(8)] by blast
    have n: "vw_payload_len v \<noteq> 0" "vw_payload_len v mod 16 = 0" using pkcs7_length [of fw] t(4) v(5) by auto
    have "vw_aux_len v = 48" using IMAGE_CHECK_CBC_SHA v(7) assms(5) by (simp add: aux_size_def image_aux_len_def)
    then have "cbc_sha_decrypt mb b v key ?mk out (length out) = cbc_payload mb b v rnd key out"
      using cbc_sha_back [OF assms(1) t(3) p a [unfolded t(2)] _ n] v(5) assms(8) by simp
    moreover have "(case cfg_mac_key (device_cfg key mac_key) of Some m \<Rightarrow> m | None \<Rightarrow> key) = ?mk" by (simp add: device_cfg_def)
    ultimately show ?thesis using v k IMAGE_CHECK_CBC_SHA o by (auto simp: image_read_payload_def with_crypto_args_def)
  qed
qed

lemma make_image_eq:
  assumes "compatible pc mb" "table_cache_ok cache" "length key \<in> {16, 24, 32}"
    "length rnd = (if mode = IMAGE_CHECK_GCM then 12 else 16)" "length version < 256" "length tag < 256"
  shows "\<exists>payload aux c. pack_payload pc rnd fw mode key (if mac_key \<noteq> [] then mac_key else key) = Some (payload, aux) \<and>
    length aux = aux_size mode \<and>
    make_image pc cache rnd fw version tag is_front mode key mac_key crc_defaults =
      Some (image_bytes is_front mode version tag aux payload (device_crc payload), c) \<and>
    length payload \<le> length (image_bytes is_front mode version tag aux payload (device_crc payload))"
proof -
  let ?mk = "if mac_key \<noteq> [] then mac_key else key"
  obtain payload aux where p: "pack_payload pc rnd fw mode key ?mk = Some (payload, aux)" "length aux = aux_size mode"
    using pack_payload_aux [OF assms(1,3,4)] by blast
  obtain c where c: "crc_generic cache payload 0xFFFFFFFF True True 0xFFFFFFFF 0x04C11DB7 32 = Some (uint (device_crc payload), c)"
    "to_bytes4 (uint (device_crc payload)) = Some (le32 (device_crc payload))" using pack_crc [OF assms(2)] by blast
  have "make_image pc cache rnd fw version tag is_front mode key mac_key crc_defaults =
      Some (image_bytes is_front mode version tag aux payload (device_crc payload), c)"
    using p(1) c assms(5,6) by (simp add: make_image_def crc_defaults_def image_bytes_def Let_def)
  then show ?thesis using p length_image_bytes [OF p(2)] by simp
qed

text \<open>
  C7. What the host tool packs, the device reads back. For a key of 16, 24 or 32 bytes, version and tag of at most 255
  bytes, either layout and every mode, the tool produces an image; the device, given the same keys and an output as large
  as the image, accepts it, writes the firmware to its output, reports its length, and finds version and tag. The
  default checksum parameters of the tool are those compiled into the device.
\<close>

theorem pack_read_roundtrip:
  assumes "compatible pc mb" "table_cache_ok cache" "length key \<in> {16, 24, 32}"
    "length rnd = (if mode = IMAGE_CHECK_GCM then 12 else 16)" "length version < 256" "length tag < 256"
  shows "\<exists>image cache'. make_image pc cache rnd fw version tag is_front mode key mac_key crc_defaults = Some (image, cache') \<and>
    (\<forall>out. length image \<le> length out \<longrightarrow>
      (\<exists>o' v c. image_read_payload mb (Some image) (length image) (Some (device_cfg key mac_key)) (Some out) (length out) =
         Some (ERR_OK, Some o', Some (length fw), Some v, c) \<and> take (length fw) o' = fw \<and>
         bytes_at image (vw_version v) (vw_version_len v) = version \<and> bytes_at image (vw_tag v) (vw_tag_len v) = tag))"
proof -
  obtain payload aux c where p: "pack_payload pc rnd fw mode key (if mac_key \<noteq> [] then mac_key else key) = Some (payload, aux)"
      "length aux = aux_size mode"
      "make_image pc cache rnd fw version tag is_front mode key mac_key crc_defaults =
         Some (image_bytes is_front mode version tag aux payload (device_crc payload), c)"
      "length payload \<le> length (image_bytes is_front mode version tag aux payload (device_crc payload))"
    using make_image_eq [OF assms] by blast
  let ?b = "image_bytes is_front mode version tag aux payload (device_crc payload)"
  have "\<exists>o' v c. image_read_payload mb (Some ?b) (length ?b) (Some (device_cfg key mac_key)) (Some out) (length out) =
      Some (ERR_OK, Some o', Some (length fw), Some v, c) \<and> take (length fw) o' = fw \<and>
      bytes_at ?b (vw_version v) (vw_version_len v) = version \<and> bytes_at ?b (vw_tag v) (vw_tag_len v) = tag"
    if "length ?b \<le> length out" for out
    by (rule read_packed [OF assms(1,3,4) p(1,2) assms(5,6) order_trans [OF p(4) that]])
  with p(3) show ?thesis by blast
qed

text \<open>The counterpart of the transparent library on the side of the host.\<close>

definition plain_pycrypto :: pycrypto where
  "plain_pycrypto =
     \<lparr>pc_sha256 = (\<lambda>d. take 32 (d @ replicate 32 0)), pc_hmac_sha256 = (\<lambda>k d. take 32 ((k @ d) @ replicate 32 0)),
      pc_pkcs7_pad = pkcs7, pc_pkcs7_unpad = (\<lambda>d. Some d), pc_cbc_encrypt = (\<lambda>k iv d. Some d), pc_cbc_decrypt = (\<lambda>k iv d. Some d),
      pc_gcm_encrypt = (\<lambda>k n d. Some (d, take 16 ((k @ n @ d) @ replicate 16 0))), pc_gcm_decrypt = (\<lambda>k n t d. Some d)\<rparr>"

lemma plain_compatible: "compatible plain_pycrypto plain_crypto"
  by (auto simp: compatible_def plain_pycrypto_def plain_crypto_def image_hmac_def hmac_sha256_stream_begin_def feed_Some
      hmac_sha256_stream_end_def min_def)

theorem pack_read_roundtrip_witness:
  "\<exists>image cache'. make_image plain_pycrypto (\<lambda>k. None) (replicate 16 7) [1, 2, 3] [0x31, 0x2E, 0x30] [0x74] True IMAGE_CHECK_CBC_SHA
      (replicate 16 9) [] crc_defaults = Some (image, cache') \<and>
    (\<forall>out. length image \<le> length out \<longrightarrow>
      (\<exists>o' v c. image_read_payload plain_crypto (Some image) (length image) (Some (device_cfg (replicate 16 9) [])) (Some out) (length out) =
         Some (ERR_OK, Some o', Some (length [1 :: u8, 2, 3]), Some v, c) \<and> take (length [1 :: u8, 2, 3]) o' = [1, 2, 3] \<and>
         bytes_at image (vw_version v) (vw_version_len v) = [0x31, 0x2E, 0x30] \<and> bytes_at image (vw_tag v) (vw_tag_len v) = [0x74]))"
  by (rule pack_read_roundtrip [OF plain_compatible]) (simp_all add: table_cache_ok_def)

end
