(* ===== verification/Ota_Boot.thy ===== *)
theory Ota_Boot
  imports Ota_Pack
begin

text \<open>
  \<^verbatim>\<open>lib/mini-ota/bootutil/src/start.c\<close> and \<^verbatim>\<open>boot.c\<close>: the run-time state of an update, its flags and persistent fields, the
  download into the inactive partition, the verification and activation of a new image, its trial run with rollback,
  and the jump to an application. The partition mode (\<open>OTA_DUAL_PARTITION\<close>) and the RAM of the board are
  configuration and stay parameters, as do the state backend, the flash driver and the download hook.
\<close>

definition MINI_BOOT_LOAD_MAX :: nat where "MINI_BOOT_LOAD_MAX = 512"
definition OTA_FAIL_NONE :: u8 where "OTA_FAIL_NONE = 0"
definition OTA_FAIL_READ :: u8 where "OTA_FAIL_READ = 1"
definition OTA_FAIL_WRITE :: u8 where "OTA_FAIL_WRITE = 2"
definition OTA_FAIL_VERIFY :: u8 where "OTA_FAIL_VERIFY = 3"
definition OTA_STATE_BIT_FORCE :: u32 where "OTA_STATE_BIT_FORCE = 3"
definition OTA_STATE_MASK_STATUS_BYTE :: u32 where "OTA_STATE_MASK_STATUS_BYTE = 0xFF"
definition OTA_STATE_PARTITION_IMAGE_0 :: u32 where "OTA_STATE_PARTITION_IMAGE_0 = 0"
definition OTA_STATE_PARTITION_IMAGE_1 :: u32 where "OTA_STATE_PARTITION_IMAGE_1 = 1"

text \<open>The static variables of the two files, the key slot and the state of the flash device.\<close>

record 'd mini_boot =
  s_ota_state :: u32
  s_load_buffer :: "u8 list"
  s_downloaded_size :: nat
  s_keys :: boot_keys_t
  s_dev :: 'd

subsection \<open>Flags and persistent fields\<close>

definition state_update :: "'d ota_state_ops_t option \<Rightarrow> 'd mini_boot \<Rightarrow> u32 \<Rightarrow> u32 \<Rightarrow> (int \<times> 'd mini_boot) option" where
  "state_update ops b msk value =
     do {
       let b = b\<lparr>s_ota_state := s_ota_state b AND NOT msk OR value AND msk\<rparr>;
       (rc, d) \<leftarrow> ota_state_update ops (s_dev b) msk value;
       Some (rc, b\<lparr>s_dev := d\<rparr>)
     }"

definition state_update_bit :: "'d ota_state_ops_t option \<Rightarrow> 'd mini_boot \<Rightarrow> u32 \<Rightarrow> u32 \<Rightarrow> (int \<times> 'd mini_boot) option" where
  "state_update_bit ops b msk value = state_update ops b msk (if value \<noteq> 0 then msk else 0)"

definition ota_open :: "'d mini_boot \<Rightarrow> 'd mini_boot" where
  "ota_open b = b\<lparr>s_ota_state := ota_state_bit_put (s_ota_state b) OTA_STATE_BIT_OPEN 1\<rparr>"

definition ota_close :: "'d mini_boot \<Rightarrow> 'd mini_boot" where
  "ota_close b = b\<lparr>s_ota_state := ota_state_bit_put (s_ota_state b) OTA_STATE_BIT_OPEN 0\<rparr>"

definition ota_rollback_open :: "'d mini_boot \<Rightarrow> 'd mini_boot" where
  "ota_rollback_open b = b\<lparr>s_ota_state := ota_state_bit_put (s_ota_state b) OTA_STATE_BIT_ROLLBACK 1\<rparr>"

definition ota_rollback_close :: "'d mini_boot \<Rightarrow> 'd mini_boot" where
  "ota_rollback_close b = b\<lparr>s_ota_state := ota_state_bit_put (s_ota_state b) OTA_STATE_BIT_ROLLBACK 0\<rparr>"

definition ota_force_open :: "'d mini_boot \<Rightarrow> 'd mini_boot" where
  "ota_force_open b = b\<lparr>s_ota_state := ota_state_bit_put (s_ota_state b) OTA_STATE_BIT_FORCE 1\<rparr>"

definition ota_force_close :: "'d mini_boot \<Rightarrow> 'd mini_boot" where
  "ota_force_close b = b\<lparr>s_ota_state := ota_state_bit_put (s_ota_state b) OTA_STATE_BIT_FORCE 0\<rparr>"

definition ota_set_partition_image_0 :: "'d ota_state_ops_t option \<Rightarrow> 'd mini_boot \<Rightarrow> (int \<times> 'd mini_boot) option" where
  "ota_set_partition_image_0 ops b = state_update_bit ops b OTA_STATE_MASK_CURRENT OTA_STATE_PARTITION_IMAGE_0"

definition ota_set_partition_image_1 :: "'d ota_state_ops_t option \<Rightarrow> 'd mini_boot \<Rightarrow> (int \<times> 'd mini_boot) option" where
  "ota_set_partition_image_1 ops b = state_update_bit ops b OTA_STATE_MASK_CURRENT OTA_STATE_PARTITION_IMAGE_1"

definition ota_fail_set :: "'d ota_state_ops_t option \<Rightarrow> 'd mini_boot \<Rightarrow> u8 \<Rightarrow> (int \<times> 'd mini_boot) option" where
  "ota_fail_set ops b code = state_update ops b OTA_STATE_FAIL_MASK (ota_state_fail_encode (ucast code))"

definition mini_boot_get_ota_status :: "'d mini_boot \<Rightarrow> u8" where
  "mini_boot_get_ota_status b = ucast (s_ota_state b AND OTA_STATE_MASK_STATUS_BYTE)"

definition ota_is_open :: "'d mini_boot \<Rightarrow> u8" where
  "ota_is_open b = ucast (ota_state_bit_get (s_ota_state b) OTA_STATE_BIT_OPEN)"

definition ota_is_rollback :: "'d mini_boot \<Rightarrow> u8" where
  "ota_is_rollback b = ucast (ota_state_bit_get (s_ota_state b) OTA_STATE_BIT_ROLLBACK)"

definition ota_is_force :: "'d mini_boot \<Rightarrow> u8" where
  "ota_is_force b = ucast (ota_state_bit_get (s_ota_state b) OTA_STATE_BIT_FORCE)"

definition ota_fail_get :: "'d mini_boot \<Rightarrow> u8" where
  "ota_fail_get b = ucast (ota_state_fail_get (s_ota_state b))"

definition ota_current_partition_get :: "'d mini_boot \<Rightarrow> u8" where
  "ota_current_partition_get b = ucast (ota_state_bit_get (s_ota_state b) OTA_STATE_BIT_CURRENT)"

definition ota_is_pending :: "'d mini_boot \<Rightarrow> u8" where
  "ota_is_pending b = ucast (ota_state_bit_get (s_ota_state b) OTA_STATE_BIT_PENDING)"

definition ota_is_trial :: "'d mini_boot \<Rightarrow> u8" where
  "ota_is_trial b = ucast (ota_state_bit_get (s_ota_state b) OTA_STATE_BIT_TRIAL)"

subsection \<open>Start-up\<close>

definition state_reload :: "'d ota_state_ops_t option \<Rightarrow> 'd mini_boot \<Rightarrow> (int \<times> 'd mini_boot) option" where
  "state_reload ops b =
     do {
       (rc, loaded) \<leftarrow> ota_state_load ops (s_dev b) (Some 0);
       loaded \<leftarrow> loaded;
       if rc = ERR_OK then
         Some (ERR_OK, b\<lparr>s_ota_state := s_ota_state b AND NOT OTA_STATE_DURABLE_MASK OR loaded AND OTA_STATE_DURABLE_MASK\<rparr>)
       else if rc = ERR_OTA_STATE then Some (ERR_OK, b\<lparr>s_ota_state := s_ota_state b AND NOT OTA_STATE_DURABLE_MASK\<rparr>)
       else Some (rc, b)
     }"

definition mini_boot_state_load :: "'d ota_state_ops_t option \<Rightarrow> 'd mini_boot \<Rightarrow> (int \<times> 'd mini_boot) option" where
  "mini_boot_state_load ops b =
     do {
       (rc, b) \<leftarrow> state_reload ops b;
       if rc \<noteq> ERR_OK then Some (rc, b)
       else if ota_is_pending b \<noteq> 0 then
         if ota_is_trial b = 0 then do {
           (_, b) \<leftarrow> state_update_bit ops b OTA_STATE_MASK_TRIAL 1;
           Some (ERR_OK, b)
         }
         else (case ota_state_resolve_pending (Some (s_ota_state b)) (ucast OTA_FAIL_VERIFY) of
             (True, Some resolved) \<Rightarrow> do {
               let msk = OTA_STATE_MASK_CURRENT OR OTA_STATE_MASK_PENDING OR OTA_STATE_MASK_TRIAL OR OTA_STATE_FAIL_MASK;
               (_, b) \<leftarrow> state_update ops b msk (resolved AND msk);
               Some (ERR_OK, b)
             }
           | _ \<Rightarrow> Some (ERR_OK, b))
       else Some (ERR_OK, b)
     }"

definition mini_boot_state_refresh :: "'d ota_state_ops_t option \<Rightarrow> 'd mini_boot \<Rightarrow> (int \<times> 'd mini_boot) option" where
  "mini_boot_state_refresh ops b = state_reload ops b"

definition mini_boot_confirm_ota :: "'d ota_state_ops_t option \<Rightarrow> 'd mini_boot \<Rightarrow> (int \<times> 'd mini_boot) option" where
  "mini_boot_confirm_ota ops b = state_update ops b (OTA_STATE_MASK_PENDING OR OTA_STATE_MASK_TRIAL) 0"

subsection \<open>Partitions\<close>

definition flash_active_area_id :: "'d mini_boot \<Rightarrow> u32" where
  "flash_active_area_id b =
     (if ucast (ota_current_partition_get b) = OTA_STATE_PARTITION_IMAGE_1 then FLASH_AREA_ID_IMAGE_1 else FLASH_AREA_ID_IMAGE_0)"

text \<open>\<open>dual\<close> is \<open>OTA_DUAL_PARTITION\<close>, which \<open>ota_is_double\<close> returns.\<close>

definition flash_inactive_area_id :: "bool \<Rightarrow> 'd mini_boot \<Rightarrow> u32" where
  "flash_inactive_area_id dual b =
     (if \<not> dual then FLASH_AREA_ID_IMAGE_0
      else if ucast (ota_current_partition_get b) = OTA_STATE_PARTITION_IMAGE_1 then FLASH_AREA_ID_IMAGE_0
      else FLASH_AREA_ID_IMAGE_1)"

definition flash_image_read_fn :: "'d flash_ops_t option \<Rightarrow> 'd \<Rightarrow> flash_area option \<Rightarrow> nat \<Rightarrow> nat \<Rightarrow> (int \<times> u8 list) option" where
  "flash_image_read_fn fl d area offset len =
     (case area of None \<Rightarrow> Some (ERR_ARG, []) | Some a \<Rightarrow> flash_area_read_operation fl d a offset len)"

subsection \<open>Download\<close>

text \<open>
  The hook returns its code, the bytes it has put into the buffer, the length it reports, and its next state. Bytes beyond
  what it wrote keep their old value; writing past the buffer is \<open>None\<close>.
\<close>

type_synonym 'p down_load_hook = "'p \<Rightarrow> nat \<Rightarrow> int \<times> u8 list \<times> int \<times> 'p"

function (sequential) download_loop ::
    "'d flash_ops_t option \<Rightarrow> 'd ota_state_ops_t option \<Rightarrow> flash_area \<Rightarrow> 'p down_load_hook \<Rightarrow> nat \<Rightarrow> nat \<Rightarrow> 'p \<Rightarrow> 'd mini_boot \<Rightarrow>
     (int \<times> 'p \<times> 'd mini_boot) option" where
  "download_loop fl ops area hook total_len received p b =
     (if received < total_len then
        let want = (if MINI_BOOT_LOAD_MAX < total_len - received then MINI_BOOT_LOAD_MAX else total_len - received);
            (rc, bytes, raw, p) = hook p want in
        do {
          buf \<leftarrow> mem_copy (s_load_buffer b) 0 bytes 0 (length bytes);
          let b = b\<lparr>s_load_buffer := buf\<rparr>;
          if rc \<noteq> ERR_OK \<or> raw \<le> 0 \<or> want < nat raw then do {
            (_, b) \<leftarrow> ota_fail_set ops b OTA_FAIL_READ;
            Some (ERR_TRANSMIT, p, b)
          }
          else do {
            (rc, d) \<leftarrow> flash_area_write_operation fl (s_dev b) area received (take (nat raw) buf);
            let b = b\<lparr>s_dev := d\<rparr>;
            if rc \<noteq> ERR_OK then do {
              (_, b) \<leftarrow> ota_fail_set ops b OTA_FAIL_WRITE;
              Some (rc, p, b)
            }
            else download_loop fl ops area hook total_len (received + nat raw) p b
          }
        }
      else Some (ERR_OK, p, b))"
  by pat_completeness auto
termination
  by (relation "measure (\<lambda>(fl, ops, area, hook, total_len, received, p, b). total_len - received)") (auto split: if_splits)

text \<open>A driver that reports success without an area would be called with a null area: \<open>None\<close>.\<close>

definition mini_boot_source_download_stream ::
    "'d flash_ops_t option \<Rightarrow> 'd ota_state_ops_t option \<Rightarrow> bool \<Rightarrow> 'd mini_boot \<Rightarrow> 'p down_load_hook option \<Rightarrow> 'p \<Rightarrow> nat \<Rightarrow>
     (int \<times> 'p \<times> 'd mini_boot) option" where
  "mini_boot_source_download_stream fl ops dual b hook p total_len =
     (if ota_is_open b = 0 then Some (ERR_OTA_OPEN, p, b)
      else case hook of
        None \<Rightarrow> Some (ERR_ARG, p, b)
      | Some hook \<Rightarrow>
          if total_len = 0 then Some (ERR_ARG, p, b)
          else do {
            (result, area) \<leftarrow> flash_area_open fl (s_dev b) (flash_inactive_area_id dual b);
            if result \<noteq> ERR_OK then do { (_, b) \<leftarrow> ota_fail_set ops b OTA_FAIL_WRITE; Some (result, p, b) }
            else do {
              area \<leftarrow> area;
              (result, d) \<leftarrow> flash_area_erase_operation fl (s_dev b) area 0 total_len;
              let b = b\<lparr>s_dev := d\<rparr>;
              if result \<noteq> ERR_OK then do { (_, b) \<leftarrow> ota_fail_set ops b OTA_FAIL_WRITE; Some (result, p, b) }
              else do {
                (result, p, b) \<leftarrow> download_loop fl ops area hook total_len 0 p b;
                if result \<noteq> ERR_OK then Some (result, p, b)
                else Some (ERR_OK, p, b\<lparr>s_downloaded_size := total_len\<rparr>)
              }
            }
          })"

subsection \<open>Activation\<close>

definition mini_boot_start_ota ::
    "('s, 'h, 'g, 'a) mbedtls \<Rightarrow> 'd flash_ops_t option \<Rightarrow> 'd ota_state_ops_t option \<Rightarrow> bool \<Rightarrow> 'd mini_boot \<Rightarrow> (int \<times> 'd mini_boot) option" where
  "mini_boot_start_ota mb fl ops dual b =
     (if ota_is_open b = 0 then Some (ERR_OTA_OPEN, b)
      else if s_downloaded_size b = 0 then Some (ERR_ARG, b)
      else do {
        (rc, area) \<leftarrow> flash_area_open fl (s_dev b) (flash_inactive_area_id dual b);
        if rc \<noteq> ERR_OK then do { (_, b) \<leftarrow> ota_fail_set ops b OTA_FAIL_WRITE; Some (rc, b) }
        else do {
          let cfg = \<lparr>cfg_key = boot_key_get (s_keys b), cfg_mac_key = None\<rparr>;
          (rc, crc) \<leftarrow> image_verify_stream mb (Some (flash_image_read_fn fl (s_dev b) area)) (s_downloaded_size b) (Some cfg) True MINI_BOOT_LOAD_MAX;
          let b = b\<lparr>s_keys := boot_key_wipe (s_keys b)\<rparr>;
          if rc \<noteq> ERR_OK then do { (_, b) \<leftarrow> ota_fail_set ops b OTA_FAIL_VERIFY; Some (rc, b) }
          else do {
            let msk = OTA_STATE_MASK_CURRENT OR OTA_STATE_MASK_PENDING OR OTA_STATE_MASK_TRIAL OR OTA_STATE_FAIL_MASK;
            let value = (0 :: u32);
            let value = (if flash_inactive_area_id dual b = FLASH_AREA_ID_IMAGE_1 then value OR OTA_STATE_MASK_CURRENT else value);
            let value = (if dual \<and> ota_is_rollback b \<noteq> 0 then value OR OTA_STATE_MASK_PENDING else value);
            (rc_state, b) \<leftarrow> state_update ops b msk value;
            if dual \<and> rc_state \<noteq> ERR_OK then Some (rc_state, b) else Some (ERR_OK, b)
          }
        }
      })"

record mini_boot_backup_param_t =
  bp_partition :: u32
  bp_size :: nat
  bp_key :: "u8 list option"
  bp_mac_key :: "u8 list option"

definition mini_boot_backup ::
    "('s, 'h, 'g, 'a) mbedtls \<Rightarrow> 'd flash_ops_t option \<Rightarrow> 'd mini_boot \<Rightarrow> mini_boot_backup_param_t option \<Rightarrow> int option" where
  "mini_boot_backup mb fl b param =
     (case param of
        None \<Rightarrow> Some ERR_ARG
      | Some pa \<Rightarrow>
          if bp_size pa < IMAGE_CRC_LEN + IMAGE_META_LEN then Some ERR_ARG
          else do {
            (rc, area) \<leftarrow> flash_area_open fl (s_dev b) (bp_partition pa);
            if rc \<noteq> ERR_OK then Some rc
            else case area of
              None \<Rightarrow> Some ERR_ARG
            | Some a \<Rightarrow>
                if unat (fa_size a) < bp_size pa then Some ERR_ARG
                else do {
                  (rc, crc) \<leftarrow> image_verify_stream mb (Some (flash_image_read_fn fl (s_dev b) area)) (bp_size pa)
                    (Some \<lparr>cfg_key = bp_key pa, cfg_mac_key = bp_mac_key pa\<rparr>) True MINI_BOOT_LOAD_MAX;
                  Some rc
                }
          })"

subsection \<open>The jump\<close>

text \<open>The accesses to the core, in order; the last one does not return.\<close>

datatype boot_hw =
    Irq_disable
  | Systick_ctrl u32
  | Systick_val u32
  | Nvic_icer nat u32
  | Nvic_icpr nat u32
  | Set_vtor u32
  | Psp_to_msp
  | Set_psp u32
  | Dsb
  | Isb
  | Jump_to_app u32 u32

record mini_boot_app_area =
  initial_addr :: u32
  app_size :: u32
  app_fa_id :: u32
  image_len :: nat

definition mini_boot_set_systick :: "u32 \<Rightarrow> u32 \<Rightarrow> boot_hw list" where
  "mini_boot_set_systick ctrl val = [Systick_ctrl ctrl, Systick_val val]"

definition mini_boot_clear_nvic :: "boot_hw list" where
  "mini_boot_clear_nvic = concat (map (\<lambda>i. [Nvic_icer i 0xFFFFFFFF, Nvic_icpr i 0xFFFFFFFF]) [0..<16])"

text \<open>
  \<open>word_at\<close> reads the address space, \<open>sram_start\<close> and \<open>sram_size\<close> are the board's configuration. The result is an
  error code, or the accesses of a jump.
\<close>

definition boot_jump_switch_app ::
    "('s, 'h, 'g, 'a) mbedtls \<Rightarrow> 'd flash_ops_t option \<Rightarrow> (u32 \<Rightarrow> u32) \<Rightarrow> u32 \<Rightarrow> u32 \<Rightarrow> 'd mini_boot \<Rightarrow> mini_boot_app_area \<Rightarrow>
     (int + boot_hw list) option" where
  "boot_jump_switch_app mb fl word_at sram_start sram_size b app_area =
     (if initial_addr app_area = 0 \<or> initial_addr app_area AND 0x7F \<noteq> 0 then Some (Inl ERR_ARG)
      else
        let app_sp = word_at (initial_addr app_area);
            app_pc = word_at (initial_addr app_area + 4) in
        if app_sp < sram_start \<or> sram_start + sram_size < app_sp \<or> app_sp AND 0x3 \<noteq> 0 then Some (Inl ERR_ARG)
        else if app_pc < initial_addr app_area \<or> initial_addr app_area + app_size app_area \<le> app_pc \<or> app_pc AND 0x1 = 0 then Some (Inl ERR_ARG)
        else do {
          vrc \<leftarrow> (if image_len app_area \<noteq> 0 then
              mini_boot_backup mb fl b (Some \<lparr>bp_partition = app_fa_id app_area, bp_size = image_len app_area,
                bp_key = boot_key_get (s_keys b), bp_mac_key = None\<rparr>)
            else Some ERR_OK);
          if vrc \<noteq> ERR_OK then Some (Inl vrc)
          else Some (Inr ([Irq_disable] @ mini_boot_set_systick 0 0 @ mini_boot_clear_nvic @
            [Set_vtor (initial_addr app_area), Psp_to_msp, Set_psp 0, Dsb, Isb, Jump_to_app app_sp app_pc]))
        })"

subsection \<open>The trial of a new image\<close>

text \<open>
  What an update does to the persistent fields: the partition to boot, whether its image still has to be confirmed, whether
  it has had its trial boot, and the failure code.
\<close>

record trial =
  tr_current :: bool
  tr_pending :: bool
  tr_trial :: bool
  tr_fail :: nat

definition trial_of :: "u32 \<Rightarrow> trial" where
  "trial_of w = \<lparr>tr_current = bit w 6, tr_pending = bit w 7, tr_trial = bit w 16, tr_fail = of_bool (bit w 4) + 2 * of_bool (bit w 5)\<rparr>"

definition tr_boot :: "trial \<Rightarrow> trial" where
  "tr_boot t =
     (if \<not> tr_pending t then t
      else if \<not> tr_trial t then t\<lparr>tr_trial := True\<rparr>
      else \<lparr>tr_current = \<not> tr_current t, tr_pending = False, tr_trial = False, tr_fail = unat OTA_FAIL_VERIFY\<rparr>)"

definition tr_confirm :: "trial \<Rightarrow> trial" where
  "tr_confirm t = t\<lparr>tr_pending := False, tr_trial := False\<rparr>"

definition tr_activate :: "bool \<Rightarrow> bool \<Rightarrow> trial" where
  "tr_activate part rollback = \<lparr>tr_current = part, tr_pending = rollback, tr_trial = False, tr_fail = 0\<rparr>"

lemma bit_get_eq: "ota_state_bit_get w k = of_bool (bit w (unat k))"
  by (simp add: ota_state_bit_get_def and_one_eq bit_iff_odd_drop_bit mod_2_eq_odd)

lemma flag_getters:
  "ota_is_open b = of_bool (bit (s_ota_state b) 0)" "ota_is_rollback b = of_bool (bit (s_ota_state b) 2)"
  "ota_current_partition_get b = of_bool (bit (s_ota_state b) 6)" "ota_is_pending b = of_bool (bit (s_ota_state b) 7)"
  "ota_is_trial b = of_bool (bit (s_ota_state b) 16)"
  by (simp_all add: ota_is_open_def ota_is_rollback_def ota_current_partition_get_def ota_is_pending_def ota_is_trial_def bit_get_eq ota_bits)

lemma low_bits: "c AND 3 = of_bool (bit c 0) + 2 * of_bool (bit c 1)" for c :: "'w::len word"
proof -
  have "c AND 3 = take_bit 2 c" by (simp add: take_bit_eq_mask mask_eq_exp_minus_1)
  also have "\<dots> = of_bool (bit c 0) + 2 * of_bool (bit c 1)"
    by (simp add: numeral_2_eq_2 take_bit_Suc bit_0 bit_Suc mod_2_eq_odd)
  finally show ?thesis .
qed

lemma fail_getter: "ota_fail_get b = of_nat (tr_fail (trial_of (s_ota_state b)))"
proof -
  have "ota_state_fail_get w = drop_bit 4 w AND 3" for w
    by (simp add: ota_state_fail_get_def ota_bits drop_bit_and)
  then show ?thesis by (simp add: ota_fail_get_def trial_of_def low_bits bit_drop_bit_eq)
qed

lemma trial_durable: "trial_of (w AND OTA_STATE_DURABLE_MASK) = trial_of w"
  by (simp add: trial_of_def ota_bits bit_simps)

lemma trial_0: "trial_of 0 = \<lparr>tr_current = False, tr_pending = False, tr_trial = False, tr_fail = 0\<rparr>"
  by (simp add: trial_of_def)

lemma trial_set_trial: "trial_of (w AND NOT OTA_STATE_MASK_TRIAL OR OTA_STATE_MASK_TRIAL AND OTA_STATE_MASK_TRIAL) = (trial_of w)\<lparr>tr_trial := True\<rparr>"
  by (simp add: trial_of_def ota_bits bit_simps)

lemma trial_confirm: "trial_of (w AND NOT (OTA_STATE_MASK_PENDING OR OTA_STATE_MASK_TRIAL) OR 0 AND (OTA_STATE_MASK_PENDING OR OTA_STATE_MASK_TRIAL)) =
    tr_confirm (trial_of w)"
  by (simp add: trial_of_def ota_bits bit_simps tr_confirm_def)

lemma trial_fail: "trial_of (w AND NOT OTA_STATE_FAIL_MASK OR ota_state_fail_encode c AND OTA_STATE_FAIL_MASK) =
    (trial_of w)\<lparr>tr_fail := unat (c AND 3)\<rparr>"
  by (simp add: trial_of_def ota_bits bit_simps ota_state_fail_encode_def low_bits)

lemma trial_partition:
  "trial_of (w AND NOT OTA_STATE_MASK_CURRENT OR (if p then OTA_STATE_MASK_CURRENT else 0) AND OTA_STATE_MASK_CURRENT) =
    (trial_of w)\<lparr>tr_current := p\<rparr>"
  by (simp add: trial_of_def ota_bits bit_simps)

definition trial_mask :: u32 where
  "trial_mask = OTA_STATE_MASK_CURRENT OR OTA_STATE_MASK_PENDING OR OTA_STATE_MASK_TRIAL OR OTA_STATE_FAIL_MASK"

lemma trial_mask_durable: "trial_mask AND OTA_STATE_DURABLE_MASK = trial_mask"
  by (simp add: ota_bits trial_mask_def)

lemma fail_code: "unat (ucast c AND 3 :: u32) = unat (c AND 3)" for c :: u8
  by (simp add: low_bits bit_simps)

lemma trial_replace: "trial_of (w AND NOT trial_mask OR v AND trial_mask) = trial_of v"
  by (simp add: trial_of_def ota_bits bit_simps trial_mask_def)

lemma trial_masked: "trial_of (v AND trial_mask) = trial_of v"
  by (simp add: trial_of_def ota_bits bit_simps trial_mask_def)

lemma resolve_pending:
  assumes "bit w 7"
  shows "\<exists>r. ota_state_resolve_pending (Some w) (ucast OTA_FAIL_VERIFY) = (True, Some r) \<and>
    trial_of r = \<lparr>tr_current = \<not> bit w 6, tr_pending = False, tr_trial = False, tr_fail = unat OTA_FAIL_VERIFY\<rparr>"
  using assms
  by (simp add: ota_state_resolve_pending_def ota_state_pending_get_def ota_state_partition_get_def bit_get_eq ota_bits ota_state_bit_put_def
      ota_state_fail_put_def ota_state_fail_encode_def OTA_FAIL_VERIFY_def trial_of_def bit_simps Let_def)

lemma trial_sync: "trial_of (s AND NOT OTA_STATE_DURABLE_MASK OR w AND OTA_STATE_DURABLE_MASK) = trial_of w"
  by (simp add: trial_of_def ota_bits bit_simps)

text \<open>The parts that the operations on the persistent fields leave alone.\<close>

definition same_run :: "'d mini_boot \<Rightarrow> 'd mini_boot \<Rightarrow> bool" where
  "same_run b b' \<longleftrightarrow> s_load_buffer b' = s_load_buffer b \<and> s_downloaded_size b' = s_downloaded_size b \<and> s_keys b' = s_keys b \<and>
     (\<forall>i. \<not> bit OTA_STATE_DURABLE_MASK i \<longrightarrow> bit (s_ota_state b') i = bit (s_ota_state b) i)"

lemma same_run_refl [simp]: "same_run b b"
  by (simp add: same_run_def)

lemma same_run_trans: "same_run a b \<Longrightarrow> same_run b c \<Longrightarrow> same_run a c"
  by (simp add: same_run_def)

lemma same_flags: "same_run b b' \<Longrightarrow> ota_is_open b' = ota_is_open b" "same_run b b' \<Longrightarrow> ota_is_rollback b' = ota_is_rollback b"
  by (simp_all add: same_run_def flag_getters ota_bits bit_simps)

lemma merge_bits: "m AND OTA_STATE_DURABLE_MASK = m \<Longrightarrow> \<not> bit OTA_STATE_DURABLE_MASK i \<Longrightarrow> bit (w AND NOT m OR v AND m) i = bit w i"
proof -
  assume m: "m AND OTA_STATE_DURABLE_MASK = m" and i: "\<not> bit OTA_STATE_DURABLE_MASK i"
  have "\<not> bit m i" by (subst m [symmetric]) (simp add: bit_and_iff i)
  then show "bit (w AND NOT m OR v AND m) i = bit w i"
    by (cases "i < 32") (auto simp: bit_simps dest: bit_imp_le_length)
qed

text \<open>On a store that works, the operations act on the fields as the transitions above.\<close>

context state_store
begin

definition fields :: "'d mini_boot \<Rightarrow> trial" where
  "fields b = trial_of (durable (s_dev b))"

text \<open>A call that succeeds, leaves \<open>t\<close> in the store and \<open>r\<close> in RAM.\<close>

definition does :: "'d mini_boot \<Rightarrow> (int \<times> 'd mini_boot) option \<Rightarrow> trial \<Rightarrow> trial \<Rightarrow> bool" where
  "does b x t r \<longleftrightarrow> (\<exists>b'. x = Some (ERR_OK, b') \<and> sinv (s_dev b') \<and> fields b' = t \<and> trial_of (s_ota_state b') = r \<and> same_run b b')"

lemma update_fields:
  assumes "sinv (s_dev b)" "\<And>w. trial_of (w AND NOT m OR v AND m) = g (trial_of w)" "m AND OTA_STATE_DURABLE_MASK = m"
  shows "does b (state_update (Some ops) b m v) (g (fields b)) (g (trial_of (s_ota_state b)))"
proof -
  obtain d where "ota_state_update (Some ops) (s_dev b) m v = Some (ERR_OK, d)" "sinv d"
    "durable d = (durable (s_dev b) AND NOT m OR v AND m) AND OTA_STATE_DURABLE_MASK"
    using update_law [OF assms(1), of m v] by blast
  then show ?thesis using assms(2) merge_bits [OF assms(3)] by (simp add: does_def state_update_def trial_durable fields_def same_run_def)
qed

lemma reload_law:
  assumes "sinv (s_dev b)"
  shows "does b (state_reload (Some ops) b) (fields b) (fields b)"
proof -
  define w where "w = (case val (s_dev b) of None \<Rightarrow> 0 | Some w \<Rightarrow> w)"
  have "state_reload (Some ops) b =
      Some (ERR_OK, b\<lparr>s_ota_state := s_ota_state b AND NOT OTA_STATE_DURABLE_MASK OR w AND OTA_STATE_DURABLE_MASK\<rparr>)"
    using load_law [OF assms, of 0] by (cases "val (s_dev b)") (simp_all add: state_reload_def w_def)
  moreover have "fields b = trial_of w"
    by (cases "val (s_dev b)") (simp_all add: fields_def durable_def w_def trial_durable)
  ultimately show ?thesis using assms merge_bits [of OTA_STATE_DURABLE_MASK _ "s_ota_state b" w]
    by (simp add: does_def same_run_def trial_sync) (simp add: fields_def)
qed

lemma boot_law:
  assumes "sinv (s_dev b)"
  shows "does b (mini_boot_state_load (Some ops) b) (tr_boot (fields b)) (tr_boot (fields b))"
proof -
  obtain b1 where b1: "state_reload (Some ops) b = Some (ERR_OK, b1)" "sinv (s_dev b1)" "fields b1 = fields b"
    "trial_of (s_ota_state b1) = fields b" "same_run b b1"
    using reload_law [OF assms] by (auto simp: does_def)
  have f: "bit (s_ota_state b1) 7 = tr_pending (fields b)" "bit (s_ota_state b1) 16 = tr_trial (fields b)"
    "bit (s_ota_state b1) 6 = tr_current (fields b)" unfolding b1(4) [symmetric] by (simp_all add: trial_of_def)
  consider "\<not> bit (s_ota_state b1) 7" | "bit (s_ota_state b1) 7" "\<not> bit (s_ota_state b1) 16" | "bit (s_ota_state b1) 7" "bit (s_ota_state b1) 16"
    by blast
  then show ?thesis
  proof cases
    case 1
    then show ?thesis using b1 f by (simp add: does_def mini_boot_state_load_def flag_getters tr_boot_def)
  next
    case 2
    then show ?thesis using b1 f same_run_trans [OF b1(5)] update_fields [OF b1(2) trial_set_trial]
      by (auto simp: does_def mini_boot_state_load_def flag_getters tr_boot_def state_update_bit_def ota_bits)
  next
    case 3
    obtain r where r: "ota_state_resolve_pending (Some (s_ota_state b1)) (ucast OTA_FAIL_VERIFY) = (True, Some r)" "trial_of r = tr_boot (fields b)"
      using resolve_pending [OF 3(1)] 3 f by (auto simp: tr_boot_def)
    then show ?thesis using 3 b1 same_run_trans [OF b1(5)] update_fields [OF b1(2) trial_replace trial_mask_durable, of "r AND trial_mask"]
      by (auto simp: does_def mini_boot_state_load_def flag_getters trial_masked simp flip: trial_mask_def)
  qed
qed

lemma confirm_law:
  "sinv (s_dev b) \<Longrightarrow> does b (mini_boot_confirm_ota (Some ops) b) (tr_confirm (fields b)) (tr_confirm (trial_of (s_ota_state b)))"
  unfolding mini_boot_confirm_ota_def by (rule update_fields [OF _ trial_confirm]) (simp_all add: ota_bits)

lemma fail_law:
  "sinv (s_dev b) \<Longrightarrow> does b (ota_fail_set (Some ops) b c) ((fields b)\<lparr>tr_fail := unat (c AND 3)\<rparr>) ((trial_of (s_ota_state b))\<lparr>tr_fail := unat (c AND 3)\<rparr>)"
  unfolding ota_fail_set_def fail_code [symmetric] by (rule update_fields [OF _ trial_fail]) (simp_all add: ota_bits)

lemma partition_law:
  "sinv (s_dev b) \<Longrightarrow> does b (state_update_bit (Some ops) b OTA_STATE_MASK_CURRENT p)
     ((fields b)\<lparr>tr_current := p \<noteq> 0\<rparr>) ((trial_of (s_ota_state b))\<lparr>tr_current := p \<noteq> 0\<rparr>)"
  unfolding state_update_bit_def by (rule update_fields [OF _ trial_partition]) (simp_all add: ota_bits)

end

subsection \<open>Histories\<close>

text \<open>
  A reset clears the static variables. After it the boot loader calls \<open>mini_boot_state_load\<close>; the application that it starts
  has its own variables, which it fills with \<open>mini_boot_state_refresh\<close>.
\<close>

definition ram_reset :: "'d mini_boot \<Rightarrow> 'd mini_boot" where
  "ram_reset b = \<lparr>s_ota_state = 0, s_load_buffer = replicate MINI_BOOT_LOAD_MAX 0, s_downloaded_size = 0,
     s_keys = \<lparr>s_key = replicate BOOT_KEY_MAX_LEN 0, s_key_len = 0\<rparr>, s_dev = s_dev b\<rparr>"

datatype ota_event =
    Ev_boot
  | Ev_app
  | Ev_confirm
  | Ev_fail u8
  | Ev_partition bool
  | Ev_open bool
  | Ev_rollback bool

fun ota_event_step :: "'d ota_state_ops_t option \<Rightarrow> 'd mini_boot \<Rightarrow> ota_event \<Rightarrow> (int \<times> 'd mini_boot) option" where
  "ota_event_step ops b Ev_boot = mini_boot_state_load ops (ram_reset b)"
| "ota_event_step ops b Ev_app = mini_boot_state_refresh ops (ram_reset b)"
| "ota_event_step ops b Ev_confirm = mini_boot_confirm_ota ops b"
| "ota_event_step ops b (Ev_fail c) = ota_fail_set ops b c"
| "ota_event_step ops b (Ev_partition p) = (if p then ota_set_partition_image_1 ops b else ota_set_partition_image_0 ops b)"
| "ota_event_step ops b (Ev_open on) = Some (ERR_OK, if on then ota_open b else ota_close b)"
| "ota_event_step ops b (Ev_rollback on) = Some (ERR_OK, if on then ota_rollback_open b else ota_rollback_close b)"

fun ota_run :: "'d ota_state_ops_t option \<Rightarrow> 'd mini_boot \<Rightarrow> ota_event list \<Rightarrow> (int list \<times> 'd mini_boot) option" where
  "ota_run ops b [] = Some ([], b)"
| "ota_run ops b (e # es) = do { (rc, b) \<leftarrow> ota_event_step ops b e; (rcs, b) \<leftarrow> ota_run ops b es; Some (rc # rcs, b) }"

fun tr_event :: "ota_event \<Rightarrow> trial \<Rightarrow> trial" where
  "tr_event Ev_boot t = tr_boot t"
| "tr_event Ev_app t = t"
| "tr_event Ev_confirm t = tr_confirm t"
| "tr_event (Ev_fail c) t = t\<lparr>tr_fail := unat (c AND 3)\<rparr>"
| "tr_event (Ev_partition p) t = t\<lparr>tr_current := p\<rparr>"
| "tr_event (Ev_open on) t = t"
| "tr_event (Ev_rollback on) t = t"

text \<open>The fields as a flash device stores them.\<close>

definition stored_trial :: "'d flash_ops_t \<Rightarrow> 'd \<Rightarrow> trial" where
  "stored_trial fl d = trial_of (case flash_val fl d of None \<Rightarrow> 0 | Some w \<Rightarrow> w)"

lemma stored_fields: "fs.fields fl b = stored_trial fl (s_dev b)"
  by (cases "flash_val fl (s_dev b)") (simp_all add: fs.fields_def fs.durable_def stored_trial_def trial_durable)

lemma flag_bits:
  "bit (ota_state_bit_put w k v) i = (if i = unat k \<and> i < 32 then v \<noteq> 0 else bit w i)"
  by (auto simp: ota_state_bit_put_def bit_simps dest: bit_imp_le_length)

lemma flag_trial:
  "trial_of (ota_state_bit_put w OTA_STATE_BIT_OPEN v) = trial_of w" "trial_of (ota_state_bit_put w OTA_STATE_BIT_ROLLBACK v) = trial_of w"
  by (simp_all add: trial_of_def flag_bits ota_bits)

lemmas flag_ops = ota_open_def ota_close_def ota_rollback_open_def ota_rollback_close_def

context state_store
begin

lemma event_law:
  assumes "sinv (s_dev b)"
  shows "\<exists>b'. ota_event_step (Some ops) b e = Some (ERR_OK, b') \<and> sinv (s_dev b') \<and> fields b' = tr_event e (fields b) \<and>
    (e = Ev_boot \<or> e = Ev_app \<or> trial_of (s_ota_state b) = fields b \<longrightarrow> trial_of (s_ota_state b') = fields b')"
proof -
  have r: "sinv (s_dev (ram_reset b))" "fields (ram_reset b) = fields b" using assms by (simp_all add: ram_reset_def fields_def)
  show ?thesis
  proof (cases e)
    case Ev_boot then show ?thesis using boot_law [OF r(1)] r(2) by (auto simp: does_def)
  next
    case Ev_app then show ?thesis using reload_law [OF r(1)] r(2) by (auto simp: does_def mini_boot_state_refresh_def)
  next
    case Ev_confirm then show ?thesis using confirm_law [OF assms] by (auto simp: does_def)
  next
    case (Ev_fail c) then show ?thesis using fail_law [OF assms, of c] by (auto simp: does_def)
  next
    case (Ev_partition p) then show ?thesis
      using partition_law [OF assms, of 0] partition_law [OF assms, of 1]
      by (auto simp: does_def ota_set_partition_image_0_def ota_set_partition_image_1_def OTA_STATE_PARTITION_IMAGE_0_def OTA_STATE_PARTITION_IMAGE_1_def)
  qed (use assms in \<open>auto simp: flag_ops flag_trial fields_def\<close>)
qed

lemma run_law:
  "sinv (s_dev b) \<Longrightarrow> \<exists>b'. ota_run (Some ops) b es = Some (replicate (length es) ERR_OK, b') \<and> sinv (s_dev b') \<and>
     fields b' = fold tr_event es (fields b) \<and>
     (trial_of (s_ota_state b) = fields b \<or> (\<exists>e es'. es = e # es' \<and> (e = Ev_boot \<or> e = Ev_app)) \<longrightarrow> trial_of (s_ota_state b') = fields b')"
proof (induction es arbitrary: b)
  case (Cons e es)
  obtain b1 where "ota_event_step (Some ops) b e = Some (ERR_OK, b1)" "sinv (s_dev b1)" "fields b1 = tr_event e (fields b)"
    "e = Ev_boot \<or> e = Ev_app \<or> trial_of (s_ota_state b) = fields b \<longrightarrow> trial_of (s_ota_state b1) = fields b1"
    using event_law [OF Cons.prems] by blast
  with Cons.IH [of b1] show ?case by auto
qed simp

end

text \<open>
  C5. The trial of a new image, over any history of resets, application starts, confirmations, failure reports, partition
  choices and switches, on a flash log that works: every call succeeds, the stored fields follow the transitions of a trial (the
  first reset after an activation runs the new image, a second one without a confirmation returns to the other partition
  with the failure code), and from the first reset or application start on, the fields in RAM are those in the flash.
\<close>

theorem ota_trial_refines:
  assumes "flash_store_inv fl area mem (s_dev b)"
  shows "\<exists>b'. ota_run (Some (s_flash_state_ops (Some fl))) b es = Some (replicate (length es) ERR_OK, b') \<and>
    flash_store_inv fl area mem (s_dev b') \<and> stored_trial fl (s_dev b') = fold tr_event es (stored_trial fl (s_dev b)) \<and>
    ((\<exists>e es'. es = e # es' \<and> (e = Ev_boot \<or> e = Ev_app)) \<longrightarrow> trial_of (s_ota_state b') = stored_trial fl (s_dev b'))"
  using fs.run_law [OF assms, of es] unfolding stored_fields by blast

definition fresh_boot :: "'d \<Rightarrow> 'd mini_boot" where
  "fresh_boot d = \<lparr>s_ota_state = 0, s_load_buffer = replicate MINI_BOOT_LOAD_MAX 0, s_downloaded_size = 0,
     s_keys = \<lparr>s_key = replicate BOOT_KEY_MAX_LEN 0, s_key_len = 0\<rparr>, s_dev = d\<rparr>"

theorem ota_trial_refines_witness:
  "\<exists>b'. ota_run (Some (s_flash_state_ops (Some ram_flash))) (fresh_boot cut_blank) [Ev_boot, Ev_app, Ev_partition True, Ev_fail 2, Ev_confirm, Ev_boot] =
      Some ([0, 0, 0, 0, 0, 0], b') \<and> flash_store_inv ram_flash cut_area (\<lambda>d. cut_mem (d, 0)) (s_dev b') \<and>
    stored_trial ram_flash (s_dev b') = fold tr_event [Ev_boot, Ev_app, Ev_partition True, Ev_fail 2, Ev_confirm, Ev_boot] (stored_trial ram_flash cut_blank) \<and>
    trial_of (s_ota_state b') = stored_trial ram_flash (s_dev b')"
proof -
  have "flash_store_inv ram_flash cut_area (\<lambda>d. cut_mem (d, 0)) (s_dev (fresh_boot cut_blank))"
    using ram_inv by (simp add: fresh_boot_def)
  from ota_trial_refines [OF this, of "[Ev_boot, Ev_app, Ev_partition True, Ev_fail 2, Ev_confirm, Ev_boot]"]
  show ?thesis by (auto simp: fresh_boot_def simp del: ota_run.simps fold_simps)
qed

end
