(* ===== verification/Ota_Update.thy ===== *)
theory Ota_Update
  imports Ota_Boot
begin

text \<open>
  What the operations of \<^verbatim>\<open>start.c\<close> and \<^verbatim>\<open>boot.c\<close> guarantee together: a download stores what the hook
  delivers, an image is activated only when it has been verified, and the loader jumps only into a checked vector table.
\<close>

subsection \<open>Verification through a driver\<close>

text \<open>
  The order of definedness on option values, with rules for the constructs of the option monad. A callback that reads at least
  as much as another one gives the same verification result.
\<close>

definition extends :: "'x option \<Rightarrow> 'x option \<Rightarrow> bool" where
  "extends x y \<longleftrightarrow> (\<forall>r. x = Some r \<longrightarrow> y = Some r)"

lemma extends_refl: "extends x x"
  by (simp add: extends_def)

lemma extends_bind: "extends x y \<Longrightarrow> (\<And>r. extends (f r) (g r)) \<Longrightarrow> extends (x \<bind> f) (y \<bind> g)"
  by (auto simp: extends_def bind_eq_Some_conv)

lemma extends_if: "(c \<Longrightarrow> extends x y) \<Longrightarrow> (\<not> c \<Longrightarrow> extends x' y') \<Longrightarrow> extends (if c then x else x') (if c then y else y')"
  by simp

lemma extends_let: "(\<And>v'. v' = v \<Longrightarrow> extends (f v') (g v')) \<Longrightarrow> extends (Let v f) (Let v g)"
  by simp

lemma extends_prod: "(\<And>a b. extends (f a b) (g a b)) \<Longrightarrow> extends (case p of (a, b) \<Rightarrow> f a b) (case p of (a, b) \<Rightarrow> g a b)"
  by (cases p) simp

lemma extends_option:
  "extends x y \<Longrightarrow> (\<And>a. extends (f a) (g a)) \<Longrightarrow> extends (case v of None \<Rightarrow> x | Some a \<Rightarrow> f a) (case v of None \<Rightarrow> y | Some a \<Rightarrow> g a)"
  by (cases v) simp_all

lemmas extends_intros = extends_prod extends_option extends_if extends_let extends_bind

definition reads_more :: "(nat \<Rightarrow> nat \<Rightarrow> 'x option) \<Rightarrow> (nat \<Rightarrow> nat \<Rightarrow> 'x option) \<Rightarrow> bool" where
  "reads_more rd rd' \<longleftrightarrow> (\<forall>off n. extends (rd off n) (rd' off n))"

lemma reads_moreD: "reads_more rd rd' \<Longrightarrow> extends (rd off n) (rd' off n)"
  by (simp add: reads_more_def)

lemma stream_loop_more:
  "reads_more rd rd' \<Longrightarrow> extends (stream_loop rd feed err sc off n s) (stream_loop rd' feed err sc off n s)"
proof (induction n arbitrary: off s rule: less_induct)
  case (less n)
  show ?case
    by (subst (1 2) stream_loop.simps) ((rule extends_refl reads_moreD [OF less.prems] extends_intros less.IH [OF _ less.prems])+, simp)
qed

lemma verify_crc_more: "reads_more rd rd' \<Longrightarrow> extends (verify_crc rd sc p n c) (verify_crc rd' sc p n c)"
  unfolding verify_crc_def by (rule extends_refl stream_loop_more extends_intros | assumption)+

lemma verify_sha_more: "reads_more rd rd' \<Longrightarrow> extends (verify_sha mb rd sc a p n) (verify_sha mb rd' sc a p n)"
  unfolding verify_sha_def by (rule extends_refl stream_loop_more reads_moreD extends_intros | assumption)+

lemma verify_gcm_more: "reads_more rd rd' \<Longrightarrow> extends (verify_gcm mb rd sc k a p n) (verify_gcm mb rd' sc k a p n)"
  unfolding verify_gcm_def by (rule extends_refl stream_loop_more reads_moreD extends_intros | assumption)+

lemma verify_cbc_sha_more: "reads_more rd rd' \<Longrightarrow> extends (verify_cbc_sha mb rd sc k a p n) (verify_cbc_sha mb rd' sc k a p n)"
  unfolding verify_cbc_sha_def by (rule extends_refl stream_loop_more reads_moreD extends_intros | assumption)+

lemma verify_stream_more:
  assumes "reads_more rd rd'"
  shows "extends (image_verify_stream mb (Some rd) n cfg h sc) (image_verify_stream mb (Some rd') n cfg h sc)"
proof (cases cfg)
  case (Some cf)
  have m: "extends (case mode of
        IMAGE_CHECK_CRC \<Rightarrow> verify_crc rd sc p k c
      | IMAGE_CHECK_CBC \<Rightarrow> Some ERR_OK
      | IMAGE_CHECK_SHA \<Rightarrow> verify_sha mb rd sc a p k
      | IMAGE_CHECK_GCM \<Rightarrow> verify_gcm mb rd sc (cfg_key cf) a p k
      | IMAGE_CHECK_CBC_SHA \<Rightarrow> verify_cbc_sha mb rd sc (mac_key_of cf) a p k)
     (case mode of
        IMAGE_CHECK_CRC \<Rightarrow> verify_crc rd' sc p k c
      | IMAGE_CHECK_CBC \<Rightarrow> Some ERR_OK
      | IMAGE_CHECK_SHA \<Rightarrow> verify_sha mb rd' sc a p k
      | IMAGE_CHECK_GCM \<Rightarrow> verify_gcm mb rd' sc (cfg_key cf) a p k
      | IMAGE_CHECK_CBC_SHA \<Rightarrow> verify_cbc_sha mb rd' sc (mac_key_of cf) a p k)" for mode p k c a
    by (cases mode; hypsubst; unfold image_check_t.case;
        rule extends_refl verify_crc_more [OF assms] verify_sha_more [OF assms] verify_gcm_more [OF assms] verify_cbc_sha_more [OF assms])
  show ?thesis unfolding image_verify_stream_def Some prod.case option.case
    by (rule extends_refl reads_moreD [OF assms] m extends_prod extends_option extends_if extends_let extends_bind)+
qed (simp add: image_verify_stream_def extends_refl)

subsection \<open>Image areas\<close>

text \<open>
  What the update relies on for a partition: it can be opened and read, an erase of its first bytes that reports success makes them
  blank, a write into blank bytes that reports success stores the data; neither changes the sector of the state.
\<close>

definition image_area :: "'d flash_ops_t \<Rightarrow> u32 \<Rightarrow> flash_area \<Rightarrow> ('d \<Rightarrow> u8 list) \<Rightarrow> ('d \<Rightarrow> u8 list) \<Rightarrow> bool" where
  "image_area fl i area img st \<longleftrightarrow>
     (\<exists>f. fl_open fl = Some f \<and> (\<forall>d. f d i = (ERR_OK, Some area))) \<and>
     (\<forall>d. length (img d) = unat (fa_size area)) \<and>
     (\<exists>f. fl_read fl = Some f \<and> (\<forall>d off n. off + n \<le> unat (fa_size area) \<longrightarrow> f d area off n = (ERR_OK, take n (drop off (img d))))) \<and>
     (\<exists>f. fl_write fl = Some f \<and> (\<forall>d off bs rc d'. off + length bs \<le> unat (fa_size area) \<longrightarrow> f d area off bs = (rc, d') \<longrightarrow>
        st d' = st d \<and> (rc = ERR_OK \<longrightarrow> take (length bs) (drop off (img d)) = replicate (length bs) 0xFF \<longrightarrow>
          img d' = take off (img d) @ bs @ drop (off + length bs) (img d)))) \<and>
     (\<exists>f. fl_erase fl = Some f \<and> (\<forall>d n rc d'. n \<le> unat (fa_size area) \<longrightarrow> f d area 0 n = (rc, d') \<longrightarrow>
        st d' = st d \<and> (rc = ERR_OK \<longrightarrow> take n (img d') = replicate n 0xFF)))"

lemma image_open: "image_area fl i area img st \<Longrightarrow> flash_area_open (Some fl) d i = Some (ERR_OK, Some area)"
  by (auto simp: image_area_def flash_area_open_def)

lemma image_length: "image_area fl i area img st \<Longrightarrow> length (img d) = unat (fa_size area)"
  by (simp add: image_area_def)

lemma image_reads:
  assumes "image_area fl i area img st"
  shows "reads_more (buf_read (take n (img d))) (flash_image_read_fn (Some fl) d (Some area))"
proof -
  obtain f where f: "fl_read fl = Some f" "\<And>off n. off + n \<le> unat (fa_size area) \<Longrightarrow> f d area off n = (ERR_OK, take n (drop off (img d)))"
    using assms by (auto simp: image_area_def)
  show ?thesis using f image_length [OF assms, of d]
    by (auto simp: reads_more_def extends_def buf_read_def mem_read_def flash_image_read_fn_def flash_area_read_operation_def
        bind_eq_Some_conv min_def drop_take split: if_splits)
qed

lemma image_write:
  assumes "image_area fl i area img st" "flash_works fl" "img d = xs @ replicate (length bs) 0xFF @ zs" "length xs = off"
  obtains d' where "flash_area_write_operation (Some fl) d area off bs = Some (ERR_OK, d')" "img d' = xs @ bs @ zs" "st d' = st d"
proof -
  obtain f where f: "fl_write fl = Some f" "\<forall>d off bs rc d'. off + length bs \<le> unat (fa_size area) \<longrightarrow> f d area off bs = (rc, d') \<longrightarrow>
        st d' = st d \<and> (rc = ERR_OK \<longrightarrow> take (length bs) (drop off (img d)) = replicate (length bs) 0xFF \<longrightarrow>
          img d' = take off (img d) @ bs @ drop (off + length bs) (img d))" using assms(1) by (auto simp: image_area_def)
  obtain rc d' where r: "f d area off bs = (rc, d')" by fastforce
  then have "rc = ERR_OK" using assms(2) f(1) unfolding flash_works_def by (metis fst_conv)
  moreover have "off + length bs \<le> unat (fa_size area)" unfolding image_length [OF assms(1), of d, symmetric] using assms(3,4) by simp
  moreover have "take (length bs) (drop off (img d)) = replicate (length bs) 0xFF" using assms(3,4) by simp
  ultimately have "st d' = st d" "img d' = take off (img d) @ bs @ drop (off + length bs) (img d)" using f(2) r by blast+
  then show ?thesis using that f(1) r \<open>rc = ERR_OK\<close> assms(3,4) by (simp add: flash_area_write_operation_def)
qed

lemma image_erase:
  assumes "image_area fl i area img st" "flash_works fl" "n \<le> unat (fa_size area)"
  obtains d' where "flash_area_erase_operation (Some fl) d area 0 n = Some (ERR_OK, d')" "take n (img d') = replicate n 0xFF" "st d' = st d"
proof -
  obtain f where f: "fl_erase fl = Some f" "\<forall>d n rc d'. n \<le> unat (fa_size area) \<longrightarrow> f d area 0 n = (rc, d') \<longrightarrow>
        st d' = st d \<and> (rc = ERR_OK \<longrightarrow> take n (img d') = replicate n 0xFF)" using assms(1) by (auto simp: image_area_def)
  obtain rc d' where r: "f d area 0 n = (rc, d')" by fastforce
  then have "rc = ERR_OK" using assms(2) f(1) unfolding flash_works_def by (metis fst_conv)
  then show ?thesis using that f r assms(3) by (simp add: flash_area_erase_operation_def)
qed

subsection \<open>Download\<close>

text \<open>A hook that delivers the bytes of a source, in parts of its own choice.\<close>

definition delivers :: "'p down_load_hook \<Rightarrow> ('p \<Rightarrow> u8 list) \<Rightarrow> bool" where
  "delivers hook src \<longleftrightarrow> (\<forall>p want. 0 < want \<longrightarrow> want \<le> length (src p) \<longrightarrow>
     (\<exists>bytes p'. hook p want = (ERR_OK, bytes, int (length bytes), p') \<and> bytes \<noteq> [] \<and> length bytes \<le> want \<and> src p = bytes @ src p'))"

lemma download_loop_law:
  assumes "image_area fl i area img st" "flash_works fl" "delivers hook src"
  shows "received \<le> total_len \<Longrightarrow> total_len - received \<le> length (src p) \<Longrightarrow> length (s_load_buffer b) = MINI_BOOT_LOAD_MAX \<Longrightarrow>
    img (s_dev b) = pre @ replicate (total_len - received) 0xFF @ post \<Longrightarrow> length pre = received \<Longrightarrow>
    \<exists>p' buf d. download_loop (Some fl) ops area hook total_len received p b = Some (ERR_OK, p', b\<lparr>s_load_buffer := buf, s_dev := d\<rparr>) \<and>
      img d = pre @ take (total_len - received) (src p) @ post \<and> st d = st (s_dev b) \<and> src p' = drop (total_len - received) (src p) \<and>
      length buf = MINI_BOOT_LOAD_MAX"
proof (induction "total_len - received" arbitrary: received p b pre rule: less_induct)
  case less
  show ?case
  proof (cases "received < total_len")
    case False
    then show ?thesis using less.prems
      by (intro exI [of _ p] exI [of _ "s_load_buffer b"] exI [of _ "s_dev b"]) simp
  next
    case True
    let ?want = "if MINI_BOOT_LOAD_MAX < total_len - received then MINI_BOOT_LOAD_MAX else total_len - received"
    have w: "0 < ?want" "?want \<le> length (src p)" "?want \<le> MINI_BOOT_LOAD_MAX" "?want \<le> total_len - received"
      using True less.prems(2) by (auto simp: MINI_BOOT_LOAD_MAX_def)
    obtain bytes p1 where h: "hook p ?want = (ERR_OK, bytes, int (length bytes), p1)" "bytes \<noteq> []" "length bytes \<le> ?want" "src p = bytes @ src p1"
      using assms(3) w(1,2) unfolding delivers_def by blast
    let ?buf = "blit (s_load_buffer b) 0 bytes"
    have l: "length bytes \<le> length (s_load_buffer b)" "length bytes \<le> total_len - received" using h(3) w(3,4) less.prems(3) by linarith+
    have lb: "total_len - (received + length bytes) < total_len - received" using h(2) l(2) True by (cases bytes) auto
    have m: "mem_copy (s_load_buffer b) 0 bytes 0 (length bytes) = Some ?buf" using l(1) by (simp add: mem_copy_def)
    have s: "img (s_dev b) = pre @ replicate (length bytes) 0xFF @ (replicate (total_len - (received + length bytes)) 0xFF @ post)"
      using less.prems(4) l(2) by (simp add: replicate_add [symmetric] flip: append_assoc) 
    obtain d1 where d1: "flash_area_write_operation (Some fl) (s_dev b) area received bytes = Some (ERR_OK, d1)"
      "img d1 = pre @ bytes @ (replicate (total_len - (received + length bytes)) 0xFF @ post)" "st d1 = st (s_dev b)"
      using image_write [OF assms(1,2) s less.prems(5)] by blast
    let ?b = "b\<lparr>s_load_buffer := ?buf, s_dev := d1\<rparr>"
    have step: "download_loop (Some fl) ops area hook total_len received p b =
        download_loop (Some fl) ops area hook total_len (received + length bytes) p1 ?b"
      using True h m l(1) d1(1) take_blit_start [OF l(1)] by (subst download_loop.simps) (auto simp: Let_def)
    have "\<exists>p' buf d. download_loop (Some fl) ops area hook total_len (received + length bytes) p1 ?b =
          Some (ERR_OK, p', ?b\<lparr>s_load_buffer := buf, s_dev := d\<rparr>) \<and>
        img d = (pre @ bytes) @ take (total_len - (received + length bytes)) (src p1) @ post \<and> st d = st (s_dev ?b) \<and>
        src p' = drop (total_len - (received + length bytes)) (src p1) \<and> length buf = MINI_BOOT_LOAD_MAX"
      using less.prems l h(4) d1(2) True by (intro less.hyps [OF lb]) auto
    then show ?thesis unfolding step using d1(3) h(4) l(2) by (auto simp: diff_diff_left)
  qed
qed


lemma download_law:
  assumes "image_area fl (flash_inactive_area_id dual b) area img st" "flash_works fl" "delivers hook src"
    "ota_is_open b \<noteq> 0" "0 < total_len" "total_len \<le> unat (fa_size area)" "total_len \<le> length (src p)" "length (s_load_buffer b) = MINI_BOOT_LOAD_MAX"
  shows "\<exists>p' buf d. mini_boot_source_download_stream (Some fl) ops dual b (Some hook) p total_len =
      Some (ERR_OK, p', b\<lparr>s_load_buffer := buf, s_dev := d, s_downloaded_size := total_len\<rparr>) \<and>
    take total_len (img d) = take total_len (src p) \<and> src p' = drop total_len (src p) \<and> st d = st (s_dev b)"
proof -
  obtain d0 where d0: "flash_area_erase_operation (Some fl) (s_dev b) area 0 total_len = Some (ERR_OK, d0)"
    "take total_len (img d0) = replicate total_len 0xFF" "st d0 = st (s_dev b)" using image_erase [OF assms(1,2,6)] by blast
  let ?b = "b\<lparr>s_dev := d0\<rparr>"
  have i: "img (s_dev ?b) = [] @ replicate (total_len - 0) 0xFF @ drop total_len (img d0)"
    using d0(2) append_take_drop_id [of total_len "img d0"] by simp
  obtain p' buf d where "download_loop (Some fl) ops area hook total_len 0 p ?b = Some (ERR_OK, p', ?b\<lparr>s_load_buffer := buf, s_dev := d\<rparr>)"
    "img d = [] @ take (total_len - 0) (src p) @ drop total_len (img d0)" "st d = st (s_dev ?b)" "src p' = drop (total_len - 0) (src p)"
    using download_loop_law [OF assms(1-3) _ _ _ i, where p = p and ops = ops] assms(7,8) by auto
  then show ?thesis using assms(4,5,7) d0(1,3) image_open [OF assms(1)]
    by (intro exI [of _ p'] exI [of _ buf] exI [of _ d]) (simp add: mini_boot_source_download_stream_def min_def)
qed


subsection \<open>Activation\<close>

lemma inactive_id: "flash_inactive_area_id dual b = FLASH_AREA_ID_IMAGE_1 \<longleftrightarrow> dual \<and> \<not> tr_current (trial_of (s_ota_state b))"
  by (simp add: flash_inactive_area_id_def flag_getters trial_of_def FLASH_AREA_ID_IMAGE_0_def FLASH_AREA_ID_IMAGE_1_def OTA_STATE_PARTITION_IMAGE_1_def)

lemma area_ids:
  "flash_active_area_id b = (if tr_current (trial_of (s_ota_state b)) then FLASH_AREA_ID_IMAGE_1 else FLASH_AREA_ID_IMAGE_0)"
  "flash_inactive_area_id True b = (if tr_current (trial_of (s_ota_state b)) then FLASH_AREA_ID_IMAGE_0 else FLASH_AREA_ID_IMAGE_1)"
  by (simp_all add: flash_active_area_id_def flash_inactive_area_id_def flag_getters trial_of_def OTA_STATE_PARTITION_IMAGE_1_def)

lemma keys_apart: "flash_inactive_area_id dual (b\<lparr>s_keys := k\<rparr>) = flash_inactive_area_id dual b" "ota_is_rollback (b\<lparr>s_keys := k\<rparr>) = ota_is_rollback b"
  by (simp_all add: flash_inactive_area_id_def flag_getters)

definition activate_word :: "bool \<Rightarrow> bool \<Rightarrow> u32" where
  "activate_word part pending = (if part then OTA_STATE_MASK_CURRENT else 0) OR (if pending then OTA_STATE_MASK_PENDING else 0)"

lemma trial_activate: "trial_of (activate_word part pending) = tr_activate part pending"
  by (simp add: activate_word_def tr_activate_def trial_of_def ota_bits bit_simps)

lemma start_eq:
  assumes "image_area fl (flash_inactive_area_id dual b) area img st" "ota_is_open b \<noteq> 0" "s_downloaded_size b \<noteq> 0"
    "image_verify_stream mb (Some (buf_read (take (s_downloaded_size b) (img (s_dev b))))) (s_downloaded_size b)
       (Some \<lparr>cfg_key = boot_key_get (s_keys b), cfg_mac_key = None\<rparr>) True MINI_BOOT_LOAD_MAX = Some (rc, crc)"
  shows "mini_boot_start_ota mb (Some fl) ops dual b =
    (let b = b\<lparr>s_keys := boot_key_wipe (s_keys b)\<rparr> in
     if rc \<noteq> ERR_OK then do { (_, b) \<leftarrow> ota_fail_set ops b OTA_FAIL_VERIFY; Some (rc, b) }
     else do {
       (rc, b) \<leftarrow> state_update ops b trial_mask (activate_word (flash_inactive_area_id dual b = FLASH_AREA_ID_IMAGE_1) (dual \<and> ota_is_rollback b \<noteq> 0));
       if dual \<and> rc \<noteq> ERR_OK then Some (rc, b) else Some (ERR_OK, b) })"
proof -
  have "image_verify_stream mb (Some (flash_image_read_fn (Some fl) (s_dev b) (Some area))) (s_downloaded_size b)
       (Some \<lparr>cfg_key = boot_key_get (s_keys b), cfg_mac_key = None\<rparr>) True MINI_BOOT_LOAD_MAX = Some (rc, crc)"
    using verify_stream_more [OF image_reads [OF assms(1)]] assms(4) unfolding extends_def by blast
  then show ?thesis using assms(2,3) image_open [OF assms(1)]
    by (simp add: mini_boot_start_ota_def activate_word_def keys_apart Let_def cong: if_cong flip: trial_mask_def)
qed


context state_store
begin

lemma start_law:
  assumes "image_area fl (flash_inactive_area_id dual b) area img st" "ota_is_open b \<noteq> 0" "s_downloaded_size b \<noteq> 0"
    "image_verify_stream mb (Some (buf_read (take (s_downloaded_size b) (img (s_dev b))))) (s_downloaded_size b)
       (Some \<lparr>cfg_key = boot_key_get (s_keys b), cfg_mac_key = None\<rparr>) True MINI_BOOT_LOAD_MAX = Some (rc, crc)" "sinv (s_dev b)"
  shows "\<exists>b'. mini_boot_start_ota mb (Some fl) (Some ops) dual b = Some (rc, b') \<and> sinv (s_dev b') \<and> s_keys b' = boot_key_wipe (s_keys b) \<and>
    (let t = (\<lambda>t. if rc = ERR_OK then tr_activate (flash_inactive_area_id dual b = FLASH_AREA_ID_IMAGE_1) (dual \<and> ota_is_rollback b \<noteq> 0)
              else t\<lparr>tr_fail := unat OTA_FAIL_VERIFY\<rparr>) in
     fields b' = t (fields b) \<and> trial_of (s_ota_state b') = t (trial_of (s_ota_state b)))"
proof -
  let ?b = "b\<lparr>s_keys := boot_key_wipe (s_keys b)\<rparr>"
  let ?w = "activate_word (flash_inactive_area_id dual ?b = FLASH_AREA_ID_IMAGE_1) (dual \<and> ota_is_rollback ?b \<noteq> 0)"
  have i: "sinv (s_dev ?b)" and f: "fields ?b = fields b" using assms(5) by (simp_all add: fields_def)
  show ?thesis
  proof (cases "rc = ERR_OK")
    case True
    then show ?thesis using start_eq [OF assms(1-4)] update_fields [OF i trial_replace trial_mask_durable, of ?w]
      by (auto simp: does_def trial_activate keys_apart same_run_def)
  next
    case False
    then show ?thesis using start_eq [OF assms(1-4)] fail_law [OF i, of OTA_FAIL_VERIFY] f
      by (auto simp: does_def same_run_def OTA_FAIL_VERIFY_def)
  qed
qed

end


subsection \<open>A packed image\<close>

lemma packed_verifies:
  assumes "compatible pc mb" "mbedtls_streams mb" "table_cache_ok cache" "length key \<in> {16, 24, 32}"
    "length rnd = (if mode = IMAGE_CHECK_GCM then 12 else 16)" "length version < 256" "length tag < 256"
    "make_image pc cache rnd fw version tag is_front mode key [] crc_defaults = Some (packed, cache')" "length packed < 2 ^ 32"
  shows "\<exists>crc. image_verify_stream mb (Some (buf_read packed)) (length packed) (Some \<lparr>cfg_key = Some key, cfg_mac_key = None\<rparr>) True MINI_BOOT_LOAD_MAX =
    Some (ERR_OK, crc)" "8 \<le> length packed"
proof -
  have cf: "\<lparr>cfg_key = Some key, cfg_mac_key = None\<rparr> = device_cfg key []" by (simp add: device_cfg_def)
  obtain payload aux c where p: "pack_payload pc rnd fw mode key (if ([] :: u8 list) \<noteq> [] then [] else key) = Some (payload, aux)"
      "length aux = aux_size mode"
      "make_image pc cache rnd fw version tag is_front mode key [] crc_defaults =
         Some (image_bytes is_front mode version tag aux payload (device_crc payload), c)"
      "length payload \<le> length (image_bytes is_front mode version tag aux payload (device_crc payload))"
    using make_image_eq [OF assms(1,3-7), of fw "[]" is_front] by blast
  have im: "packed = image_bytes is_front mode version tag aux payload (device_crc payload)" using p(3) assms(8) by simp
  have lo: "length payload \<le> length (replicate (length packed) (0 :: u8))" using p(4) im by simp
  obtain o' w c' where r: "image_read_payload mb (Some packed) (length packed) (Some (device_cfg key [])) (Some (replicate (length packed) 0)) (length (replicate (length packed) (0 :: u8))) =
      Some (ERR_OK, Some o', Some (length fw), Some w, c')"
    using read_packed [OF assms(1,4,5) p(1,2) assms(6,7) lo, of is_front] im by blast
  obtain v where v: "image_parse (Some packed) (length packed) True = Some (ERR_OK, Some v)"
    using parse_image_bytes [OF assms(6,7) p(2), of is_front payload "device_crc payload"] unfolding im by metis
  have k: "good_key (device_cfg key [])" using assms(4) by (auto simp: good_key_def device_cfg_def)
  obtain r1 where "verify_mode mb (buf_read packed) MINI_BOOT_LOAD_MAX (device_cfg key []) v = Some r1" "agree (vw_mode v) r1 ERR_OK"
    using read_agree [OF assms(2,9) _ _ k _ v, of MINI_BOOT_LOAD_MAX "replicate (length packed) 0"] r by (auto simp: MINI_BOOT_LOAD_MAX_def)
  then have "verify_mode mb (buf_read packed) MINI_BOOT_LOAD_MAX (device_cfg key []) v = Some ERR_OK"
    by (auto simp: agree_def split: if_splits)
  then show "\<exists>crc. image_verify_stream mb (Some (buf_read packed)) (length packed) (Some \<lparr>cfg_key = Some key, cfg_mac_key = None\<rparr>) True MINI_BOOT_LOAD_MAX =
      Some (ERR_OK, crc)"
    using stream_eq [of MINI_BOOT_LOAD_MAX mb packed "device_cfg key []"] v by (simp add: MINI_BOOT_LOAD_MAX_def cf)
  show "8 \<le> length packed" using v by (rule_tac ccontr) (simp add: parse_eq)
qed


lemma stored_same:
  assumes "flash_store_inv fl area mem d" "mem d' = mem d"
  shows "flash_store_inv fl area mem d'" "stored_trial fl d' = stored_trial fl d"
proof -
  obtain recs where r: "state_area fl area mem" "sector_ok (mem d) recs" using assms(1) by (auto simp: flash_store_inv_def)
  show "flash_store_inv fl area mem d'" using assms by (simp add: flash_store_inv_def)
  show "stored_trial fl d' = stored_trial fl d"
    using flash_load_log [OF r] flash_load_log [OF r(1), of d' recs] r(2) assms(2) by (simp add: stored_trial_def flash_val_def)
qed

subsection \<open>After an activation\<close>

text \<open>Events between two resets in which nobody confirms the image or chooses a partition; events that choose none.\<close>

fun quiet :: "ota_event \<Rightarrow> bool" where
  "quiet Ev_boot = False"
| "quiet Ev_confirm = False"
| "quiet (Ev_partition p) = False"
| "quiet _ = True"

fun no_choice :: "ota_event \<Rightarrow> bool" where
  "no_choice (Ev_partition p) = False"
| "no_choice _ = True"

lemma quiet_fields: "list_all quiet es \<Longrightarrow> \<exists>f. fold tr_event es t = t\<lparr>tr_fail := f\<rparr>"
proof (induction es arbitrary: t)
  case Nil
  show ?case by (rule exI [of _ "tr_fail t"]) simp
next
  case (Cons e es)
  then obtain g where g: "tr_event e t = t\<lparr>tr_fail := g\<rparr>" by (cases e) (auto intro: that [of "tr_fail t"])
  have "\<exists>f. fold tr_event es (t\<lparr>tr_fail := g\<rparr>) = t\<lparr>tr_fail := g, tr_fail := f\<rparr>" by (rule Cons.IH) (use Cons.prems in simp)
  with g show ?case by simp
qed

lemma settled_fields:
  "list_all no_choice es \<Longrightarrow> \<not> tr_pending t \<Longrightarrow> tr_current (fold tr_event es t) = tr_current t"
proof (induction es arbitrary: t)
  case (Cons e es)
  then have "\<not> tr_pending (tr_event e t)" "tr_current (tr_event e t) = tr_current t"
    by (cases e; simp add: tr_boot_def tr_confirm_def)+
  with Cons show ?case by simp
qed simp

lemma trial_outcomes:
  assumes "list_all quiet es" "list_all no_choice later"
  shows "tr_current (fold tr_event (Ev_boot # es) (tr_activate part True)) = part"
    "fold tr_event (Ev_boot # es @ [Ev_boot]) (tr_activate part True) = \<lparr>tr_current = \<not> part, tr_pending = False, tr_trial = False, tr_fail = unat OTA_FAIL_VERIFY\<rparr>"
    "tr_current (fold tr_event (Ev_boot # es @ Ev_confirm # later) (tr_activate part True)) = part"
proof -
  let ?t = "\<lparr>tr_current = part, tr_pending = True, tr_trial = True, tr_fail = 0\<rparr>"
  have b: "tr_event Ev_boot (tr_activate part True) = ?t" by (simp add: tr_boot_def tr_activate_def)
  obtain f where f: "fold tr_event es ?t = ?t\<lparr>tr_fail := f\<rparr>" using quiet_fields [OF assms(1)] by blast
  show "tr_current (fold tr_event (Ev_boot # es) (tr_activate part True)) = part" using b f by simp
  show "fold tr_event (Ev_boot # es @ [Ev_boot]) (tr_activate part True) =
      \<lparr>tr_current = \<not> part, tr_pending = False, tr_trial = False, tr_fail = unat OTA_FAIL_VERIFY\<rparr>" using b f by (simp add: tr_boot_def)
  show "tr_current (fold tr_event (Ev_boot # es @ Ev_confirm # later) (tr_activate part True)) = part"
    using b f settled_fields [OF assms(2), of "tr_confirm (?t\<lparr>tr_fail := f\<rparr>)"] by (simp add: tr_confirm_def)
qed

subsection \<open>A device with several areas\<close>

text \<open>Every area has 64 bytes; calls never fail.\<close>

definition area_of :: "u32 \<Rightarrow> flash_area" where
  "area_of i = \<lparr>fa_id = i, fa_device_id = 0, fa_offset = i * 64, fa_size = 64\<rparr>"

definition area_bytes :: "u32 \<Rightarrow> (u32 \<Rightarrow> u8 list) \<Rightarrow> u8 list" where
  "area_bytes i d = take 64 (d i @ replicate 64 0xFF)"

definition areas_flash :: "(u32 \<Rightarrow> u8 list) flash_ops_t" where
  "areas_flash = \<lparr>fl_open = Some (\<lambda>d i. (ERR_OK, Some (area_of i))),
     fl_erase = Some (\<lambda>d a off n. (ERR_OK, d(fa_id a := blit (area_bytes (fa_id a) d) off (replicate n 0xFF)))),
     fl_write = Some (\<lambda>d a off bs. (ERR_OK, d(fa_id a := blit (area_bytes (fa_id a) d) off bs))),
     fl_read = Some (\<lambda>d a off n. (ERR_OK, take n (drop off (area_bytes (fa_id a) d)))), fl_get_sectors = None\<rparr>"

lemma length_area: "length (area_bytes i d) = 64"
  by (simp add: area_bytes_def)

lemma area_update: "length m = 64 \<Longrightarrow> area_bytes i (d(j := m)) = (if i = j then m else area_bytes i d)"
  by (simp add: area_bytes_def)

lemma area_blit: "off + length bs \<le> 64 \<Longrightarrow> area_bytes i (d(j := blit (area_bytes j d) off bs)) =
    (if i = j then take off (area_bytes j d) @ bs @ drop (off + length bs) (area_bytes j d) else area_bytes i d)"
  by (subst area_update) (simp_all add: length_area, simp add: blit_def)

lemma areas_works: "flash_works areas_flash"
  by (simp add: flash_works_def areas_flash_def)

lemma areas_state: "state_area areas_flash (area_of 3) (area_bytes 3)"
proof -
  have "nor_flash areas_flash (area_of 3) (area_bytes 3)" unfolding nor_flash_def
    by (intro conjI exI) (auto simp: areas_flash_def area_of_def FLASH_AREA_ID_STATE_def length_area area_blit)
  then show ?thesis by (simp add: state_area_def area_of_def OTA_STATE_REC_BYTES_def)
qed

lemma areas_image: "i \<noteq> 3 \<Longrightarrow> image_area areas_flash i (area_of i) (area_bytes i) (area_bytes 3)"
  unfolding image_area_def by (intro conjI exI) (auto simp: areas_flash_def area_of_def length_area area_blit)

lemma areas_blank: "flash_store_inv areas_flash (area_of 3) (area_bytes 3) (\<lambda>i. [])"
proof -
  have "area_bytes 3 (\<lambda>i. []) = log_image [] @ replicate 64 0xFF" by (simp add: area_bytes_def)
  then have "sector_ok (area_bytes 3 (\<lambda>i. [])) []" using sector_blank [of "[]" 64] by (metis list.pred_inject(1))
  then show ?thesis using areas_state areas_works by (auto simp: flash_store_inv_def)
qed


subsection \<open>Properties\<close>


text \<open>A device with bytes in its second partition, updates and rollback switched on.\<close>

definition loaded_boot :: "u8 list \<Rightarrow> nat \<Rightarrow> (u32 \<Rightarrow> u8 list) mini_boot" where
  "loaded_boot bytes n = (fresh_boot (\<lambda>i. if i = 1 then bytes else []))\<lparr>s_ota_state := 5, s_downloaded_size := n\<rparr>"

lemma loaded_sector: "area_bytes 3 (s_dev (loaded_boot bytes n)) = area_bytes 3 (\<lambda>i. [])"
  by (simp add: loaded_boot_def fresh_boot_def area_bytes_def)

lemma areas_loaded: "flash_store_inv areas_flash (area_of 3) (area_bytes 3) (s_dev (loaded_boot bytes n))"
  using areas_blank by (simp add: flash_store_inv_def loaded_sector)

lemma stored_loaded: "stored_trial areas_flash (s_dev (loaded_boot bytes n)) = trial_of 0"
proof -
  have "sector_ok (area_bytes 3 (s_dev (loaded_boot bytes n))) []"
    using sector_blank [of "[]" 64] by (simp add: loaded_sector) (simp add: area_bytes_def)
  from flash_load_log [where mem = "area_bytes 3", OF areas_state this] show ?thesis
    by (simp add: stored_trial_def flash_val_def state_of_def)
qed

lemma loaded_state:
  "trial_of (s_ota_state (loaded_boot bytes n)) = trial_of 0" "ota_is_open (loaded_boot bytes n) = 1" "ota_is_rollback (loaded_boot bytes n) = 1"
  "flash_inactive_area_id True (loaded_boot bytes n) = 1" "s_downloaded_size (loaded_boot bytes n) = n"
  by (simp_all add: loaded_boot_def fresh_boot_def flag_getters trial_of_def flash_inactive_area_id_def OTA_STATE_PARTITION_IMAGE_1_def
      FLASH_AREA_ID_IMAGE_1_def)

definition cbc_image :: "u8 list" where
  "cbc_image = replicate 20 7 @ [0xA5, 3, 0, 0]"

lemma cbc_image_accepted:
  "\<exists>crc. image_verify_stream plain_crypto (Some (buf_read cbc_image)) 24 (Some cf) True MINI_BOOT_LOAD_MAX = Some (ERR_OK, Some crc)"
proof -
  have l: "length cbc_image = 24" and m: "take 4 (drop 20 cbc_image) = [0xA5, 3, 0, 0]" by (simp_all add: cbc_image_def)
  have d: "meta_decode [0xA5, 3, 0, 0] = (ERR_OK, Some (IMAGE_CHECK_CBC, False, 0, 0))"
    by (simp add: meta_decode_def IMAGE_META_MAGIC_def check_of_def)
  have "image_parse (Some cbc_image) (length cbc_image) True = Some (ERR_OK, Some (view_at cbc_image IMAGE_CHECK_CBC False 0 0))"
    unfolding parse_eq using l m d by (simp add: aux_size_def image_aux_len_def)
  moreover have "16 \<le> MINI_BOOT_LOAD_MAX" by (simp add: MINI_BOOT_LOAD_MAX_def)
  ultimately show ?thesis using stream_eq [of MINI_BOOT_LOAD_MAX plain_crypto cbc_image cf] l
    by (simp add: verify_mode_def view_at_def Let_def)
qed



text \<open>
  C9. A download stores what the source delivers. Whatever the sizes of the parts the hook returns, the inactive partition then
  starts with the first \<open>total_len\<close> bytes of the source, exactly these have been consumed, the length is recorded
  for the verification, and the sector of the state is untouched.
\<close>

theorem ota_download_stores:
  assumes "image_area fl (flash_inactive_area_id dual b) area img st" "flash_works fl" "delivers hook src" "ota_is_open b \<noteq> 0"
    "0 < total_len" "total_len \<le> unat (fa_size area)" "total_len \<le> length (src p)" "length (s_load_buffer b) = MINI_BOOT_LOAD_MAX"
  shows "\<exists>p' b'. mini_boot_source_download_stream (Some fl) ops dual b (Some hook) p total_len = Some (ERR_OK, p', b') \<and>
    take total_len (img (s_dev b')) = take total_len (src p) \<and> src p' = drop total_len (src p) \<and> s_downloaded_size b' = total_len \<and>
    s_ota_state b' = s_ota_state b \<and> st (s_dev b') = st (s_dev b)"
  using download_law [OF assms, of ops] by fastforce

text \<open>A source in memory, delivered in parts of at most seven bytes.\<close>

definition list_hook :: "u8 list down_load_hook" where
  "list_hook p want = (let k = min 7 (min want (length p)) in (ERR_OK, take k p, int k, drop k p))"

lemma list_delivers: "delivers list_hook (\<lambda>p. p)"
  unfolding delivers_def
proof (intro allI impI)
  fix p :: "u8 list" and want :: nat assume w: "0 < want" "want \<le> length p"
  show "\<exists>bytes p'. list_hook p want = (ERR_OK, bytes, int (length bytes), p') \<and> bytes \<noteq> [] \<and> length bytes \<le> want \<and> p = bytes @ p'"
    using w by (intro exI [of _ "take (min 7 want) p"] exI [of _ "drop (min 7 want) p"]) (auto simp: list_hook_def Let_def min_def)
qed

theorem ota_download_stores_witness:
  "\<exists>p' b'. mini_boot_source_download_stream (Some areas_flash) None True (loaded_boot [] 0) (Some list_hook) (replicate 40 9) 30 = Some (ERR_OK, p', b') \<and>
    take 30 (area_bytes 1 (s_dev b')) = replicate 30 9 \<and> p' = replicate 10 9 \<and> s_downloaded_size b' = 30"
proof -
  have a: "image_area areas_flash (flash_inactive_area_id True (loaded_boot [] 0)) (area_of 1) (area_bytes 1) (area_bytes 3)"
    unfolding loaded_state by (rule areas_image) simp
  have "unat (fa_size (area_of 1)) = 64" "length (s_load_buffer (loaded_boot [] 0)) = MINI_BOOT_LOAD_MAX"
    by (simp_all add: area_of_def loaded_boot_def fresh_boot_def)
  then show ?thesis using ota_download_stores [OF a areas_works list_delivers, of 30 "replicate 40 9" None]
    by (auto simp: loaded_state)
qed

subsection \<open>The jump\<close>

definition app_ok :: "(u32 \<Rightarrow> u32) \<Rightarrow> u32 \<Rightarrow> u32 \<Rightarrow> mini_boot_app_area \<Rightarrow> bool" where
  "app_ok word_at sram_start sram_size app \<longleftrightarrow>
     (let a = initial_addr app; sp = word_at a; pc = word_at (a + 4) in
      a \<noteq> 0 \<and> 128 dvd unat a \<and> 4 dvd unat sp \<and> odd (unat pc) \<and>
      unat sp \<in> {unat sram_start .. unat sram_start + unat sram_size} \<and> unat pc \<in> {unat a ..< unat a + unat (app_size app)})"

definition image_ok :: "('s, 'h, 'g, 'a) mbedtls \<Rightarrow> 'd flash_ops_t option \<Rightarrow> 'd mini_boot \<Rightarrow> mini_boot_app_area \<Rightarrow> bool" where
  "image_ok mb fl b app \<longleftrightarrow> 8 \<le> image_len app \<and>
     (\<exists>area crc. flash_area_open fl (s_dev b) (app_fa_id app) = Some (ERR_OK, Some area) \<and> image_len app \<le> unat (fa_size area) \<and>
        image_verify_stream mb (Some (flash_image_read_fn fl (s_dev b) (Some area))) (image_len app)
          (Some \<lparr>cfg_key = boot_key_get (s_keys b), cfg_mac_key = None\<rparr>) True MINI_BOOT_LOAD_MAX = Some (ERR_OK, crc))"

lemma take_bit_dvd: "take_bit n w = 0 \<longleftrightarrow> 2 ^ n dvd unat w" for w :: "'w::len word"
  by (metis dvd_eq_mod_eq_0 take_bit_eq_mod unat_eq_0 unsigned_take_bit_eq)

lemma low_masks: "w AND 0x7F = 0 \<longleftrightarrow> 128 dvd unat w" "w AND 3 = 0 \<longleftrightarrow> 4 dvd unat w" "w AND 1 = 0 \<longleftrightarrow> even (unat w)" for w :: u32
  using take_bit_dvd [of 7 w] take_bit_dvd [of 2 w] take_bit_dvd [of 1 w]
  by (simp_all add: take_bit_eq_mask mask_eq_exp_minus_1)

lemma backup_ok:
  "(mini_boot_backup mb fl b (Some \<lparr>bp_partition = app_fa_id app, bp_size = image_len app, bp_key = boot_key_get (s_keys b), bp_mac_key = None\<rparr>) =
     Some ERR_OK) \<longleftrightarrow> image_ok mb fl b app"
proof (cases "flash_area_open fl (s_dev b) (app_fa_id app)")
  case (Some r)
  then show ?thesis by (cases r; cases "snd r") (auto simp: mini_boot_backup_def image_ok_def bind_eq_Some_conv)
qed (simp add: mini_boot_backup_def image_ok_def)

lemma app_ok_iff:
  assumes "unat sram_start + unat sram_size < 2 ^ 32" "unat (initial_addr app) + unat (app_size app) < 2 ^ 32"
  shows "app_ok word_at sram_start sram_size app \<longleftrightarrow>
    \<not> (initial_addr app = 0 \<or> initial_addr app AND 0x7F \<noteq> 0) \<and>
    \<not> (word_at (initial_addr app) < sram_start \<or> sram_start + sram_size < word_at (initial_addr app) \<or> word_at (initial_addr app) AND 0x3 \<noteq> 0) \<and>
    \<not> (word_at (initial_addr app + 4) < initial_addr app \<or> initial_addr app + app_size app \<le> word_at (initial_addr app + 4) \<or>
       word_at (initial_addr app + 4) AND 0x1 = 0)"
proof -
  have "unat (sram_start + sram_size) = unat sram_start + unat sram_size" "unat (initial_addr app + app_size app) = unat (initial_addr app) + unat (app_size app)"
    using assms by (simp_all add: unat_word_ariths)
  then show ?thesis by (auto simp: app_ok_def Let_def low_masks word_less_nat_alt word_le_nat_alt)
qed

text \<open>
  C10. The loader jumps only into a plausible application. On a board whose RAM and whose partition end below the end of the address
  space, a jump happens exactly when the vector table is aligned to 128 bytes and not at zero, its stack pointer lies in RAM
  and is aligned, its entry lies inside the partition and has the Thumb bit, and, where an image length is given, the
  image in the partition's area has just been verified. The accesses of a jump are always the same: interrupts off, timer
  and interrupt controller cleared, vector table, stack pointers, barriers, jump.
\<close>

theorem boot_jump_checked:
  assumes "unat sram_start + unat sram_size < 2 ^ 32" "unat (initial_addr app) + unat (app_size app) < 2 ^ 32"
  shows "boot_jump_switch_app mb fl word_at sram_start sram_size b app = Some (Inr hw) \<longleftrightarrow>
    app_ok word_at sram_start sram_size app \<and> (image_len app = 0 \<or> image_ok mb fl b app) \<and>
    hw = [Irq_disable, Systick_ctrl 0, Systick_val 0] @ mini_boot_clear_nvic @
      [Set_vtor (initial_addr app), Psp_to_msp, Set_psp 0, Dsb, Isb, Jump_to_app (word_at (initial_addr app)) (word_at (initial_addr app + 4))]"
  unfolding app_ok_iff [OF assms] backup_ok [symmetric] boot_jump_switch_app_def
  by (auto simp: mini_boot_set_systick_def Let_def bind_eq_Some_conv split: if_splits)

theorem boot_jump_checked_witness:
  "boot_jump_switch_app plain_crypto (Some areas_flash) (\<lambda>a. if a = 0x8004000 then 0x20005000 else if a = 0x8004004 then 0x8004101 else 0) 0x20000000 0x5000
      (loaded_boot [] 0) \<lparr>initial_addr = 0x8004000, app_size = 0x4000, app_fa_id = 1, image_len = 0\<rparr> =
    Some (Inr ([Irq_disable, Systick_ctrl 0, Systick_val 0] @ mini_boot_clear_nvic @
      [Set_vtor 0x8004000, Psp_to_msp, Set_psp 0, Dsb, Isb, Jump_to_app 0x20005000 0x8004101]))"
  by (subst boot_jump_checked) (simp_all add: app_ok_def Let_def)

end
