(* ===== verification/Dev_Lifecycle.thy ===== *)
theory Dev_Lifecycle
  imports Status Bare_Backend
begin

text \<open>
  \<^verbatim>\<open>board/src/dev_lifecycle.c\<close>: the state machine that guards a device against removal while it is open or does I/O. First the
  functions as one thread runs them without interference, then the interleaving of any number of threads and one
  remover as a step relation over single atomic accesses.
\<close>

datatype dev_lc_state_t = DEV_LC_UNINITIALIZED | DEV_LC_LIVE | DEV_LC_REMOVING | DEV_LC_DEAD

record dev_lifecycle =
  opens :: int
  io_active :: int
  lc_state :: dev_lc_state_t

definition DEV_LC_LOCKED :: int where "DEV_LC_LOCKED = - 1"

subsection \<open>The functions\<close>

definition dev_lc_init :: "dev_lifecycle option \<Rightarrow> dev_lifecycle option" where
  "dev_lc_init lc = map_option (\<lambda>lc. lc\<lparr>opens := 0, io_active := 0, lc_state := DEV_LC_LIVE\<rparr>) lc"

definition dev_lc_reset :: "dev_lifecycle option \<Rightarrow> dev_lifecycle option" where
  "dev_lc_reset lc = map_option (\<lambda>lc. lc\<lparr>opens := 0, io_active := 0, lc_state := DEV_LC_UNINITIALIZED\<rparr>) lc"

definition dev_lc_state :: "dev_lifecycle option \<Rightarrow> dev_lc_state_t" where
  "dev_lc_state lc = (case lc of Some lc \<Rightarrow> lc_state lc | None \<Rightarrow> DEV_LC_UNINITIALIZED)"

definition dev_lc_opens :: "dev_lifecycle option \<Rightarrow> int" where
  "dev_lc_opens lc = (let value = (case lc of Some lc \<Rightarrow> opens lc | None \<Rightarrow> 0) in if value < 0 then 0 else value)"

definition dev_lc_io_active_count :: "dev_lifecycle option \<Rightarrow> int" where
  "dev_lc_io_active_count lc = (let value = (case lc of Some lc \<Rightarrow> io_active lc | None \<Rightarrow> 0) in if value < 0 then 0 else value)"

text \<open>Without interference the exchange succeeds at the first attempt, so the loop body runs once.\<close>

definition dev_lc_open_begin :: "dev_lifecycle option \<Rightarrow> int \<times> dev_lifecycle option" where
  "dev_lc_open_begin lc =
     (case lc of
        None \<Rightarrow> (MINI_ERR_INVAL, None)
      | Some l \<Rightarrow>
          let old = opens l in
          if old < 0 then (MINI_ERR_NODEV, lc)
          else if lc_state l \<noteq> DEV_LC_LIVE then (MINI_ERR_NODEV, lc)
          else (if old + 1 = 1 then 1 else 0, Some (l\<lparr>opens := old + 1\<rparr>)))"

definition dev_lc_open_end :: "dev_lifecycle option \<Rightarrow> dev_lifecycle option" where
  "dev_lc_open_end lc = lc"

definition dev_lc_open_abort :: "dev_lifecycle option \<Rightarrow> dev_lifecycle option" where
  "dev_lc_open_abort lc = map_option (\<lambda>l. l\<lparr>opens := opens l - 1\<rparr>) lc"

definition dev_lc_close_begin :: "dev_lifecycle option \<Rightarrow> int \<times> dev_lifecycle option" where
  "dev_lc_close_begin lc =
     (case lc of
        None \<Rightarrow> (MINI_ERR_INVAL, None)
      | Some l \<Rightarrow>
          let old = opens l in
          if old \<le> 0 then (MINI_ERR_IO, lc)
          else (if old - 1 = 0 then 1 else 0, Some (l\<lparr>opens := old - 1\<rparr>)))"

definition dev_lc_close_end :: "dev_lifecycle option \<Rightarrow> dev_lifecycle option" where
  "dev_lc_close_end lc = lc"

definition dev_lc_io_begin :: "dev_lifecycle option \<Rightarrow> int \<times> dev_lifecycle option" where
  "dev_lc_io_begin lc =
     (case lc of
        None \<Rightarrow> (MINI_ERR_INVAL, None)
      | Some l \<Rightarrow>
          let old = io_active l in
          if old < 0 then (MINI_ERR_NODEV, lc)
          else if lc_state l \<noteq> DEV_LC_LIVE then (MINI_ERR_NODEV, lc)
          else (MINI_OK, Some (l\<lparr>io_active := old + 1\<rparr>)))"

definition dev_lc_io_end :: "dev_lifecycle option \<Rightarrow> dev_lifecycle option" where
  "dev_lc_io_end lc = map_option (\<lambda>l. l\<lparr>io_active := io_active l - 1\<rparr>) lc"

definition dev_lc_remove_start :: "dev_lifecycle option \<Rightarrow> dev_lifecycle option" where
  "dev_lc_remove_start lc = map_option (\<lambda>l. l\<lparr>lc_state := DEV_LC_REMOVING\<rparr>) lc"

definition dev_lc_remove_finish :: "dev_lifecycle option \<Rightarrow> dev_lifecycle option" where
  "dev_lc_remove_finish lc = dev_lc_reset lc"

text \<open>
  The wait of the drain. A poll is what happens in one round: the threads that run during the delay change the counters, then the
  clock is read if the exchange fails. \<open>None\<close> is a wait that is not over at the end of the given rounds.
\<close>

type_synonym lc_poll = "(dev_lifecycle \<Rightarrow> dev_lifecycle) \<times> u32"

fun drain_io :: "u32 \<Rightarrow> u32 \<Rightarrow> dev_lifecycle \<Rightarrow> lc_poll list \<Rightarrow> (int \<times> dev_lifecycle) option" where
  "drain_io timeout_ms start_ms l [] = None"
| "drain_io timeout_ms start_ms l ((env, now) # polls) =
     (let l = env l in
      if io_active l = 0 then Some (MINI_OK, l\<lparr>io_active := DEV_LC_LOCKED\<rparr>)
      else if timeout_ms \<noteq> MINI_WAIT_FOREVER \<and> timeout_ms \<le> now - start_ms then Some (MINI_ERR_TIMEOUT, l)
      else drain_io timeout_ms start_ms l polls)"

fun drain_opens :: "u32 \<Rightarrow> u32 \<Rightarrow> dev_lifecycle \<Rightarrow> lc_poll list \<Rightarrow> (int \<times> dev_lifecycle) option" where
  "drain_opens timeout_ms start_ms l [] = None"
| "drain_opens timeout_ms start_ms l ((env, now) # polls) =
     (let l = env l in
      if opens l = 0 then drain_io timeout_ms start_ms (l\<lparr>opens := DEV_LC_LOCKED\<rparr>) polls
      else if timeout_ms \<noteq> MINI_WAIT_FOREVER \<and> timeout_ms \<le> now - start_ms then Some (MINI_ERR_TIMEOUT, l)
      else drain_opens timeout_ms start_ms l polls)"

definition dev_lc_remove_drain :: "dev_lifecycle option \<Rightarrow> u32 \<Rightarrow> u32 \<Rightarrow> lc_poll list \<Rightarrow> (int \<times> dev_lifecycle option) option" where
  "dev_lc_remove_drain lc timeout_ms start_ms polls =
     (case lc of
        None \<Rightarrow> Some (MINI_ERR_INVAL, None)
      | Some l \<Rightarrow>
          if lc_state l \<noteq> DEV_LC_REMOVING then Some (MINI_ERR_BUSY, lc)
          else do { (rc, l) \<leftarrow> drain_opens timeout_ms start_ms l polls; Some (rc, Some l) })"

subsection \<open>Interleaving\<close>

text \<open>
  A thread is between two atomic accesses of a call; it knows how many of its opens and I/O operations are not yet finished, and
  closes, aborts and ends only what it has. The remover runs \<open>remove_start\<close>, \<open>remove_drain\<close> (again after a timeout),
  and after a successful drain the teardown.
\<close>

datatype lc_pc =
    L_idle
  | L_open_load
  | L_open_state int
  | L_open_cas int
  | L_close_load
  | L_close_cas int
  | L_io_load
  | L_io_state int
  | L_io_cas int

record lc_thread =
  lt_pc :: lc_pc
  lt_opens :: nat
  lt_io :: nat

datatype lc_remover =
    R_idle
  | R_started
  | R_opens
  | R_io
  | R_timeout_opens
  | R_timeout_io
  | R_teardown
  | R_reset1
  | R_reset2
  | R_finished

record lc_sys =
  sy_lc :: dev_lifecycle
  sy_threads :: "lc_thread list"
  sy_rm :: lc_remover

definition lc_boot :: "nat \<Rightarrow> lc_sys" where
  "lc_boot n = \<lparr>sy_lc = \<lparr>opens = 0, io_active = 0, lc_state = DEV_LC_LIVE\<rparr>,
     sy_threads = replicate n \<lparr>lt_pc = L_idle, lt_opens = 0, lt_io = 0\<rparr>, sy_rm = R_idle\<rparr>"

inductive thread_step :: "dev_lifecycle \<Rightarrow> lc_thread \<Rightarrow> dev_lifecycle \<Rightarrow> lc_thread \<Rightarrow> bool" where
  open_call: "lt_pc t = L_idle \<Longrightarrow> thread_step l t l (t\<lparr>lt_pc := L_open_load\<rparr>)"
| open_load: "lt_pc t = L_open_load \<Longrightarrow> thread_step l t l (t\<lparr>lt_pc := if opens l < 0 then L_idle else L_open_state (opens l)\<rparr>)"
| open_state: "lt_pc t = L_open_state old \<Longrightarrow>
    thread_step l t l (t\<lparr>lt_pc := if lc_state l \<noteq> DEV_LC_LIVE then L_idle else L_open_cas old\<rparr>)"
| open_cas: "lt_pc t = L_open_cas old \<Longrightarrow> opens l = old \<Longrightarrow>
    thread_step l t (l\<lparr>opens := old + 1\<rparr>) (t\<lparr>lt_pc := L_idle, lt_opens := Suc (lt_opens t)\<rparr>)"
| open_retry: "lt_pc t = L_open_cas old \<Longrightarrow> opens l \<noteq> old \<Longrightarrow> thread_step l t l (t\<lparr>lt_pc := L_open_load\<rparr>)"
| open_abort: "lt_pc t = L_idle \<Longrightarrow> lt_opens t = Suc n \<Longrightarrow> thread_step l t (l\<lparr>opens := opens l - 1\<rparr>) (t\<lparr>lt_opens := n\<rparr>)"
| close_call: "lt_pc t = L_idle \<Longrightarrow> 0 < lt_opens t \<Longrightarrow> thread_step l t l (t\<lparr>lt_pc := L_close_load\<rparr>)"
| close_load: "lt_pc t = L_close_load \<Longrightarrow> thread_step l t l (t\<lparr>lt_pc := if opens l \<le> 0 then L_idle else L_close_cas (opens l)\<rparr>)"
| close_cas: "lt_pc t = L_close_cas old \<Longrightarrow> opens l = old \<Longrightarrow>
    thread_step l t (l\<lparr>opens := old - 1\<rparr>) (t\<lparr>lt_pc := L_idle, lt_opens := lt_opens t - 1\<rparr>)"
| close_retry: "lt_pc t = L_close_cas old \<Longrightarrow> opens l \<noteq> old \<Longrightarrow> thread_step l t l (t\<lparr>lt_pc := L_close_load\<rparr>)"
| io_call: "lt_pc t = L_idle \<Longrightarrow> thread_step l t l (t\<lparr>lt_pc := L_io_load\<rparr>)"
| io_load: "lt_pc t = L_io_load \<Longrightarrow> thread_step l t l (t\<lparr>lt_pc := if io_active l < 0 then L_idle else L_io_state (io_active l)\<rparr>)"
| io_state: "lt_pc t = L_io_state old \<Longrightarrow> thread_step l t l (t\<lparr>lt_pc := if lc_state l \<noteq> DEV_LC_LIVE then L_idle else L_io_cas old\<rparr>)"
| io_cas: "lt_pc t = L_io_cas old \<Longrightarrow> io_active l = old \<Longrightarrow>
    thread_step l t (l\<lparr>io_active := old + 1\<rparr>) (t\<lparr>lt_pc := L_idle, lt_io := Suc (lt_io t)\<rparr>)"
| io_retry: "lt_pc t = L_io_cas old \<Longrightarrow> io_active l \<noteq> old \<Longrightarrow> thread_step l t l (t\<lparr>lt_pc := L_io_load\<rparr>)"
| io_end: "lt_pc t = L_idle \<Longrightarrow> lt_io t = Suc n \<Longrightarrow> thread_step l t (l\<lparr>io_active := io_active l - 1\<rparr>) (t\<lparr>lt_io := n\<rparr>)"

inductive remover_step :: "dev_lifecycle \<Rightarrow> lc_remover \<Rightarrow> dev_lifecycle \<Rightarrow> lc_remover \<Rightarrow> bool" where
  remove_start: "remover_step l R_idle (l\<lparr>lc_state := DEV_LC_REMOVING\<rparr>) R_started"
| drain_start: "r = R_started \<or> r = R_timeout_opens \<or> r = R_timeout_io \<Longrightarrow> lc_state l = DEV_LC_REMOVING \<Longrightarrow> remover_step l r l R_opens"
| drain_lock: "opens l = 0 \<Longrightarrow> remover_step l R_opens (l\<lparr>opens := DEV_LC_LOCKED\<rparr>) R_io"
| drain_wait: "opens l \<noteq> 0 \<Longrightarrow> remover_step l R_opens l R_opens"
| drain_timeout: "opens l \<noteq> 0 \<Longrightarrow> remover_step l R_opens l R_timeout_opens"
| drain_io_lock: "io_active l = 0 \<Longrightarrow> remover_step l R_io (l\<lparr>io_active := DEV_LC_LOCKED\<rparr>) R_teardown"
| drain_io_wait: "io_active l \<noteq> 0 \<Longrightarrow> remover_step l R_io l R_io"
| drain_io_timeout: "io_active l \<noteq> 0 \<Longrightarrow> remover_step l R_io l R_timeout_io"
| finish_opens: "remover_step l R_teardown (l\<lparr>opens := 0\<rparr>) R_reset1"
| finish_io: "remover_step l R_reset1 (l\<lparr>io_active := 0\<rparr>) R_reset2"
| finish_state: "remover_step l R_reset2 (l\<lparr>lc_state := DEV_LC_UNINITIALIZED\<rparr>) R_finished"

inductive lc_step :: "lc_sys \<Rightarrow> lc_sys \<Rightarrow> bool" where
  thread: "i < length (sy_threads s) \<Longrightarrow> thread_step (sy_lc s) (sy_threads s ! i) l t \<Longrightarrow>
    lc_step s (s\<lparr>sy_lc := l, sy_threads := (sy_threads s)[i := t]\<rparr>)"
| remover: "remover_step (sy_lc s) (sy_rm s) l r \<Longrightarrow> lc_step s (s\<lparr>sy_lc := l, sy_rm := r\<rparr>)"

subsection \<open>Invariant\<close>

definition held_opens :: "lc_sys \<Rightarrow> nat" where
  "held_opens s = sum_list (map lt_opens (sy_threads s))"

definition held_io :: "lc_sys \<Rightarrow> nat" where
  "held_io s = sum_list (map lt_io (sy_threads s))"

fun pc_ok :: "lc_pc \<Rightarrow> nat \<Rightarrow> bool" where
  "pc_ok (L_open_state old) n = (0 \<le> old)"
| "pc_ok (L_open_cas old) n = (0 \<le> old)"
| "pc_ok (L_io_state old) n = (0 \<le> old)"
| "pc_ok (L_io_cas old) n = (0 \<le> old)"
| "pc_ok L_close_load n = (0 < n)"
| "pc_ok (L_close_cas old) n = (0 < n)"
| "pc_ok _ n = True"

definition counts :: "int \<Rightarrow> nat \<Rightarrow> bool" where
  "counts c n \<longleftrightarrow> c = int n \<or> c = DEV_LC_LOCKED \<and> n = 0"

definition lc_inv :: "lc_sys \<Rightarrow> bool" where
  "lc_inv s \<longleftrightarrow> counts (opens (sy_lc s)) (held_opens s) \<and> counts (io_active (sy_lc s)) (held_io s) \<and>
     list_all (\<lambda>t. pc_ok (lt_pc t) (lt_opens t)) (sy_threads s) \<and>
     (sy_rm s \<in> {R_io, R_timeout_io, R_teardown} \<longrightarrow> opens (sy_lc s) = DEV_LC_LOCKED) \<and>
     (sy_rm s = R_teardown \<longrightarrow> io_active (sy_lc s) = DEV_LC_LOCKED) \<and>
     (sy_rm s \<noteq> R_idle \<longrightarrow> lc_state (sy_lc s) = DEV_LC_REMOVING) \<and> sy_rm s \<notin> {R_reset1, R_reset2, R_finished}"

lemma sum_update: "i < length xs \<Longrightarrow> sum_list (map f (xs[i := x])) + f (xs ! i) = sum_list (map f xs) + f x" for f :: "'x \<Rightarrow> nat"
  by (induction xs arbitrary: i) (auto split: nat.splits)

lemma held_le: "i < length xs \<Longrightarrow> f (xs ! i) \<le> sum_list (map f xs)" for f :: "'x \<Rightarrow> nat"
  by (simp add: member_le_sum_list)

text \<open>A step of a thread, as the counters see it.\<close>

lemma thread_counts:
  assumes "thread_step l t l' t'" "pc_ok (lt_pc t) (lt_opens t)" "counts (opens l) n" "counts (io_active l) m" "lt_opens t \<le> n" "lt_io t \<le> m"
  shows "pc_ok (lt_pc t') (lt_opens t') \<and> counts (opens l') (n + lt_opens t' - lt_opens t) \<and> counts (io_active l') (m + lt_io t' - lt_io t) \<and>
    lc_state l' = lc_state l \<and> (opens l = DEV_LC_LOCKED \<longrightarrow> opens l' = DEV_LC_LOCKED) \<and> (io_active l = DEV_LC_LOCKED \<longrightarrow> io_active l' = DEV_LC_LOCKED)"
  using assms by cases (auto simp: counts_def DEV_LC_LOCKED_def of_nat_diff)

lemma thread_inv:
  assumes "lc_inv s" "i < length (sy_threads s)" "thread_step (sy_lc s) (sy_threads s ! i) l t"
  shows "lc_inv (s\<lparr>sy_lc := l, sy_threads := (sy_threads s)[i := t]\<rparr>)"
proof -
  let ?s = "s\<lparr>sy_lc := l, sy_threads := (sy_threads s)[i := t]\<rparr>" and ?t = "sy_threads s ! i"
  have u: "held_opens ?s = held_opens s + lt_opens t - lt_opens ?t" "held_io ?s = held_io s + lt_io t - lt_io ?t"
    using sum_update [OF assms(2), of lt_opens t] sum_update [OF assms(2), of lt_io t] by (simp_all add: held_opens_def held_io_def)
  have le: "lt_opens ?t \<le> held_opens s" "lt_io ?t \<le> held_io s" using held_le [OF assms(2)] by (simp_all add: held_opens_def held_io_def)
  have p: "pc_ok (lt_pc ?t) (lt_opens ?t)" using assms(1,2) by (simp add: lc_inv_def list_all_length)
  have c: "counts (opens (sy_lc s)) (held_opens s)" "counts (io_active (sy_lc s)) (held_io s)" using assms(1) by (simp_all add: lc_inv_def)
  have "list_all (\<lambda>t. pc_ok (lt_pc t) (lt_opens t)) ((sy_threads s)[i := t])" if "pc_ok (lt_pc t) (lt_opens t)"
    using assms(1) that by (auto simp: lc_inv_def list_all_iff dest: set_update_subset_insert [THEN subsetD])
  then show ?thesis using thread_counts [OF assms(3) p c le] assms(1) u by (simp add: lc_inv_def)
qed

lemma remover_inv:
  assumes "lc_inv s" "remover_step (sy_lc s) (sy_rm s) l r"
  shows "r = R_reset1 \<or> lc_inv (s\<lparr>sy_lc := l, sy_rm := r\<rparr>)"
  using assms(2,1) by cases (auto simp: lc_inv_def counts_def held_opens_def held_io_def DEV_LC_LOCKED_def)

definition resetting :: "lc_sys \<Rightarrow> bool" where
  "resetting s \<longleftrightarrow> sy_rm s \<in> {R_reset1, R_reset2, R_finished}"

lemma reach_inv: "lc_step\<^sup>*\<^sup>* (lc_boot n) s \<Longrightarrow> resetting s \<or> lc_inv s"
proof (induction rule: rtranclp_induct)
  case base
  have "sum_list (replicate n (0 :: nat)) = 0" by (simp add: sum_list_replicate)
  then show ?case by (simp add: lc_boot_def lc_inv_def counts_def held_opens_def held_io_def list_all_iff)
next
  case (step s s')
  from step.hyps(2) show ?case
  proof cases
    case (thread i l t)
    then show ?thesis using step.IH thread_inv by (auto simp: resetting_def)
  next
    case (remover l r)
    show ?thesis
    proof (cases "resetting s")
      case True
      from remover(2) True have "r \<in> {R_reset1, R_reset2, R_finished}" by cases (auto simp: resetting_def)
      then show ?thesis using remover(1) by (simp add: resetting_def)
    next
      case False
      then show ?thesis using remover step.IH remover_inv [of s l r] by (auto simp: resetting_def)
    qed
  qed
qed

text \<open>
  C1. A device is torn down only when nobody uses it. With any number of threads that open, close, abort, begin and end I/O, and a
  remover, interleaved at every atomic access: until the remover finishes, the counters report exactly the
  opens and I/O operations that threads hold; once the drain has succeeded there are none, and none begins before the
  reset.
\<close>

theorem dev_lc_teardown_exclusive:
  assumes "lc_step\<^sup>*\<^sup>* (lc_boot n) s" "\<not> resetting s"
  shows "dev_lc_opens (Some (sy_lc s)) = int (held_opens s) \<and> dev_lc_io_active_count (Some (sy_lc s)) = int (held_io s) \<and>
    (sy_rm s = R_teardown \<longrightarrow> (\<forall>t \<in> set (sy_threads s). lt_opens t = 0 \<and> lt_io t = 0))"
proof -
  have i: "lc_inv s" using reach_inv assms by blast
  then have "dev_lc_opens (Some (sy_lc s)) = int (held_opens s)" "dev_lc_io_active_count (Some (sy_lc s)) = int (held_io s)"
    by (auto simp: lc_inv_def counts_def dev_lc_opens_def dev_lc_io_active_count_def DEV_LC_LOCKED_def Let_def)
  moreover have "sy_rm s = R_teardown \<Longrightarrow> held_opens s = 0 \<and> held_io s = 0" using i by (auto simp: lc_inv_def counts_def DEV_LC_LOCKED_def)
  ultimately show ?thesis by (auto simp: held_opens_def held_io_def)
qed

subsection \<open>Runs\<close>

lemma thread0: "sy_threads s = t # ts \<Longrightarrow> thread_step (sy_lc s) t l t' \<Longrightarrow> lc_step s (s\<lparr>sy_lc := l, sy_threads := t' # ts\<rparr>)"
  using lc_step.thread [of 0 s l t'] by simp

text \<open>The functions above are the runs of a thread that nobody interrupts.\<close>

inductive thread_run :: "dev_lifecycle \<Rightarrow> lc_thread \<Rightarrow> dev_lifecycle \<Rightarrow> lc_thread \<Rightarrow> bool" where
  run_refl: "thread_run l t l t"
| run_step: "thread_step l t l1 t1 \<Longrightarrow> thread_run l1 t1 l2 t2 \<Longrightarrow> thread_run l t l2 t2"

lemma run_one: "thread_step l t l' t' \<Longrightarrow> thread_run l t l' t'"
  by (blast intro: thread_run.intros)

lemma idle_again: "lt_pc t = L_idle \<Longrightarrow> t\<lparr>lt_pc := L_idle\<rparr> = t"
  by (cases t) simp

lemma open_solo:
  assumes "lt_pc t = L_idle"
  shows "\<exists>rc l'. dev_lc_open_begin (Some l) = (rc, Some l') \<and> thread_run l t l' (if 0 \<le> rc then t\<lparr>lt_opens := Suc (lt_opens t)\<rparr> else t)"
proof -
  note c = run_step [OF open_call [OF assms]]
  have ld: "thread_step l (t\<lparr>lt_pc := L_open_load\<rparr>) l (t\<lparr>lt_pc := if opens l < 0 then L_idle else L_open_state (opens l)\<rparr>)"
    using open_load [of "t\<lparr>lt_pc := L_open_load\<rparr>" l] by simp
  have st: "thread_step l (t\<lparr>lt_pc := L_open_state (opens l)\<rparr>) l (t\<lparr>lt_pc := if lc_state l \<noteq> DEV_LC_LIVE then L_idle else L_open_cas (opens l)\<rparr>)"
    using open_state [of "t\<lparr>lt_pc := L_open_state (opens l)\<rparr>" "opens l" l] by simp
  have cas: "thread_step l (t\<lparr>lt_pc := L_open_cas (opens l)\<rparr>) (l\<lparr>opens := opens l + 1\<rparr>) (t\<lparr>lt_opens := Suc (lt_opens t)\<rparr>)"
    using open_cas [of "t\<lparr>lt_pc := L_open_cas (opens l)\<rparr>" "opens l" l] assms by (cases t) simp
  consider "opens l < 0" | "0 \<le> opens l" "lc_state l \<noteq> DEV_LC_LIVE" | "0 \<le> opens l" "lc_state l = DEV_LC_LIVE" by linarith
  then show ?thesis
  proof cases
    case 1
    then have "thread_run l t l t" using c [OF run_one [OF ld]] idle_again [OF assms(1)] by simp
    then show ?thesis using 1 by (simp add: dev_lc_open_begin_def MINI_ERR_NODEV_def)
  next
    case 2
    then have "thread_run l t l t" using c [OF run_step [OF ld]] run_one [OF st] idle_again [OF assms(1)] by simp
    then show ?thesis using 2 by (simp add: dev_lc_open_begin_def MINI_ERR_NODEV_def)
  next
    case 3
    then have "thread_run l t (l\<lparr>opens := opens l + 1\<rparr>) (t\<lparr>lt_opens := Suc (lt_opens t)\<rparr>)"
      using c [OF run_step [OF ld]] run_step [OF st] run_one [OF cas] by simp
    then show ?thesis using 3 by (auto simp: dev_lc_open_begin_def Let_def)
  qed
qed

lemma io_solo:
  assumes "lt_pc t = L_idle"
  shows "\<exists>rc l'. dev_lc_io_begin (Some l) = (rc, Some l') \<and> thread_run l t l' (if 0 \<le> rc then t\<lparr>lt_io := Suc (lt_io t)\<rparr> else t)"
proof -
  note c = run_step [OF io_call [OF assms]]
  have ld: "thread_step l (t\<lparr>lt_pc := L_io_load\<rparr>) l (t\<lparr>lt_pc := if io_active l < 0 then L_idle else L_io_state (io_active l)\<rparr>)"
    using io_load [of "t\<lparr>lt_pc := L_io_load\<rparr>" l] by simp
  have st: "thread_step l (t\<lparr>lt_pc := L_io_state (io_active l)\<rparr>) l (t\<lparr>lt_pc := if lc_state l \<noteq> DEV_LC_LIVE then L_idle else L_io_cas (io_active l)\<rparr>)"
    using io_state [of "t\<lparr>lt_pc := L_io_state (io_active l)\<rparr>" "io_active l" l] by simp
  have cas: "thread_step l (t\<lparr>lt_pc := L_io_cas (io_active l)\<rparr>) (l\<lparr>io_active := io_active l + 1\<rparr>) (t\<lparr>lt_io := Suc (lt_io t)\<rparr>)"
    using io_cas [of "t\<lparr>lt_pc := L_io_cas (io_active l)\<rparr>" "io_active l" l] assms by (cases t) simp
  consider "io_active l < 0" | "0 \<le> io_active l" "lc_state l \<noteq> DEV_LC_LIVE" | "0 \<le> io_active l" "lc_state l = DEV_LC_LIVE" by linarith
  then show ?thesis
  proof cases
    case 1
    then have "thread_run l t l t" using c [OF run_one [OF ld]] idle_again [OF assms(1)] by simp
    then show ?thesis using 1 by (simp add: dev_lc_io_begin_def MINI_ERR_NODEV_def)
  next
    case 2
    then have "thread_run l t l t" using c [OF run_step [OF ld]] run_one [OF st] idle_again [OF assms(1)] by simp
    then show ?thesis using 2 by (simp add: dev_lc_io_begin_def MINI_ERR_NODEV_def)
  next
    case 3
    then have "thread_run l t (l\<lparr>io_active := io_active l + 1\<rparr>) (t\<lparr>lt_io := Suc (lt_io t)\<rparr>)"
      using c [OF run_step [OF ld]] run_step [OF st] run_one [OF cas] by simp
    then show ?thesis using 3 by (auto simp: dev_lc_io_begin_def MINI_OK_def Let_def)
  qed
qed

lemma close_solo:
  assumes "lt_pc t = L_idle" "0 < lt_opens t"
  shows "\<exists>rc l'. dev_lc_close_begin (Some l) = (rc, Some l') \<and> thread_run l t l' (if 0 \<le> rc then t\<lparr>lt_opens := lt_opens t - 1\<rparr> else t)"
proof -
  note c = run_step [OF close_call [OF assms]]
  have ld: "thread_step l (t\<lparr>lt_pc := L_close_load\<rparr>) l (t\<lparr>lt_pc := if opens l \<le> 0 then L_idle else L_close_cas (opens l)\<rparr>)"
    using close_load [of "t\<lparr>lt_pc := L_close_load\<rparr>" l] by simp
  have cas: "thread_step l (t\<lparr>lt_pc := L_close_cas (opens l)\<rparr>) (l\<lparr>opens := opens l - 1\<rparr>) (t\<lparr>lt_opens := lt_opens t - 1\<rparr>)"
    using close_cas [of "t\<lparr>lt_pc := L_close_cas (opens l)\<rparr>" "opens l" l] assms by (cases t) simp
  show ?thesis
  proof (cases "opens l \<le> 0")
    case True
    then have "thread_run l t l t" using c [OF run_one [OF ld]] idle_again [OF assms(1)] by simp
    then show ?thesis using True by (simp add: dev_lc_close_begin_def MINI_ERR_IO_def)
  next
    case False
    then have "thread_run l t (l\<lparr>opens := opens l - 1\<rparr>) (t\<lparr>lt_opens := lt_opens t - 1\<rparr>)"
      using c [OF run_step [OF ld]] run_one [OF cas] by simp
    then show ?thesis using False by (auto simp: dev_lc_close_begin_def Let_def)
  qed
qed


text \<open>Calls of \<open>open_begin\<close> that have passed the test of the state.\<close>

definition entering :: "lc_thread \<Rightarrow> nat" where
  "entering t = (case lt_pc t of L_open_cas old \<Rightarrow> 1 | _ \<Rightarrow> 0)"

definition users :: "lc_sys \<Rightarrow> nat" where
  "users s = sum_list (map (\<lambda>t. lt_opens t + entering t) (sy_threads s))"

lemma thread_users:
  assumes "thread_step l t l' t'" "lc_state l = DEV_LC_REMOVING"
  shows "lt_opens t' + entering t' \<le> lt_opens t + entering t"
  using assms by cases (auto simp: entering_def)

lemma step_users:
  assumes "lc_step s s'" "lc_state (sy_lc s) = DEV_LC_REMOVING"
  shows "users s' \<le> users s"
  using assms(1)
proof cases
  case (thread i l t)
  then show ?thesis using sum_update [of i "sy_threads s" "\<lambda>t. lt_opens t + entering t" t] thread_users [OF thread(3) assms(2)]
    by (simp add: users_def)
qed (simp add: users_def)

lemma step_state:
  assumes "lc_step s s'" "lc_state (sy_lc s) = DEV_LC_REMOVING"
  shows "lc_state (sy_lc s') = DEV_LC_REMOVING \<or> resetting s'"
  using assms
proof cases
  case (thread i l t)
  from thread(3) have "lc_state l = lc_state (sy_lc s)" by cases auto
  then show ?thesis using thread assms(2) by simp
next
  case (remover l r)
  from remover(2) show ?thesis using remover(1) assms(2) by cases (auto simp: resetting_def)
qed

lemma resetting_step: "lc_step s s' \<Longrightarrow> resetting s \<Longrightarrow> resetting s'"
  by (erule lc_step.cases) (auto simp: resetting_def elim: remover_step.cases)

text \<open>
  C1. Removal stops new users. From the moment the state is \<open>DEV_LC_REMOVING\<close> until the reset, the opens that threads hold and
  the calls that have already passed the test of the state never become more, whatever the threads call: the drain waits for
  those only.
\<close>

theorem dev_lc_removing_refuses:
  assumes "lc_step\<^sup>*\<^sup>* s s'" "lc_state (sy_lc s) = DEV_LC_REMOVING" "\<not> resetting s'"
  shows "held_opens s' \<le> users s"
proof -
  have "resetting s' \<or> lc_state (sy_lc s') = DEV_LC_REMOVING \<and> users s' \<le> users s"
    using assms(1)
  proof (induction rule: rtranclp_induct)
    case (step a b)
    then show ?case using step_users [of a b] step_state [of a b] resetting_step [of a b] by auto
  qed (simp add: assms(2))
  moreover have "held_opens s' \<le> users s'" by (simp add: held_opens_def users_def sum_list_mono)
  ultimately show ?thesis using assms(3) by auto
qed

text \<open>Rounds in which no thread unlocks the counter of opens.\<close>

definition keeps_lock :: "lc_poll \<Rightarrow> bool" where
  "keeps_lock p \<longleftrightarrow> (\<forall>l. opens l = DEV_LC_LOCKED \<longrightarrow> opens (fst p l) = DEV_LC_LOCKED)"

lemma drain_io_timeout_locked:
  "drain_io to st l polls = Some (rc, l') \<Longrightarrow> list_all keeps_lock polls \<Longrightarrow> opens l = DEV_LC_LOCKED \<Longrightarrow> opens l' = DEV_LC_LOCKED"
  by (induction to st l polls rule: drain_io.induct) (auto simp: Let_def keeps_lock_def split: if_splits)

lemma drain_locked:
  "list_all keeps_lock polls \<Longrightarrow> opens l = DEV_LC_LOCKED \<Longrightarrow>
    (drain_opens to st l polls = None \<or> (\<exists>l'. drain_opens to st l polls = Some (MINI_ERR_TIMEOUT, l'))) \<and>
    (to \<noteq> MINI_WAIT_FOREVER \<and> (\<exists>p \<in> set polls. to \<le> snd p - st) \<longrightarrow> (\<exists>l'. drain_opens to st l polls = Some (MINI_ERR_TIMEOUT, l')))"
proof (induction to st l polls rule: drain_opens.induct)
  case (2 to st l env now polls)
  have e: "opens (env l) = DEV_LC_LOCKED" "opens (env l) \<noteq> 0" using 2(2,3) by (auto simp: keeps_lock_def DEV_LC_LOCKED_def)
  then show ?case using 2 by (auto simp: Let_def)
qed simp

text \<open>
  C1. A drain that times out while it waits for I/O cannot be repeated. It leaves the counter of opens locked, and from then on every
  drain, however long it waits and whatever happens to the I/O, fails to complete: it never returns \<open>MINI_OK\<close>, and with a finite
  timeout it reports a timeout once the clock has advanced far enough.
\<close>

theorem dev_lc_drain_stuck:
  assumes "list_all keeps_lock polls" "list_all keeps_lock later"
    "drain_io to st (l\<lparr>opens := DEV_LC_LOCKED\<rparr>) polls = Some (MINI_ERR_TIMEOUT, l')" "lc_state l' = DEV_LC_REMOVING"
  shows "(\<forall>lc. dev_lc_remove_drain (Some l') to' st' later \<noteq> Some (MINI_OK, lc)) \<and>
    (to' \<noteq> MINI_WAIT_FOREVER \<and> (\<exists>p \<in> set later. to' \<le> snd p - st') \<longrightarrow>
      (\<exists>lc. dev_lc_remove_drain (Some l') to' st' later = Some (MINI_ERR_TIMEOUT, lc)))"
proof -
  have "opens l' = DEV_LC_LOCKED" using drain_io_timeout_locked [OF assms(3,1)] by simp
  from drain_locked [OF assms(2) this, of to' st'] show ?thesis using assms(4)
    by (auto simp: dev_lc_remove_drain_def MINI_OK_def MINI_ERR_TIMEOUT_def)
qed


theorem dev_lc_drain_stuck_witness:
  "(\<forall>lc. dev_lc_remove_drain (Some \<lparr>opens = - 1, io_active = 1, lc_state = DEV_LC_REMOVING\<rparr>) 100 20 [(\<lambda>l. l\<lparr>io_active := 0\<rparr>, 30), (\<lambda>l. l, 130)] \<noteq> Some (MINI_OK, lc)) \<and>
    (\<exists>lc. dev_lc_remove_drain (Some \<lparr>opens = - 1, io_active = 1, lc_state = DEV_LC_REMOVING\<rparr>) 100 20 [(\<lambda>l. l\<lparr>io_active := 0\<rparr>, 30), (\<lambda>l. l, 130)] = Some (MINI_ERR_TIMEOUT, lc))"
  using dev_lc_drain_stuck [of "[(\<lambda>l. l, 10)]" "[(\<lambda>l. l\<lparr>io_active := 0\<rparr>, 30), (\<lambda>l. l, 130)]" 10 0 "\<lparr>opens = 0, io_active = 1, lc_state = DEV_LC_REMOVING\<rparr>"
      "\<lparr>opens = - 1, io_active = 1, lc_state = DEV_LC_REMOVING\<rparr>" 100 20]
  by (simp add: keeps_lock_def DEV_LC_LOCKED_def MINI_WAIT_FOREVER_def)

subsection \<open>After the reset\<close>

text \<open>The states of a run in which one thread has read the counter and the state before the removal and is continued after it.\<close>

definition late_sys :: "int \<Rightarrow> int \<Rightarrow> dev_lc_state_t \<Rightarrow> lc_pc \<Rightarrow> nat \<Rightarrow> lc_remover \<Rightarrow> lc_sys" where
  "late_sys op io st pc n r = \<lparr>sy_lc = \<lparr>opens = op, io_active = io, lc_state = st\<rparr>, sy_threads = [\<lparr>lt_pc = pc, lt_opens = n, lt_io = 0\<rparr>], sy_rm = r\<rparr>"

lemma late_thread: "thread_step \<lparr>opens = op, io_active = io, lc_state = st\<rparr> \<lparr>lt_pc = pc, lt_opens = n, lt_io = 0\<rparr>
      \<lparr>opens = op', io_active = io', lc_state = st'\<rparr> \<lparr>lt_pc = pc', lt_opens = n', lt_io = 0\<rparr> \<Longrightarrow>
    lc_step (late_sys op io st pc n r) (late_sys op' io' st' pc' n' r)"
  using thread0 [of "late_sys op io st pc n r"] by (force simp: late_sys_def)

lemma late_remover: "remover_step \<lparr>opens = op, io_active = io, lc_state = st\<rparr> r \<lparr>opens = op', io_active = io', lc_state = st'\<rparr> r' \<Longrightarrow>
    lc_step (late_sys op io st pc n r) (late_sys op' io' st' pc n r')"
  using lc_step.remover [of "late_sys op io st pc n r" "\<lparr>opens = op', io_active = io', lc_state = st'\<rparr>" r'] by (simp add: late_sys_def)


lemmas late_intros = rtranclp.rtrancl_into_rtrancl [where r = lc_step, OF _ late_thread] rtranclp.rtrancl_into_rtrancl [where r = lc_step, OF _ late_remover]

lemma late_teardown: "lc_step\<^sup>*\<^sup>* (lc_boot 1) (late_sys (- 1) (- 1) DEV_LC_REMOVING (L_open_cas 0) 0 R_teardown)"
proof -
  have "lc_boot 1 = late_sys 0 0 DEV_LC_LIVE L_idle 0 R_idle" by (simp add: lc_boot_def late_sys_def)
  then have "lc_step\<^sup>*\<^sup>* (lc_boot 1) (late_sys 0 0 DEV_LC_LIVE L_idle 0 R_idle)" by simp
  then have "lc_step\<^sup>*\<^sup>* (lc_boot 1) (late_sys 0 0 DEV_LC_LIVE L_open_load 0 R_idle)" by (rule late_intros(1)) (simp add: thread_step.simps)
  then have "lc_step\<^sup>*\<^sup>* (lc_boot 1) (late_sys 0 0 DEV_LC_LIVE (L_open_state 0) 0 R_idle)" by (rule late_intros(1)) (simp add: thread_step.simps)
  then have "lc_step\<^sup>*\<^sup>* (lc_boot 1) (late_sys 0 0 DEV_LC_LIVE (L_open_cas 0) 0 R_idle)" by (rule late_intros(1)) (simp add: thread_step.simps)
  then have "lc_step\<^sup>*\<^sup>* (lc_boot 1) (late_sys 0 0 DEV_LC_REMOVING (L_open_cas 0) 0 R_started)" by (rule late_intros(2)) (simp add: remover_step.simps)
  then have "lc_step\<^sup>*\<^sup>* (lc_boot 1) (late_sys 0 0 DEV_LC_REMOVING (L_open_cas 0) 0 R_opens)" by (rule late_intros(2)) (simp add: remover_step.simps)
  then have "lc_step\<^sup>*\<^sup>* (lc_boot 1) (late_sys (- 1) 0 DEV_LC_REMOVING (L_open_cas 0) 0 R_io)"
    by (rule late_intros(2)) (simp add: remover_step.simps DEV_LC_LOCKED_def)
  then show ?thesis by (rule late_intros(2)) (simp add: remover_step.simps DEV_LC_LOCKED_def)
qed

text \<open>
  C1. The reset does not exclude calls that began before the removal. There is a run in which a thread reads the counter and the state of
  a live device, the device is removed, drained and reset, and the thread's exchange then succeeds: it holds an open on a device
  that is not initialised.
\<close>

theorem dev_lc_late_open:
  "\<exists>s. lc_step\<^sup>*\<^sup>* (lc_boot 1) s \<and> sy_rm s = R_finished \<and> lc_state (sy_lc s) = DEV_LC_UNINITIALIZED \<and> held_opens s = 1"
proof -
  have "lc_step\<^sup>*\<^sup>* (lc_boot 1) (late_sys 0 (- 1) DEV_LC_REMOVING (L_open_cas 0) 0 R_reset1)"
    using late_teardown by (rule late_intros(2)) (simp add: remover_step.simps)
  then have "lc_step\<^sup>*\<^sup>* (lc_boot 1) (late_sys 0 0 DEV_LC_REMOVING (L_open_cas 0) 0 R_reset2)" by (rule late_intros(2)) (simp add: remover_step.simps)
  then have "lc_step\<^sup>*\<^sup>* (lc_boot 1) (late_sys 0 0 DEV_LC_UNINITIALIZED (L_open_cas 0) 0 R_finished)" by (rule late_intros(2)) (simp add: remover_step.simps)
  then have "lc_step\<^sup>*\<^sup>* (lc_boot 1) (late_sys 1 0 DEV_LC_UNINITIALIZED L_idle 1 R_finished)" by (rule late_intros(1)) (simp add: thread_step.simps)
  moreover have "sy_rm (late_sys 1 0 DEV_LC_UNINITIALIZED L_idle 1 R_finished) = R_finished"
    "lc_state (sy_lc (late_sys 1 0 DEV_LC_UNINITIALIZED L_idle 1 R_finished)) = DEV_LC_UNINITIALIZED"
    "held_opens (late_sys 1 0 DEV_LC_UNINITIALIZED L_idle 1 R_finished) = 1" by (simp_all add: late_sys_def held_opens_def)
  ultimately show ?thesis by blast
qed

theorem dev_lc_teardown_exclusive_witness:
  "let s = late_sys (- 1) (- 1) DEV_LC_REMOVING (L_open_cas 0) 0 R_teardown in
   dev_lc_opens (Some (sy_lc s)) = int (held_opens s) \<and> dev_lc_io_active_count (Some (sy_lc s)) = int (held_io s) \<and>
    (\<forall>t \<in> set (sy_threads s). lt_opens t = 0 \<and> lt_io t = 0)"
  using dev_lc_teardown_exclusive [OF late_teardown] by (simp add: resetting_def late_sys_def)

theorem dev_lc_removing_refuses_witness:
  "held_opens (late_sys (- 1) (- 1) DEV_LC_REMOVING (L_open_cas 0) 0 R_teardown) \<le> users (late_sys (- 1) 0 DEV_LC_REMOVING (L_open_cas 0) 0 R_io)"
proof -
  have "lc_step\<^sup>*\<^sup>* (late_sys (- 1) 0 DEV_LC_REMOVING (L_open_cas 0) 0 R_io) (late_sys (- 1) (- 1) DEV_LC_REMOVING (L_open_cas 0) 0 R_teardown)"
    by (rule late_intros(2) [OF rtranclp.rtrancl_refl]) (simp add: remover_step.simps DEV_LC_LOCKED_def)
  from dev_lc_removing_refuses [OF this] show ?thesis by (simp add: resetting_def late_sys_def)
qed

end
