(* ===== verification/Os_List.thy ===== *)
theory Os_List
  imports Status
begin

text \<open>
  \<^verbatim>\<open>lib/mini-os/inc/list.h\<close>: the intrusive lists of the kernel. Nodes are addresses, the link fields are stores over
  addresses, and an assignment through a node changes the store, so that aliasing between the arguments is what it is
  in memory. A list is a circle through its head node.
\<close>

type_synonym addr = nat

record links =
  l_next :: "addr \<Rightarrow> addr"
  l_prev :: "addr \<Rightarrow> addr"

definition set_next :: "addr \<Rightarrow> addr \<Rightarrow> links \<Rightarrow> links" where
  "set_next a v s = s\<lparr>l_next := (l_next s)(a := v)\<rparr>"

definition set_prev :: "addr \<Rightarrow> addr \<Rightarrow> links \<Rightarrow> links" where
  "set_prev a v s = s\<lparr>l_prev := (l_prev s)(a := v)\<rparr>"

definition mini_os_list_init :: "addr option \<Rightarrow> links \<Rightarrow> int \<times> links" where
  "mini_os_list_init list_node s =
     (case list_node of None \<Rightarrow> (MINI_ERR_INVAL, s) | Some n \<Rightarrow> (MINI_OK, set_prev n n (set_next n n s)))"

definition mini_os_list_add :: "addr option \<Rightarrow> addr option \<Rightarrow> addr option \<Rightarrow> links \<Rightarrow> int \<times> links" where
  "mini_os_list_add next prev node s =
     (case (next, prev, node) of
        (Some next, Some prev, Some node) \<Rightarrow>
          let s = set_next node next s;
              s = set_prev node prev s;
              s = set_prev next node s;
              s = set_next prev node s in (MINI_OK, s)
      | _ \<Rightarrow> (MINI_ERR_INVAL, s))"

definition mini_os_list_tail :: "addr option \<Rightarrow> addr option \<Rightarrow> links \<Rightarrow> int \<times> links" where
  "mini_os_list_tail new_node head s =
     (case (new_node, head) of
        (Some n, Some h) \<Rightarrow> mini_os_list_add (Some h) (Some (l_prev s h)) (Some n) s
      | _ \<Rightarrow> (MINI_ERR_INVAL, s))"

definition mini_os_list_head :: "addr option \<Rightarrow> addr option \<Rightarrow> links \<Rightarrow> int \<times> links" where
  "mini_os_list_head new_node head s =
     (case (new_node, head) of
        (Some n, Some h) \<Rightarrow> mini_os_list_add (Some (l_next s h)) (Some h) (Some n) s
      | _ \<Rightarrow> (MINI_ERR_INVAL, s))"

definition mini_os_list_remove :: "addr option \<Rightarrow> links \<Rightarrow> int \<times> links" where
  "mini_os_list_remove node s =
     (case node of
        None \<Rightarrow> (MINI_ERR_INVAL, s)
      | Some n \<Rightarrow>
          let s = set_prev (l_next s n) (l_prev s n) s;
              s = set_next (l_prev s n) (l_next s n) s;
              s = set_next n n s;
              s = set_prev n n s in (MINI_OK, s))"

definition mini_os_list_is_empty :: "addr option \<Rightarrow> links \<Rightarrow> bool" where
  "mini_os_list_is_empty list_node s = (case list_node of None \<Rightarrow> False | Some h \<Rightarrow> l_next s h = h)"

text \<open>The walk \<open>for (node = head->next; node != head; node = node->next)\<close>; it may not end, so it takes a bound on its length.\<close>

fun list_walk :: "nat \<Rightarrow> links \<Rightarrow> addr \<Rightarrow> addr \<Rightarrow> addr list option" where
  "list_walk 0 s head node = None"
| "list_walk (Suc k) s head node = (if node = head then Some [] else map_option ((#) node) (list_walk k s head (l_next s node)))"

subsection \<open>Singly linked lists\<close>

type_synonym slinks = "addr \<Rightarrow> addr"

definition mini_os_single_list_init :: "addr option \<Rightarrow> slinks \<Rightarrow> int \<times> slinks" where
  "mini_os_single_list_init node s = (case node of None \<Rightarrow> (MINI_ERR_INVAL, s) | Some n \<Rightarrow> (MINI_OK, s(n := n)))"

definition mini_os_single_list_add :: "addr option \<Rightarrow> addr option \<Rightarrow> addr option \<Rightarrow> slinks \<Rightarrow> int \<times> slinks" where
  "mini_os_single_list_add next prev node s =
     (case (next, prev, node) of
        (Some next, Some prev, Some node) \<Rightarrow> (MINI_OK, s(node := next, prev := node))
      | _ \<Rightarrow> (MINI_ERR_INVAL, s))"

text \<open>A null \<open>prev\<close> is dereferenced.\<close>

definition mini_os_single_list_add_after :: "addr option \<Rightarrow> addr option \<Rightarrow> slinks \<Rightarrow> (int \<times> slinks) option" where
  "mini_os_single_list_add_after prev node s = do { p \<leftarrow> prev; Some (mini_os_single_list_add (Some (s p)) prev node s) }"

definition mini_os_single_list_push_heap :: "addr option \<Rightarrow> addr option \<Rightarrow> slinks \<Rightarrow> (int \<times> slinks) option" where
  "mini_os_single_list_push_heap heap node s = mini_os_single_list_add_after heap node s"

definition mini_os_single_list_remove :: "addr option \<Rightarrow> addr option \<Rightarrow> slinks \<Rightarrow> int \<times> slinks" where
  "mini_os_single_list_remove node prev s =
     (case (node, prev) of
        (Some n, Some p) \<Rightarrow> (let s = s(p := s n) in (MINI_OK, s(n := n)))
      | _ \<Rightarrow> (MINI_ERR_INVAL, s))"

definition mini_os_single_list_is_empty :: "addr option \<Rightarrow> slinks \<Rightarrow> bool" where
  "mini_os_single_list_is_empty node s = (case node of None \<Rightarrow> False | Some n \<Rightarrow> s n = n)"

subsection \<open>The sequence that a circle represents\<close>

fun chain :: "links \<Rightarrow> addr \<Rightarrow> addr list \<Rightarrow> bool" where
  "chain s a [] = True"
| "chain s a (x # xs) = (l_next s a = x \<and> l_prev s x = a \<and> chain s x xs)"

definition dlist :: "links \<Rightarrow> addr \<Rightarrow> addr list \<Rightarrow> bool" where
  "dlist s h xs \<longleftrightarrow> distinct (h # xs) \<and> chain s h (xs @ [h])"

lemmas set_link_defs = set_next_def set_prev_def

lemma chain_append: "chain s a (xs @ ys) \<longleftrightarrow> chain s a xs \<and> chain s (last (a # xs)) ys"
  by (induction xs arbitrary: a) auto

lemma chain_cong:
  "(\<And>x. x \<in> set (butlast (a # xs)) \<Longrightarrow> l_next s' x = l_next s x) \<Longrightarrow> (\<And>x. x \<in> set xs \<Longrightarrow> l_prev s' x = l_prev s x) \<Longrightarrow>
    chain s' a xs = chain s a xs"
  by (induction xs arbitrary: a) auto

lemma init_dlist: "dlist (snd (mini_os_list_init (Some h) s)) h []"
  by (simp add: dlist_def mini_os_list_init_def set_link_defs)

lemma dlist_ends: "dlist s h xs \<Longrightarrow> l_next s h = hd (xs @ [h])" "dlist s h xs \<Longrightarrow> l_prev s h = last (h # xs)"
  by (cases xs; simp add: dlist_def) (cases xs rule: rev_cases; simp add: dlist_def chain_append)

lemma in_butlast: "x \<in> set (butlast xs) \<Longrightarrow> x \<in> set xs" "distinct xs \<Longrightarrow> xs \<noteq> [] \<Longrightarrow> last xs \<notin> set (butlast xs)"
  by (auto dest: in_set_butlastD) (metis append_butlast_last_id distinct_butlast not_distinct_conv_prefix)

text \<open>A node put between two neighbours, and a node taken out.\<close>

lemma add_between:
  assumes "dlist s h (xs @ ys)" "n \<notin> set (h # xs @ ys)"
  shows "dlist (snd (mini_os_list_add (Some (hd (ys @ [h]))) (Some (last (h # xs))) (Some n) s)) h (xs @ n # ys)"
proof -
  let ?p = "last (h # xs)" and ?q = "hd (ys @ [h])"
  define s' where "s' = snd (mini_os_list_add (Some ?q) (Some ?p) (Some n) s)"
  have d: "distinct (h # xs @ ys)" and c: "chain s h xs" "chain s ?p (ys @ [h])"
    using assms(1) by (simp_all add: dlist_def chain_append del: last.simps)
  have n: "n \<noteq> ?p" "n \<noteq> ?q" using assms(2) by (auto simp: hd_append)
  have py: "?p \<notin> set ys" using d by (cases xs rule: rev_cases) auto
  have nx: "l_next s' x = (if x = ?p then n else if x = n then ?q else l_next s x)"
    and pv: "l_prev s' x = (if x = ?q then n else if x = n then ?p else l_prev s x)" for x
    using n by (auto simp: s'_def mini_os_list_add_def set_link_defs simp del: last.simps)
  have "chain s' h xs = chain s h xs"
    by (rule chain_cong) (use d assms(2) n in \<open>auto simp: nx pv hd_append dest: in_butlast split: if_splits\<close>)
  moreover have "chain s' ?q (tl (ys @ [h])) = chain s ?q (tl (ys @ [h]))"
    by (rule chain_cong; cases ys) (use d assms(2) n py in \<open>auto simp: nx pv simp del: last.simps\<close>)
  moreover have "chain s ?q (tl (ys @ [h]))" using c(2) by (cases ys) auto
  moreover have "l_next s' ?p = n" "l_prev s' n = ?p" "l_next s' n = ?q" "l_prev s' ?q = n" using n unfolding nx pv by argo+
  ultimately have "chain s' ?p (n # ?q # tl (ys @ [h]))" "chain s' h xs" using c(1) by (simp_all only: chain.simps)
  moreover have "?q # tl (ys @ [h]) = ys @ [h]" by simp
  ultimately have "chain s' h (xs @ n # ys @ [h])" unfolding chain_append by argo
  then show ?thesis using d assms(2) by (simp add: dlist_def s'_def)
qed


lemma remove_between:
  assumes "dlist s h (xs @ n # ys)"
  shows "dlist (snd (mini_os_list_remove (Some n) s)) h (xs @ ys)" "dlist (snd (mini_os_list_remove (Some n) s)) n []"
proof -
  let ?p = "last (h # xs)" and ?q = "hd (ys @ [h])"
  define s' where "s' = snd (mini_os_list_remove (Some n) s)"
  have d: "distinct (h # xs @ n # ys)" and c: "chain s h xs" "l_next s ?p = n" "l_prev s n = ?p" "chain s n (ys @ [h])"
    using assms by (simp_all add: dlist_def chain_append del: last.simps)
  have q: "ys @ [h] = ?q # tl (ys @ [h])" by simp
  have c': "l_next s n = ?q" "l_prev s ?q = n" "chain s ?q (tl (ys @ [h]))" using c(4) q by (metis chain.simps(2))+
  have n: "n \<noteq> ?p" "n \<noteq> ?q" using d by (auto simp: hd_append)
  have py: "?p \<notin> set ys" using d by (cases xs rule: rev_cases) auto
  have nx: "l_next s' x = (if x = n then n else if x = ?p then ?q else l_next s x)"
    and pv: "l_prev s' x = (if x = n then n else if x = ?q then ?p else l_prev s x)" for x
    using n c(3) c'(1) by (auto simp: s'_def mini_os_list_remove_def set_link_defs Let_def simp del: last.simps)
  have "chain s' h xs = chain s h xs"
    by (rule chain_cong) (use d n in \<open>auto simp: nx pv hd_append dest: in_butlast split: if_splits\<close>)
  moreover have "chain s' ?q (tl (ys @ [h])) = chain s ?q (tl (ys @ [h]))"
    by (rule chain_cong; cases ys) (use d n py in \<open>auto simp: nx pv simp del: last.simps\<close>)
  moreover have "l_next s' ?p = ?q" "l_prev s' ?q = ?p" using n unfolding nx pv by argo+
  ultimately have "chain s' ?p (?q # tl (ys @ [h]))" "chain s' h xs" using c(1) c'(3) by (simp_all only: chain.simps)
  then have "chain s' h (xs @ ys @ [h])" unfolding chain_append q [symmetric] by argo
  then show "dlist (snd (mini_os_list_remove (Some n) s)) h (xs @ ys)" using d by (simp add: dlist_def s'_def)
  show "dlist (snd (mini_os_list_remove (Some n) s)) n []" using nx [of n] pv [of n] by (simp add: dlist_def s'_def)
qed

lemma head_dlist: "dlist s h xs \<Longrightarrow> n \<notin> set (h # xs) \<Longrightarrow> dlist (snd (mini_os_list_head (Some n) (Some h) s)) h (n # xs)"
  using add_between [of s h "[]" xs n] dlist_ends(1) [of s h xs] by (simp add: mini_os_list_head_def)

lemma tail_dlist: "dlist s h xs \<Longrightarrow> n \<notin> set (h # xs) \<Longrightarrow> dlist (snd (mini_os_list_tail (Some n) (Some h) s)) h (xs @ [n])"
  using add_between [of s h xs "[]" n] dlist_ends(2) [of s h xs] by (simp add: mini_os_list_tail_def)

lemma remove_dlist: "dlist s h xs \<Longrightarrow> n \<in> set xs \<Longrightarrow> dlist (snd (mini_os_list_remove (Some n) s)) h (remove1 n xs)"
proof -
  assume d: "dlist s h xs" and n: "n \<in> set xs"
  obtain ys zs where x: "xs = ys @ n # zs" "n \<notin> set ys" using split_list_first [OF n] by blast
  then have "remove1 n xs = ys @ zs" by (simp add: remove1_append)
  then show ?thesis using remove_between(1) d x(1) by metis
qed

lemma empty_dlist: "dlist s h xs \<Longrightarrow> mini_os_list_is_empty (Some h) s \<longleftrightarrow> xs = []"
  by (cases xs) (auto simp: dlist_def mini_os_list_is_empty_def)

lemma walk_chain: "chain s a (xs @ [h]) \<Longrightarrow> h \<notin> set xs \<Longrightarrow> length xs < k \<Longrightarrow> list_walk k s h (l_next s a) = Some xs"
proof (induction xs arbitrary: a k)
  case Nil
  then show ?case by (cases k) auto
next
  case (Cons x xs)
  then show ?case by (cases k) auto
qed

lemma walk_dlist: "dlist s h xs \<Longrightarrow> length xs < k \<Longrightarrow> list_walk k s h (l_next s h) = Some xs"
  using walk_chain by (auto simp: dlist_def)

text \<open>Lists that share no node do not disturb each other.\<close>

lemma other_dlist:
  assumes "dlist s h xs" "\<forall>x \<in> set (h # xs). l_next s' x = l_next s x \<and> l_prev s' x = l_prev s x"
  shows "dlist s' h xs"
proof -
  have "chain s' h (xs @ [h]) = chain s h (xs @ [h])" by (rule chain_cong) (use assms(2) in \<open>auto simp: butlast_append\<close>)
  then show ?thesis using assms(1) by (simp add: dlist_def)
qed


text \<open>The same for singly linked lists, used as stacks.\<close>

fun schain :: "slinks \<Rightarrow> addr \<Rightarrow> addr list \<Rightarrow> bool" where
  "schain s a [] = True"
| "schain s a (x # xs) = (s a = x \<and> schain s x xs)"

definition slist :: "slinks \<Rightarrow> addr \<Rightarrow> addr list \<Rightarrow> bool" where
  "slist s h xs \<longleftrightarrow> distinct (h # xs) \<and> schain s h (xs @ [h])"

lemma schain_cong: "(\<And>x. x \<in> set (butlast (a # xs)) \<Longrightarrow> s' x = s x) \<Longrightarrow> schain s' a xs = schain s a xs"
  by (induction xs arbitrary: a) auto

lemma slist_other: "slist s h xs \<Longrightarrow> (\<And>x. x \<in> set (h # xs) \<Longrightarrow> s' x = s x) \<Longrightarrow> slist s' h xs"
  using schain_cong [of h "xs @ [h]" s' s] by (simp add: slist_def butlast_append)

lemma sinit_slist: "slist (snd (mini_os_single_list_init (Some h) s)) h []"
  by (simp add: slist_def mini_os_single_list_init_def)

lemma sempty_slist: "slist s h xs \<Longrightarrow> mini_os_single_list_is_empty (Some h) s \<longleftrightarrow> xs = []"
  by (cases xs) (auto simp: slist_def mini_os_single_list_is_empty_def)

lemma push_slist:
  assumes "slist s h xs" "n \<notin> set (h # xs)"
  shows "\<exists>s'. mini_os_single_list_push_heap (Some h) (Some n) s = Some (MINI_OK, s') \<and> slist s' h (n # xs) \<and> (\<forall>x. x \<noteq> h \<longrightarrow> x \<noteq> n \<longrightarrow> s' x = s x)"
proof -
  let ?s = "s(n := s h, h := n)"
  have "schain ?s (hd (xs @ [h])) (tl (xs @ [h])) = schain s (hd (xs @ [h])) (tl (xs @ [h]))"
    by (rule schain_cong, cases xs) (use assms in \<open>auto simp: slist_def butlast_append\<close>)
  then have "slist ?s h (n # xs)" using assms by (cases xs) (auto simp: slist_def)
  then show ?thesis
    by (simp add: mini_os_single_list_push_heap_def mini_os_single_list_add_after_def mini_os_single_list_add_def)
qed

lemma pop_slist:
  assumes "slist s h (n # xs)"
  shows "\<exists>s'. mini_os_single_list_remove (Some n) (Some h) s = (MINI_OK, s') \<and> slist s' h xs \<and> (\<forall>x. x \<noteq> h \<longrightarrow> x \<noteq> n \<longrightarrow> s' x = s x)"
proof -
  let ?s = "s(h := s n, n := n)"
  have "schain ?s (hd (xs @ [h])) (tl (xs @ [h])) = schain s (hd (xs @ [h])) (tl (xs @ [h]))"
    by (rule schain_cong, cases xs) (use assms in \<open>auto simp: slist_def butlast_append\<close>)
  then have "slist ?s h xs" using assms by (cases xs) (auto simp: slist_def)
  then show ?thesis using assms by (auto simp: mini_os_single_list_remove_def Let_def slist_def)
qed

subsection \<open>What clients rely on\<close>

text \<open>A representation of sequences of nodes with insertion at both ends and removal of any node.\<close>

datatype list_op = Op_head addr | Op_tail addr | Op_remove addr

locale node_seq =
  fixes rep :: "'s \<Rightarrow> addr \<Rightarrow> addr list \<Rightarrow> bool" and ins_head ins_tail :: "addr option \<Rightarrow> addr option \<Rightarrow> 's \<Rightarrow> int \<times> 's"
    and rem :: "addr option \<Rightarrow> 's \<Rightarrow> int \<times> 's"
  assumes head_law: "rep s h xs \<Longrightarrow> n \<notin> set (h # xs) \<Longrightarrow> \<exists>s'. ins_head (Some n) (Some h) s = (MINI_OK, s') \<and> rep s' h (n # xs)"
    and tail_law: "rep s h xs \<Longrightarrow> n \<notin> set (h # xs) \<Longrightarrow> \<exists>s'. ins_tail (Some n) (Some h) s = (MINI_OK, s') \<and> rep s' h (xs @ [n])"
    and remove_law: "rep s h xs \<Longrightarrow> n \<in> set xs \<Longrightarrow> \<exists>s'. rem (Some n) s = (MINI_OK, s') \<and> rep s' h (remove1 n xs)"
begin

fun op_step :: "list_op \<Rightarrow> addr \<Rightarrow> 's \<Rightarrow> int \<times> 's" where
  "op_step (Op_head n) h s = ins_head (Some n) (Some h) s"
| "op_step (Op_tail n) h s = ins_tail (Some n) (Some h) s"
| "op_step (Op_remove n) h s = rem (Some n) s"

end

fun list_spec :: "list_op list \<Rightarrow> addr list \<Rightarrow> addr list option" where
  "list_spec [] xs = Some xs"
| "list_spec (Op_head n # ops) xs = (if n \<in> set xs then None else list_spec ops (n # xs))"
| "list_spec (Op_tail n # ops) xs = (if n \<in> set xs then None else list_spec ops (xs @ [n]))"
| "list_spec (Op_remove n # ops) xs = (if n \<in> set xs then list_spec ops (remove1 n xs) else None)"

fun op_node :: "list_op \<Rightarrow> addr" where
  "op_node (Op_head n) = n"
| "op_node (Op_tail n) = n"
| "op_node (Op_remove n) = n"

context node_seq
begin

lemma trace_law:
  "rep s h xs \<Longrightarrow> list_spec ops xs = Some ys \<Longrightarrow> h \<notin> op_node ` set ops \<Longrightarrow> rep (fold (\<lambda>op s. snd (op_step op h s)) ops s) h ys"
proof (induction ops xs arbitrary: s rule: list_spec.induct)
  case (2 n ops xs)
  then show ?case using head_law [of s h xs n] by (auto split: if_splits)
next
  case (3 n ops xs)
  then show ?case using tail_law [of s h xs n] by (auto split: if_splits)
next
  case (4 n ops xs)
  then show ?case using remove_law [of s h xs n] by (auto split: if_splits)
qed simp

end

interpretation dl: node_seq dlist mini_os_list_head mini_os_list_tail mini_os_list_remove
proof (unfold_locales, goal_cases)
  case (1 s h xs n)
  then show ?case using head_dlist by (auto simp: mini_os_list_head_def mini_os_list_add_def)
next
  case (2 s h xs n)
  then show ?case using tail_dlist by (auto simp: mini_os_list_tail_def mini_os_list_add_def)
next
  case (3 s h xs n)
  then show ?case using remove_dlist by (auto simp: mini_os_list_remove_def Let_def)
qed


fun list_op_step :: "list_op \<Rightarrow> addr \<Rightarrow> links \<Rightarrow> int \<times> links" where
  "list_op_step (Op_head n) h s = mini_os_list_head (Some n) (Some h) s"
| "list_op_step (Op_tail n) h s = mini_os_list_tail (Some n) (Some h) s"
| "list_op_step (Op_remove n) h s = mini_os_list_remove (Some n) s"

definition list_run :: "list_op list \<Rightarrow> addr \<Rightarrow> links \<Rightarrow> links" where
  "list_run ops h s = fold (\<lambda>op s. snd (list_op_step op h s)) ops (snd (mini_os_list_init (Some h) s))"

lemma op_step_eq: "list_op_step op h s = dl.op_step op h s"
  by (cases op) simp_all

text \<open>
  C1. The linked lists behave as sequences. For any nodes other than the head, and any insertions of nodes that are not on the list
  and removals of nodes that are, the walk over the links yields, in order and ending at the head, what the same
  operations make of a sequence; the test for emptiness agrees with it.
\<close>

theorem os_list_refines:
  assumes "list_spec ops [] = Some ys" "h \<notin> op_node ` set ops"
  shows "list_walk (Suc (length ys)) (list_run ops h s) h (l_next (list_run ops h s) h) = Some ys \<and>
    (mini_os_list_is_empty (Some h) (list_run ops h s) \<longleftrightarrow> ys = [])"
proof -
  have "dlist (list_run ops h s) h ys" using dl.trace_law [OF init_dlist assms] by (simp add: list_run_def op_step_eq)
  then show ?thesis using walk_dlist empty_dlist by blast
qed

theorem os_list_refines_witness:
  "let s = list_run [Op_tail 10, Op_tail 20, Op_head 30, Op_remove 10, Op_tail 40] 1 \<lparr>l_next = (\<lambda>a. 0), l_prev = (\<lambda>a. 0)\<rparr> in
   list_walk 4 s 1 (l_next s 1) = Some [30, 20, 40] \<and> \<not> mini_os_list_is_empty (Some 1) s"
  using os_list_refines [of "[Op_tail 10, Op_tail 20, Op_head 30, Op_remove 10, Op_tail 40]" "[30, 20, 40]" 1 "\<lparr>l_next = (\<lambda>a. 0), l_prev = (\<lambda>a. 0)\<rparr>"]
  by (simp add: Let_def eval_nat_numeral del: list_walk.simps)

end
