(* ===== verification/Os_Slab.thy ===== *)
theory Os_Slab
  imports Os_List
begin

text \<open>
  The size classes of \<^verbatim>\<open>lib/mini-os/src/memory.c\<close>, with the default sizes of \<^verbatim>\<open>mem_heap.h\<close>: a zone of pages, each cut into
  slots of one class, and a list of free slots per class. The heads of these lists are an array of nodes at the
  address \<open>heads\<close>.
\<close>

definition MINI_OS_SLAB_PAGE_SIZE :: nat where "MINI_OS_SLAB_PAGE_SIZE = 2048"
definition MINI_OS_SLAB_PAGE_MAX :: nat where "MINI_OS_SLAB_PAGE_MAX = 4"
definition MINI_OS_SLAB_PROPORTION :: nat where "MINI_OS_SLAB_PROPORTION = 4"
definition MINI_OS_SLAB_MINI_BYTES :: nat where "MINI_OS_SLAB_MINI_BYTES = 16"
definition MINI_OS_SLAB_CLASS_COUNT :: nat where "MINI_OS_SLAB_CLASS_COUNT = 5"
definition MINI_OS_SLAB_MAX_BYTES :: nat where "MINI_OS_SLAB_MAX_BYTES = MINI_OS_SLAB_MINI_BYTES * 2 ^ (MINI_OS_SLAB_CLASS_COUNT - 1)"

lemmas slab_sizes = MINI_OS_SLAB_PAGE_SIZE_def MINI_OS_SLAB_PAGE_MAX_def MINI_OS_SLAB_PROPORTION_def MINI_OS_SLAB_MINI_BYTES_def
  MINI_OS_SLAB_CLASS_COUNT_def MINI_OS_SLAB_MAX_BYTES_def

definition slab_head :: "addr \<Rightarrow> nat \<Rightarrow> addr" where
  "slab_head heads cls = heads + 4 * cls"

function (sequential) class_loop :: "nat \<Rightarrow> nat \<Rightarrow> nat" where
  "class_loop n cls =
     (if cls + 1 < MINI_OS_SLAB_CLASS_COUNT \<and> MINI_OS_SLAB_MINI_BYTES * 2 ^ cls < n then class_loop n (cls + 1) else cls)"
  by pat_completeness auto
termination
  by (relation "measure (\<lambda>(n, cls). MINI_OS_SLAB_CLASS_COUNT - cls)") auto

definition mini_os_slab_class_of :: "nat \<Rightarrow> nat" where
  "mini_os_slab_class_of n =
     (let cls = class_loop n 0 in if MINI_OS_SLAB_MINI_BYTES * 2 ^ cls < n then MINI_OS_SLAB_CLASS_COUNT else cls)"

definition slot_push :: "addr \<Rightarrow> addr \<Rightarrow> slinks \<Rightarrow> slinks" where
  "slot_push head slot s =
     (let s = snd (mini_os_single_list_init (Some slot) s) in
      case mini_os_single_list_push_heap (Some head) (Some slot) s of Some (rc, s) \<Rightarrow> s | None \<Rightarrow> s)"

definition slot_size_of :: "nat \<Rightarrow> nat" where
  "slot_size_of cls = MINI_OS_SLAB_MINI_BYTES * 2 ^ cls"

text \<open>The inner loop: the first \<open>m\<close> slots of page \<open>i\<close>.\<close>

primrec page_fill :: "addr \<Rightarrow> addr \<Rightarrow> nat \<Rightarrow> nat \<Rightarrow> nat \<Rightarrow> slinks \<Rightarrow> slinks" where
  "page_fill base heads cls i 0 s = s"
| "page_fill base heads cls i (Suc j) s =
     slot_push (slab_head heads cls) (base + i * MINI_OS_SLAB_PAGE_SIZE + j * slot_size_of cls) (page_fill base heads cls i j s)"

primrec zone_fill :: "addr \<Rightarrow> addr \<Rightarrow> nat \<Rightarrow> slinks \<Rightarrow> slinks" where
  "zone_fill base heads 0 s = s"
| "zone_fill base heads (Suc i) s =
     (let cls = i mod MINI_OS_SLAB_CLASS_COUNT;
          slot_size = slot_size_of cls;
          slot_total = MINI_OS_SLAB_PAGE_SIZE div slot_size in
      page_fill base heads cls i slot_total (zone_fill base heads i s))"

definition mini_os_slab_zone_link :: "addr \<Rightarrow> nat \<Rightarrow> addr \<Rightarrow> slinks \<Rightarrow> slinks" where
  "mini_os_slab_zone_link base zone_size heads s =
     zone_fill base heads (zone_size div MINI_OS_SLAB_PAGE_SIZE) s"

text \<open>The two halves of an allocation: the choice of the slot and its removal from the list.\<close>

definition class_peek :: "addr \<Rightarrow> nat \<Rightarrow> slinks \<Rightarrow> addr option" where
  "class_peek heads cls s = (if mini_os_single_list_is_empty (Some (slab_head heads cls)) s then None else Some (s (slab_head heads cls)))"

definition class_unlink :: "addr \<Rightarrow> nat \<Rightarrow> addr \<Rightarrow> slinks \<Rightarrow> slinks" where
  "class_unlink heads cls slot s = snd (mini_os_single_list_remove (Some slot) (Some (slab_head heads cls)) s)"

definition mini_os_slab_class_alloc :: "addr \<Rightarrow> nat \<Rightarrow> slinks \<Rightarrow> addr option \<times> slinks" where
  "mini_os_slab_class_alloc heads cls s =
     (case class_peek heads cls s of None \<Rightarrow> (None, s) | Some slot \<Rightarrow> (Some slot, class_unlink heads cls slot s))"

lemmas class_alloc_defs = mini_os_slab_class_alloc_def class_peek_def class_unlink_def

definition mini_os_slab_zone_free :: "addr \<Rightarrow> nat \<Rightarrow> addr \<Rightarrow> addr \<Rightarrow> slinks \<Rightarrow> int \<times> slinks" where
  "mini_os_slab_zone_free base zone_size heads ptr s =
     (if zone_size = 0 \<or> ptr < base \<or> base + zone_size \<le> ptr then (0, s)
      else
        let offset = ptr - base;
            cls = (offset div MINI_OS_SLAB_PAGE_SIZE) mod MINI_OS_SLAB_CLASS_COUNT;
            slot_size = slot_size_of cls in
        if offset mod slot_size \<noteq> 0 then (- 1, s)
        else (1, slot_push (slab_head heads cls) ptr s))"

definition heads_init :: "addr \<Rightarrow> slinks \<Rightarrow> slinks" where
  "heads_init heads s = fold (\<lambda>cls s. snd (mini_os_single_list_init (Some (slab_head heads cls)) s)) [0..<MINI_OS_SLAB_CLASS_COUNT] s"

text \<open>The static zone: its setup, and the two operations of the global heap on it.\<close>

definition mini_os_slab_static_zone_setup :: "addr \<Rightarrow> nat \<Rightarrow> addr \<Rightarrow> slinks \<Rightarrow> slinks" where
  "mini_os_slab_static_zone_setup mem len heads s = mini_os_slab_zone_link mem len heads (heads_init heads s)"

definition mini_os_slab_static_alloc :: "addr \<Rightarrow> nat \<Rightarrow> slinks \<Rightarrow> addr option \<times> slinks" where
  "mini_os_slab_static_alloc heads n s =
     (let cls = mini_os_slab_class_of n in
      if MINI_OS_SLAB_CLASS_COUNT \<le> cls then (None, s) else mini_os_slab_class_alloc heads cls s)"

definition mini_os_slab_static_free :: "addr \<Rightarrow> nat \<Rightarrow> addr \<Rightarrow> addr \<Rightarrow> slinks \<Rightarrow> int \<times> slinks" where
  "mini_os_slab_static_free mem len heads ptr s = mini_os_slab_zone_free mem len heads ptr s"


subsection \<open>Size classes\<close>

lemma slot_sizes: "slot_size_of 0 = 16" "slot_size_of 1 = 32" "slot_size_of 2 = 64" "slot_size_of 3 = 128" "slot_size_of 4 = 256"
  by (simp_all add: slot_size_of_def slab_sizes)

lemma classes: "cls < MINI_OS_SLAB_CLASS_COUNT \<longleftrightarrow> cls \<in> {0, 1, 2, 3, 4}"
  by (auto simp: slab_sizes)

lemma slot_size_pos: "0 < slot_size_of cls" "cls < MINI_OS_SLAB_CLASS_COUNT \<Longrightarrow> slot_size_of cls dvd MINI_OS_SLAB_PAGE_SIZE"
  using slot_sizes by (auto simp: classes MINI_OS_SLAB_PAGE_SIZE_def) (simp add: slot_size_of_def slab_sizes)

lemma class_of_spec:
  "n \<le> MINI_OS_SLAB_MAX_BYTES \<Longrightarrow> mini_os_slab_class_of n < MINI_OS_SLAB_CLASS_COUNT \<and> n \<le> slot_size_of (mini_os_slab_class_of n) \<and>
     (\<forall>cls < mini_os_slab_class_of n. slot_size_of cls < n)"
  "MINI_OS_SLAB_MAX_BYTES < n \<Longrightarrow> mini_os_slab_class_of n = MINI_OS_SLAB_CLASS_COUNT"
proof -
  have l: "class_loop n 0 = (if n \<le> 16 then 0 else if n \<le> 32 then 1 else if n \<le> 64 then 2 else if n \<le> 128 then 3 else 4)"
    by (simp add: slab_sizes numeral_2_eq_2 numeral_3_eq_3)
  show "n \<le> MINI_OS_SLAB_MAX_BYTES \<Longrightarrow> mini_os_slab_class_of n < MINI_OS_SLAB_CLASS_COUNT \<and> n \<le> slot_size_of (mini_os_slab_class_of n) \<and>
     (\<forall>cls < mini_os_slab_class_of n. slot_size_of cls < n)"
    using l by (auto simp: mini_os_slab_class_of_def slot_size_of_def slab_sizes Let_def less_Suc_eq numeral_nat)
  show "MINI_OS_SLAB_MAX_BYTES < n \<Longrightarrow> mini_os_slab_class_of n = MINI_OS_SLAB_CLASS_COUNT"
    using l by (simp add: mini_os_slab_class_of_def slab_sizes Let_def)
qed


subsection \<open>Zones\<close>

definition slots :: "addr \<Rightarrow> nat \<Rightarrow> nat \<Rightarrow> addr set" where
  "slots base pages cls =
     {base + i * MINI_OS_SLAB_PAGE_SIZE + j * slot_size_of cls | i j.
        i < pages \<and> i mod MINI_OS_SLAB_CLASS_COUNT = cls \<and> j < MINI_OS_SLAB_PAGE_SIZE div slot_size_of cls}"

text \<open>\<open>fl\<close> are the sequences of free slots; the heads lie outside the zone.\<close>

definition slab_ok :: "addr \<Rightarrow> nat \<Rightarrow> addr \<Rightarrow> slinks \<Rightarrow> (nat \<Rightarrow> addr list) \<Rightarrow> bool" where
  "slab_ok base pages heads s fl \<longleftrightarrow>
     (\<forall>cls < MINI_OS_SLAB_CLASS_COUNT. slist s (slab_head heads cls) (fl cls) \<and> set (fl cls) \<subseteq> slots base pages cls)"

definition heads_apart :: "addr \<Rightarrow> nat \<Rightarrow> addr \<Rightarrow> bool" where
  "heads_apart base pages heads \<longleftrightarrow>
     heads + 4 * MINI_OS_SLAB_CLASS_COUNT \<le> base \<or> base + pages * MINI_OS_SLAB_PAGE_SIZE \<le> heads"

lemma page_offset:
  assumes "i < pages" "j < MINI_OS_SLAB_PAGE_SIZE div slot_size_of cls" "cls < MINI_OS_SLAB_CLASS_COUNT"
  shows "j * slot_size_of cls + slot_size_of cls \<le> MINI_OS_SLAB_PAGE_SIZE"
    "i * MINI_OS_SLAB_PAGE_SIZE + MINI_OS_SLAB_PAGE_SIZE \<le> pages * MINI_OS_SLAB_PAGE_SIZE"
proof -
  have "Suc j * slot_size_of cls \<le> MINI_OS_SLAB_PAGE_SIZE div slot_size_of cls * slot_size_of cls" using assms(2) by (intro mult_le_mono1) simp
  then show "j * slot_size_of cls + slot_size_of cls \<le> MINI_OS_SLAB_PAGE_SIZE" using slot_size_pos(2) [OF assms(3)] by simp
  have "Suc i * MINI_OS_SLAB_PAGE_SIZE \<le> pages * MINI_OS_SLAB_PAGE_SIZE" using assms(1) by (intro mult_le_mono1) simp
  then show "i * MINI_OS_SLAB_PAGE_SIZE + MINI_OS_SLAB_PAGE_SIZE \<le> pages * MINI_OS_SLAB_PAGE_SIZE" by simp
qed

lemma slots_in_zone:
  assumes "n \<in> slots base pages cls" "cls < MINI_OS_SLAB_CLASS_COUNT"
  shows "base \<le> n" "n + slot_size_of cls \<le> base + pages * MINI_OS_SLAB_PAGE_SIZE"
    "((n - base) div MINI_OS_SLAB_PAGE_SIZE) mod MINI_OS_SLAB_CLASS_COUNT = cls" "(n - base) mod slot_size_of cls = 0"
proof -
  obtain i j where n: "n = base + i * MINI_OS_SLAB_PAGE_SIZE + j * slot_size_of cls" "i < pages" "i mod MINI_OS_SLAB_CLASS_COUNT = cls"
    "j < MINI_OS_SLAB_PAGE_SIZE div slot_size_of cls" using assms(1) by (auto simp: slots_def)
  note o = page_offset [OF n(2,4) assms(2)]
  show "base \<le> n" "n + slot_size_of cls \<le> base + pages * MINI_OS_SLAB_PAGE_SIZE" using n(1) o by simp_all
  have "j * slot_size_of cls < MINI_OS_SLAB_PAGE_SIZE" using o(1) slot_size_pos(1) [of cls] by linarith
  then have "(n - base) div MINI_OS_SLAB_PAGE_SIZE = i" using n(1) by simp
  then show "((n - base) div MINI_OS_SLAB_PAGE_SIZE) mod MINI_OS_SLAB_CLASS_COUNT = cls" using n(3) by simp
  have "slot_size_of cls dvd n - base" using n(1) slot_size_pos(2) [OF assms(2)] by simp
  then show "(n - base) mod slot_size_of cls = 0" by simp
qed

lemma heads_not_slots:
  assumes "heads_apart base pages heads" "c < MINI_OS_SLAB_CLASS_COUNT" "cls < MINI_OS_SLAB_CLASS_COUNT" "n \<in> slots base pages cls"
  shows "slab_head heads c \<noteq> n"
  using slots_in_zone(1,2) [OF assms(4,3)] slot_size_pos(1) [of cls] assms(1,2) by (auto simp: heads_apart_def slab_head_def)

lemma slots_disjoint:
  "n \<in> slots base pages c \<Longrightarrow> n \<in> slots base pages cls \<Longrightarrow> c < MINI_OS_SLAB_CLASS_COUNT \<Longrightarrow> cls < MINI_OS_SLAB_CLASS_COUNT \<Longrightarrow> c = cls"
  using slots_in_zone(3) by metis

lemma heads_distinct: "slab_head heads c = slab_head heads cls \<longleftrightarrow> c = cls"
  by (simp add: slab_head_def)

text \<open>A change of the links of one class only.\<close>

lemma other_classes:
  assumes "slab_ok base pages heads s fl" "heads_apart base pages heads" "cls < MINI_OS_SLAB_CLASS_COUNT" "n \<in> slots base pages cls"
    "\<And>x. x \<noteq> slab_head heads cls \<Longrightarrow> x \<noteq> n \<Longrightarrow> s' x = s x" "slist s' (slab_head heads cls) xs" "set xs \<subseteq> slots base pages cls"
  shows "slab_ok base pages heads s' (fl(cls := xs))"
  unfolding slab_ok_def
proof (intro allI impI)
  fix c assume c: "c < MINI_OS_SLAB_CLASS_COUNT"
  show "slist s' (slab_head heads c) ((fl(cls := xs)) c) \<and> set ((fl(cls := xs)) c) \<subseteq> slots base pages c"
  proof (cases "c = cls")
    case False
    have l: "slist s (slab_head heads c) (fl c)" "set (fl c) \<subseteq> slots base pages c" using assms(1) c by (auto simp: slab_ok_def)
    have "s' x = s x" if "x \<in> set (slab_head heads c # fl c)" for x
    proof (rule assms(5))
      show "x \<noteq> slab_head heads cls" using that False l(2) heads_not_slots [OF assms(2,3) c] heads_distinct by auto
      show "x \<noteq> n" using that False l(2) heads_not_slots [OF assms(2) c assms(3,4)] slots_disjoint [OF _ assms(4) c assms(3)] by auto
    qed
    then show ?thesis using False l slist_other [OF l(1)] by simp
  qed (use assms(6,7) in simp)
qed

lemma slot_push_ok:
  assumes "slab_ok base pages heads s fl" "heads_apart base pages heads" "cls < MINI_OS_SLAB_CLASS_COUNT" "n \<in> slots base pages cls" "n \<notin> set (fl cls)"
  shows "slab_ok base pages heads (slot_push (slab_head heads cls) n s) (fl(cls := n # fl cls))"
proof -
  let ?h = "slab_head heads cls" and ?s = "snd (mini_os_single_list_init (Some n) s)"
  have l: "slist s ?h (fl cls)" "set (fl cls) \<subseteq> slots base pages cls" using assms(1,3) by (auto simp: slab_ok_def)
  have h: "n \<noteq> ?h" using heads_not_slots [OF assms(2,3,3,4)] by simp
  have "slist ?s ?h (fl cls)" by (rule slist_other [OF l(1)]) (use h assms(5) in \<open>auto simp: mini_os_single_list_init_def\<close>)
  from push_slist [OF this, of n] h assms(5) obtain s' where s': "mini_os_single_list_push_heap (Some ?h) (Some n) ?s = Some (MINI_OK, s')"
    "slist s' ?h (n # fl cls)" "\<And>x. x \<noteq> ?h \<Longrightarrow> x \<noteq> n \<Longrightarrow> s' x = ?s x" by auto
  have e: "slot_push ?h n s = s'" using s'(1) by (simp add: slot_push_def)
  show ?thesis unfolding e
    by (rule other_classes [OF assms(1-4) _ s'(2)]) (use s'(3) l(2) assms(4) in \<open>auto simp: mini_os_single_list_init_def\<close>)
qed

lemma class_alloc_ok:
  assumes "slab_ok base pages heads s fl" "heads_apart base pages heads" "cls < MINI_OS_SLAB_CLASS_COUNT"
  shows "fl cls = [] \<Longrightarrow> mini_os_slab_class_alloc heads cls s = (None, s)"
    "fl cls = n # xs \<Longrightarrow> \<exists>s'. mini_os_slab_class_alloc heads cls s = (Some n, s') \<and> slab_ok base pages heads s' (fl(cls := xs)) \<and> n \<in> slots base pages cls"
proof -
  let ?h = "slab_head heads cls"
  have l: "slist s ?h (fl cls)" "set (fl cls) \<subseteq> slots base pages cls" using assms(1,3) by (auto simp: slab_ok_def)
  show "fl cls = [] \<Longrightarrow> mini_os_slab_class_alloc heads cls s = (None, s)"
    using sempty_slist [OF l(1)] by (simp add: class_alloc_defs)
  assume f: "fl cls = n # xs"
  obtain s' where s': "mini_os_single_list_remove (Some n) (Some ?h) s = (MINI_OK, s')" "slist s' ?h xs" "\<And>x. x \<noteq> ?h \<Longrightarrow> x \<noteq> n \<Longrightarrow> s' x = s x"
    using pop_slist [of s ?h n xs] l(1) f by auto
  have "s ?h = n" "\<not> mini_os_single_list_is_empty (Some ?h) s" using l(1) f sempty_slist [OF l(1)] by (auto simp: slist_def)
  then have "mini_os_slab_class_alloc heads cls s = (Some n, s')" using s'(1) by (simp add: class_alloc_defs)
  moreover have "slab_ok base pages heads s' (fl(cls := xs))"
    by (rule other_classes [OF assms _ s'(3,2)]) (use f l(2) in auto)
  ultimately show "\<exists>s'. mini_os_slab_class_alloc heads cls s = (Some n, s') \<and> slab_ok base pages heads s' (fl(cls := xs)) \<and> n \<in> slots base pages cls"
    using f l(2) by auto
qed


subsection \<open>Setting up a zone\<close>

lemma slot_coordinates:
  assumes "j < MINI_OS_SLAB_PAGE_SIZE div slot_size_of cls" "cls < MINI_OS_SLAB_CLASS_COUNT"
  shows "(i * MINI_OS_SLAB_PAGE_SIZE + j * slot_size_of cls) div MINI_OS_SLAB_PAGE_SIZE = i"
    "(i * MINI_OS_SLAB_PAGE_SIZE + j * slot_size_of cls) mod MINI_OS_SLAB_PAGE_SIZE div slot_size_of cls = j"
proof -
  have "j * slot_size_of cls < MINI_OS_SLAB_PAGE_SIZE"
    using page_offset(1) [of i "Suc i", OF _ assms] slot_size_pos(1) [of cls] by linarith
  then show "(i * MINI_OS_SLAB_PAGE_SIZE + j * slot_size_of cls) div MINI_OS_SLAB_PAGE_SIZE = i"
    "(i * MINI_OS_SLAB_PAGE_SIZE + j * slot_size_of cls) mod MINI_OS_SLAB_PAGE_SIZE div slot_size_of cls = j"
    using slot_size_pos(1) [of cls] by simp_all
qed

definition page_slots :: "addr \<Rightarrow> nat \<Rightarrow> nat \<Rightarrow> nat \<Rightarrow> addr set" where
  "page_slots base cls i m = (\<lambda>j. base + i * MINI_OS_SLAB_PAGE_SIZE + j * slot_size_of cls) ` {..<m}"

lemma page_link:
  assumes "heads_apart base pages heads" "i < pages" "cls = i mod MINI_OS_SLAB_CLASS_COUNT" "slab_ok base pages heads s fl" "set (fl cls) = slots base i cls"
  shows "m \<le> MINI_OS_SLAB_PAGE_SIZE div slot_size_of cls \<Longrightarrow>
    \<exists>xs. slab_ok base pages heads (page_fill base heads cls i m s) (fl(cls := xs)) \<and>
      set xs = slots base i cls \<union> page_slots base cls i m"
proof (induction m)
  case 0
  show ?case using assms(4,5) by (intro exI [of _ "fl cls"]) (simp add: page_slots_def)
next
  case (Suc m)
  let ?n = "base + i * MINI_OS_SLAB_PAGE_SIZE + m * slot_size_of cls"
  have c: "cls < MINI_OS_SLAB_CLASS_COUNT" using assms(3) by (simp add: slab_sizes)
  obtain xs where xs: "slab_ok base pages heads (page_fill base heads cls i m s) (fl(cls := xs))"
    "set xs = slots base i cls \<union> page_slots base cls i m" using Suc.IH Suc_leD [OF Suc.prems] by blast
  have m: "m < MINI_OS_SLAB_PAGE_SIZE div slot_size_of cls" using Suc.prems by simp
  have "?n \<notin> slots base i cls"
  proof
    assume "?n \<in> slots base i cls"
    then obtain i' j' where e: "?n = base + i' * MINI_OS_SLAB_PAGE_SIZE + j' * slot_size_of cls" "i' < i" "j' < MINI_OS_SLAB_PAGE_SIZE div slot_size_of cls"
      by (auto simp: slots_def)
    then have "i * MINI_OS_SLAB_PAGE_SIZE + m * slot_size_of cls = i' * MINI_OS_SLAB_PAGE_SIZE + j' * slot_size_of cls" by simp
    then show False using slot_coordinates(1) [OF m c, of i] slot_coordinates(1) [OF e(3) c, of i'] e(2) by simp
  qed
  moreover have "?n \<notin> page_slots base cls i m" using slot_size_pos(1) [of cls] by (auto simp: page_slots_def)
  ultimately have "?n \<notin> set ((fl(cls := xs)) cls)" using xs(2) by simp
  moreover have "?n \<in> slots base pages cls" using assms(2,3) m by (auto simp: slots_def)
  ultimately have "slab_ok base pages heads (page_fill base heads cls i (Suc m) s) (fl(cls := ?n # xs))"
    using slot_push_ok [OF xs(1) assms(1) c] by (simp only: page_fill.simps fun_upd_upd fun_upd_same)
  moreover have "set (?n # xs) = slots base i cls \<union> page_slots base cls i (Suc m)" using xs(2) by (auto simp: page_slots_def lessThan_Suc)
  ultimately show ?case by blast
qed

lemma slots_Suc:
  "slots base (Suc i) c = slots base i c \<union> (if i mod MINI_OS_SLAB_CLASS_COUNT = c then page_slots base c i (MINI_OS_SLAB_PAGE_SIZE div slot_size_of c) else {})"
  by (auto simp: slots_def page_slots_def less_Suc_eq)

lemma zone_link_ok:
  assumes "heads_apart base pages heads" "slab_ok base pages heads s (\<lambda>c. [])"
  shows "\<exists>fl. slab_ok base pages heads (mini_os_slab_zone_link base (pages * MINI_OS_SLAB_PAGE_SIZE) heads s) fl \<and>
    (\<forall>c < MINI_OS_SLAB_CLASS_COUNT. set (fl c) = slots base pages c)"
proof -
  have "k \<le> pages \<Longrightarrow> \<exists>fl. slab_ok base pages heads (zone_fill base heads k s) fl \<and> (\<forall>c < MINI_OS_SLAB_CLASS_COUNT. set (fl c) = slots base k c)" for k
  proof (induction k)
    case 0
    show ?case using assms(2) by (intro exI [of _ "\<lambda>c. []"]) (simp add: slots_def)
  next
    case (Suc k)
    then obtain fl where fl: "slab_ok base pages heads (zone_fill base heads k s) fl" "\<forall>c < MINI_OS_SLAB_CLASS_COUNT. set (fl c) = slots base k c" by auto
    let ?c = "k mod MINI_OS_SLAB_CLASS_COUNT"
    have c: "?c < MINI_OS_SLAB_CLASS_COUNT" by (simp add: slab_sizes)
    obtain xs where xs: "slab_ok base pages heads (zone_fill base heads (Suc k) s) (fl(?c := xs))"
      "set xs = slots base k ?c \<union> page_slots base ?c k (MINI_OS_SLAB_PAGE_SIZE div slot_size_of ?c)"
      using page_link [where i = k and m = "MINI_OS_SLAB_PAGE_SIZE div slot_size_of ?c", OF assms(1) _ refl fl(1)] fl(2) c Suc.prems by (auto simp only: zone_fill.simps Let_def Suc_le_eq)
    moreover have "set ((fl(?c := xs)) c) = slots base (Suc k) c" if "c < MINI_OS_SLAB_CLASS_COUNT" for c
      using xs(2) fl(2) that by (auto simp: slots_Suc)
    ultimately show ?case by blast
  qed
  then show ?thesis by (simp add: mini_os_slab_zone_link_def MINI_OS_SLAB_PAGE_SIZE_def)
qed

lemma heads_init_ok: "slab_ok base pages heads (heads_init heads s) (\<lambda>c. [])"
  unfolding slab_ok_def classes
  by (auto simp: heads_init_def MINI_OS_SLAB_CLASS_COUNT_def slab_head_def mini_os_single_list_init_def slist_def eval_nat_numeral)

lemma zone_free_ok:
  assumes "slab_ok base pages heads s fl" "heads_apart base pages heads" "cls < MINI_OS_SLAB_CLASS_COUNT" "n \<in> slots base pages cls" "n \<notin> set (fl cls)"
  shows "\<exists>s'. mini_os_slab_zone_free base (pages * MINI_OS_SLAB_PAGE_SIZE) heads n s = (1, s') \<and> slab_ok base pages heads s' (fl(cls := n # fl cls))"
proof -
  note z = slots_in_zone [OF assms(4,3)]
  have "\<not> (pages * MINI_OS_SLAB_PAGE_SIZE = 0 \<or> n < base \<or> base + pages * MINI_OS_SLAB_PAGE_SIZE \<le> n)"
    using z(1,2) slot_size_pos(1) [of cls] by linarith
  then have "mini_os_slab_zone_free base (pages * MINI_OS_SLAB_PAGE_SIZE) heads n s = (1, slot_push (slab_head heads cls) n s)"
    unfolding mini_os_slab_zone_free_def Let_def z(3) z(4) by (simp only: if_False not_True_eq_False simp_thms)
  then show ?thesis using slot_push_ok [OF assms] by simp
qed


subsection \<open>Clients of a zone\<close>

lemma slots_apart:
  assumes "n \<in> slots base pages c" "m \<in> slots base pages d" "c < MINI_OS_SLAB_CLASS_COUNT" "d < MINI_OS_SLAB_CLASS_COUNT" "n \<noteq> m"
  shows "n + slot_size_of c \<le> m \<or> m + slot_size_of d \<le> n"
proof -
  obtain i j where n: "n = base + i * MINI_OS_SLAB_PAGE_SIZE + j * slot_size_of c" "i mod MINI_OS_SLAB_CLASS_COUNT = c"
    "j < MINI_OS_SLAB_PAGE_SIZE div slot_size_of c" using assms(1) by (auto simp: slots_def)
  obtain i' j' where m: "m = base + i' * MINI_OS_SLAB_PAGE_SIZE + j' * slot_size_of d" "i' mod MINI_OS_SLAB_CLASS_COUNT = d"
    "j' < MINI_OS_SLAB_PAGE_SIZE div slot_size_of d" using assms(2) by (auto simp: slots_def)
  note o = page_offset [OF _ n(3) assms(3), of i] page_offset [OF _ m(3) assms(4), of i']
  consider (less) "i < i'" | (more) "i' < i" | (left) "i = i'" "j < j'" | (right) "i = i'" "j' < j"
    using n(1,2) m(1,2) assms(5) by (metis linorder_neqE_nat)
  then show ?thesis
  proof cases
    case less
    then show ?thesis using o(1) [OF less] o(2) [OF less] n(1) m(1) by linarith
  next
    case more
    then show ?thesis using o(3) [OF more] o(4) [OF more] n(1) m(1) by linarith
  next
    case left
    then have "Suc j * slot_size_of c \<le> j' * slot_size_of c" by (intro mult_le_mono1) simp
    then show ?thesis using left n m by simp
  next
    case right
    then have "Suc j' * slot_size_of c \<le> j * slot_size_of c" by (intro mult_le_mono1) simp
    then show ?thesis using right n m by simp
  qed
qed

text \<open>
  A client of the zone holds the slots \<open>H\<close>, with the size asked for, writes into them, asks for more and gives them back.
\<close>

inductive slab_client :: "addr \<Rightarrow> nat \<Rightarrow> addr \<Rightarrow> slinks \<Rightarrow> (addr \<rightharpoonup> nat) \<Rightarrow> bool" for base len heads where
  start: "slab_client base len heads (mini_os_slab_static_zone_setup base len heads s) Map.empty"
| take: "slab_client base len heads s H \<Longrightarrow> mini_os_slab_static_alloc heads n s = (Some p, s') \<Longrightarrow> slab_client base len heads s' (H(p \<mapsto> n))"
| give: "slab_client base len heads s H \<Longrightarrow> p \<in> dom H \<Longrightarrow> mini_os_slab_static_free base len heads p s = (rc, s') \<Longrightarrow> slab_client base len heads s' (H(p := None))"
| use: "slab_client base len heads s H \<Longrightarrow> H p = Some n \<Longrightarrow> p \<le> a \<Longrightarrow> a < p + n \<Longrightarrow> slab_client base len heads (s(a := v)) H"

definition slab_shared :: "addr \<Rightarrow> nat \<Rightarrow> addr \<Rightarrow> slinks \<Rightarrow> (addr \<rightharpoonup> nat) \<Rightarrow> (nat \<Rightarrow> addr list) \<Rightarrow> bool" where
  "slab_shared base pages heads s H fl \<longleftrightarrow> slab_ok base pages heads s fl \<and>
     (\<forall>p n. H p = Some n \<longrightarrow> n \<le> MINI_OS_SLAB_MAX_BYTES \<and> p \<in> slots base pages (mini_os_slab_class_of n)) \<and>
     (\<forall>c < MINI_OS_SLAB_CLASS_COUNT. set (fl c) = slots base pages c - dom H)"

lemma static_alloc_shared:
  assumes "slab_shared base pages heads s H fl" "heads_apart base pages heads" "mini_os_slab_static_alloc heads n s = (Some p, s')"
  shows "\<exists>fl'. slab_shared base pages heads s' (H(p \<mapsto> n)) fl'"
proof -
  let ?c = "mini_os_slab_class_of n"
  have n: "n \<le> MINI_OS_SLAB_MAX_BYTES" and c: "?c < MINI_OS_SLAB_CLASS_COUNT" and a: "mini_os_slab_class_alloc heads ?c s = (Some p, s')"
    using assms(3) class_of_spec(2) [of n] by (auto simp: mini_os_slab_static_alloc_def Let_def not_le split: if_splits) (metis not_le order_refl)
  have ok: "slab_ok base pages heads s fl" and f: "\<And>d. d < MINI_OS_SLAB_CLASS_COUNT \<Longrightarrow> set (fl d) = slots base pages d - dom H"
    using assms(1) by (auto simp: slab_shared_def)
  have "fl ?c \<noteq> []" using class_alloc_ok(1) [OF ok assms(2) c] a by auto
  then obtain q xs where q: "fl ?c = q # xs" by (cases "fl ?c") auto
  have p: "q = p" "slab_ok base pages heads s' (fl(?c := xs))" "p \<in> slots base pages ?c" using class_alloc_ok(2) [OF ok assms(2) c q] a by auto
  have "distinct (fl ?c)" using ok c by (auto simp: slab_ok_def slist_def)
  then have "set xs = slots base pages ?c - dom (H(p \<mapsto> n))" using f [OF c] q p(1) by auto
  moreover have "set (fl d) = slots base pages d - dom (H(p \<mapsto> n))" if "d < MINI_OS_SLAB_CLASS_COUNT" "d \<noteq> ?c" for d
    using f [OF that(1)] that slots_disjoint [OF p(3) _ c that(1)] by auto
  ultimately have "slab_shared base pages heads s' (H(p \<mapsto> n)) (fl(?c := xs))" using p(2,3) n assms(1) by (auto simp: slab_shared_def)
  then show ?thesis by blast
qed

lemma static_free_shared:
  assumes "slab_shared base pages heads s H fl" "heads_apart base pages heads" "H p = Some n"
  shows "\<exists>s' fl'. mini_os_slab_static_free base (pages * MINI_OS_SLAB_PAGE_SIZE) heads p s = (1, s') \<and> slab_shared base pages heads s' (H(p := None)) fl'"
proof -
  let ?c = "mini_os_slab_class_of n"
  have n: "n \<le> MINI_OS_SLAB_MAX_BYTES" "p \<in> slots base pages ?c" and ok: "slab_ok base pages heads s fl"
    and f: "\<And>d. d < MINI_OS_SLAB_CLASS_COUNT \<Longrightarrow> set (fl d) = slots base pages d - dom H"
    using assms(1,3) by (auto simp: slab_shared_def)
  have c: "?c < MINI_OS_SLAB_CLASS_COUNT" using class_of_spec(1) n(1) by blast
  have p: "p \<notin> set (fl ?c)" using f [OF c] assms(3) by auto
  obtain s' where s': "mini_os_slab_zone_free base (pages * MINI_OS_SLAB_PAGE_SIZE) heads p s = (1, s')" "slab_ok base pages heads s' (fl(?c := p # fl ?c))"
    using zone_free_ok [OF ok assms(2) c n(2) p] by blast
  have "set (p # fl ?c) = slots base pages ?c - dom (H(p := None))" using f [OF c] n(2) by auto
  moreover have "set (fl d) = slots base pages d - dom (H(p := None))" if "d < MINI_OS_SLAB_CLASS_COUNT" "d \<noteq> ?c" for d
    using f [OF that(1)] that slots_disjoint [OF n(2) _ c that(1)] by auto
  ultimately have "slab_shared base pages heads s' (H(p := None)) (fl(?c := p # fl ?c))" using s'(2) assms(1) by (auto simp: slab_shared_def)
  then show ?thesis using s'(1) by (auto simp: mini_os_slab_static_free_def)
qed

lemma held_write_shared:
  assumes "slab_shared base pages heads s H fl" "heads_apart base pages heads" "H p = Some n" "p \<le> a" "a < p + n"
  shows "slab_shared base pages heads (s(a := v)) H fl"
proof -
  let ?c = "mini_os_slab_class_of n"
  have n: "n \<le> MINI_OS_SLAB_MAX_BYTES" "p \<in> slots base pages ?c" using assms(1,3) by (auto simp: slab_shared_def)
  have c: "?c < MINI_OS_SLAB_CLASS_COUNT" "n \<le> slot_size_of ?c" using class_of_spec(1) n(1) by auto
  have "slist (s(a := v)) (slab_head heads d) (fl d)" if d: "d < MINI_OS_SLAB_CLASS_COUNT" for d
  proof (rule slist_other)
    show "slist s (slab_head heads d) (fl d)" using assms(1) d by (auto simp: slab_shared_def slab_ok_def)
    fix x assume x: "x \<in> set (slab_head heads d # fl d)"
    have "x \<noteq> a"
    proof (cases "x \<in> set (fl d)")
      case True
      then have "x \<in> slots base pages d" "x \<noteq> p" using assms(1,3) d by (auto simp: slab_shared_def)
      then show ?thesis using slots_apart [OF _ n(2) d c(1)] slot_size_pos(1) [of d] c(2) assms(4,5) by fastforce
    next
      case False
      then have "x = slab_head heads d" using x by simp
      then show ?thesis using slots_in_zone(1,2) [OF n(2) c(1)] assms(2,4,5) c(2) d by (auto simp: heads_apart_def slab_head_def)
    qed
    then show "(s(a := v)) x = s x" by simp
  qed
  then show ?thesis using assms(1) by (simp add: slab_shared_def slab_ok_def)
qed

lemma slab_client_shared:
  assumes "slab_client base (pages * MINI_OS_SLAB_PAGE_SIZE) heads s H" "heads_apart base pages heads"
  shows "\<exists>fl. slab_shared base pages heads s H fl"
  using assms(1)
proof induction
  case (start s)
  show ?case using zone_link_ok [OF assms(2) heads_init_ok] by (auto simp: mini_os_slab_static_zone_setup_def slab_shared_def)
next
  case (take s H n p s')
  then show ?case using static_alloc_shared [OF _ assms(2)] by blast
next
  case (give s H p rc s')
  then obtain n fl where "H p = Some n" "slab_shared base pages heads s H fl" by blast
  then show ?case using static_free_shared [OF _ assms(2)] give.hyps(3) by (metis prod.inject)
next
  case (use s H p n a v)
  then show ?case using held_write_shared [OF _ assms(2)] by blast
qed

text \<open>
  C1. Whatever a client does with its slots, the slots it holds lie inside the zone, are as large as asked for and do not
  overlap, each of them can be given back, and a request within the largest class fails only when every slot of its class is held.
\<close>

theorem slab_exclusive:
  assumes "slab_client base (pages * MINI_OS_SLAB_PAGE_SIZE) heads s H" "heads_apart base pages heads"
  shows "(\<forall>p n. H p = Some n \<longrightarrow> base \<le> p \<and> p + n \<le> base + pages * MINI_OS_SLAB_PAGE_SIZE \<and> (p - base) mod MINI_OS_SLAB_MINI_BYTES = 0 \<and>
        fst (mini_os_slab_static_free base (pages * MINI_OS_SLAB_PAGE_SIZE) heads p s) = 1) \<and>
     (\<forall>p n q m. H p = Some n \<longrightarrow> H q = Some m \<longrightarrow> p \<noteq> q \<longrightarrow> p + n \<le> q \<or> q + m \<le> p) \<and>
     (\<forall>n \<le> MINI_OS_SLAB_MAX_BYTES. fst (mini_os_slab_static_alloc heads n s) = None \<longleftrightarrow> slots base pages (mini_os_slab_class_of n) \<subseteq> dom H)"
proof (intro conjI allI impI)
  obtain fl where fl: "slab_shared base pages heads s H fl" using slab_client_shared [OF assms] by blast
  have held: "mini_os_slab_class_of n < MINI_OS_SLAB_CLASS_COUNT \<and> n \<le> slot_size_of (mini_os_slab_class_of n) \<and> p \<in> slots base pages (mini_os_slab_class_of n)"
    if "H p = Some n" for p n using fl that class_of_spec(1) by (auto simp: slab_shared_def)
  {
    fix p n assume p: "H p = Some n"
    note z = slots_in_zone [of p base pages "mini_os_slab_class_of n"]
    show "base \<le> p" "p + n \<le> base + pages * MINI_OS_SLAB_PAGE_SIZE" using held [OF p] z(1,2) by linarith+
    have "MINI_OS_SLAB_MINI_BYTES dvd slot_size_of (mini_os_slab_class_of n)" by (simp add: slot_size_of_def)
    then show "(p - base) mod MINI_OS_SLAB_MINI_BYTES = 0" using held [OF p] z(4) by (metis dvd_trans mod_0_imp_dvd dvd_imp_mod_0)
    show "fst (mini_os_slab_static_free base (pages * MINI_OS_SLAB_PAGE_SIZE) heads p s) = 1" using static_free_shared [OF fl assms(2) p] by auto
  next
    fix p n q m assume "H p = Some n" "H q = Some m" "p \<noteq> q"
    then show "p + n \<le> q \<or> q + m \<le> p" using held slots_apart by fastforce
  next
    fix n assume n: "n \<le> MINI_OS_SLAB_MAX_BYTES"
    let ?c = "mini_os_slab_class_of n"
    have c: "?c < MINI_OS_SLAB_CLASS_COUNT" using class_of_spec(1) n by blast
    have "slab_ok base pages heads s fl" and f: "set (fl ?c) = slots base pages ?c - dom H" using fl c by (auto simp: slab_shared_def)
    note a = class_alloc_ok [OF this(1) assms(2) c]
    have "fst (mini_os_slab_class_alloc heads ?c s) = None \<longleftrightarrow> fl ?c = []" using a by (cases "fl ?c") auto
    also have "\<dots> \<longleftrightarrow> slots base pages ?c \<subseteq> dom H" using f by (metis Diff_eq_empty_iff set_empty)
    finally show "fst (mini_os_slab_static_alloc heads n s) = None \<longleftrightarrow> slots base pages ?c \<subseteq> dom H"
      using c by (simp add: mini_os_slab_static_alloc_def)
  }
qed

theorem slab_exclusive_witness:
  "slab_client 4096 (2 * MINI_OS_SLAB_PAGE_SIZE) 64 (mini_os_slab_static_zone_setup 4096 (2 * MINI_OS_SLAB_PAGE_SIZE) 64 id) Map.empty \<and>
   heads_apart 4096 2 64 \<and>
   fst (mini_os_slab_static_alloc 64 40 (mini_os_slab_static_zone_setup 4096 (2 * MINI_OS_SLAB_PAGE_SIZE) 64 id)) = None \<and>
   fst (mini_os_slab_static_alloc 64 20 (mini_os_slab_static_zone_setup 4096 (2 * MINI_OS_SLAB_PAGE_SIZE) 64 id)) \<noteq> None"
proof -
  have c: "slab_client 4096 (2 * MINI_OS_SLAB_PAGE_SIZE) 64 (mini_os_slab_static_zone_setup 4096 (2 * MINI_OS_SLAB_PAGE_SIZE) 64 id) Map.empty"
    by (rule slab_client.start)
  have h: "heads_apart 4096 2 64" by (simp add: heads_apart_def slab_sizes)
  have k: "mini_os_slab_class_of 40 = 2" "mini_os_slab_class_of 20 = 1"
    by (simp_all add: mini_os_slab_class_of_def slab_sizes Let_def numeral_2_eq_2)
  have e: "slots 4096 2 2 = {}" by (auto simp: slots_def slab_sizes)
  have "4096 + 1 * MINI_OS_SLAB_PAGE_SIZE + 0 * slot_size_of 1 \<in> slots 4096 2 1"
    unfolding slots_def by (intro CollectI exI [of _ 1] exI [of _ 0]) (simp add: slot_size_of_def slab_sizes)
  then have f: "slots 4096 2 1 \<noteq> {}" by blast
  have "(40 :: nat) \<le> MINI_OS_SLAB_MAX_BYTES" "(20 :: nat) \<le> MINI_OS_SLAB_MAX_BYTES" by (simp_all add: slab_sizes)
  then show ?thesis using slab_exclusive [OF c h] c h k e f by simp
qed


subsection \<open>A slot given back twice\<close>

lemma alloc_self_loop:
  assumes "s (slab_head heads c) = p" "s p = p" "p \<noteq> slab_head heads c"
  shows "\<exists>s'. mini_os_slab_class_alloc heads c s = (Some p, s') \<and> s' (slab_head heads c) = p \<and> s' p = p"
  using assms
  by (simp add: class_alloc_defs mini_os_single_list_is_empty_def mini_os_single_list_remove_def Let_def)

lemma slot_push_links:
  assumes "p \<noteq> h"
  shows "slot_push h p s h = p" "s h = p \<Longrightarrow> slot_push h p s p = p"
  using assms
  by (simp_all add: slot_push_def Let_def mini_os_single_list_init_def mini_os_single_list_push_heap_def mini_os_single_list_add_after_def
      mini_os_single_list_add_def)

text \<open>
  C1. Nothing stops a second return of a slot: it is accepted like the first, and then every later request of that class is
  answered with this same slot.
\<close>

theorem slab_double_free:
  assumes "slab_client base (pages * MINI_OS_SLAB_PAGE_SIZE) heads s H" "heads_apart base pages heads" "H p = Some n"
  shows "let (r1, s1) = mini_os_slab_static_free base (pages * MINI_OS_SLAB_PAGE_SIZE) heads p s;
             (r2, s2) = mini_os_slab_static_free base (pages * MINI_OS_SLAB_PAGE_SIZE) heads p s1;
             (a, s3) = mini_os_slab_static_alloc heads n s2;
             (b, s4) = mini_os_slab_static_alloc heads n s3
         in r1 = 1 \<and> r2 = 1 \<and> a = Some p \<and> b = Some p"
proof -
  let ?c = "mini_os_slab_class_of n" let ?h = "slab_head heads ?c" and ?z = "pages * MINI_OS_SLAB_PAGE_SIZE"
  obtain fl where "slab_shared base pages heads s H fl" using slab_client_shared [OF assms(1,2)] by blast
  then have c: "?c < MINI_OS_SLAB_CLASS_COUNT" and p: "p \<in> slots base pages ?c" using assms(3) class_of_spec(1) by (auto simp: slab_shared_def)
  have h: "p \<noteq> ?h" using heads_not_slots [OF assms(2) c c p] by simp
  note z = slots_in_zone [OF p c]
  have "\<not> (?z = 0 \<or> p < base \<or> base + ?z \<le> p)" using z(1,2) slot_size_pos(1) [of ?c] by linarith
  then have f: "mini_os_slab_static_free base ?z heads p s = (1, slot_push ?h p s)" for s
    unfolding mini_os_slab_static_free_def mini_os_slab_zone_free_def Let_def z(3) z(4) by (simp only: if_False not_True_eq_False simp_thms)
  have a: "mini_os_slab_static_alloc heads n s = mini_os_slab_class_alloc heads ?c s" for s using c by (simp add: mini_os_slab_static_alloc_def)
  let ?s2 = "slot_push ?h p (slot_push ?h p s)"
  obtain s3 where s3: "mini_os_slab_class_alloc heads ?c ?s2 = (Some p, s3)" "s3 ?h = p" "s3 p = p"
    using alloc_self_loop [of ?s2 heads ?c p] slot_push_links [OF h] h by blast
  obtain s4 where "mini_os_slab_class_alloc heads ?c s3 = (Some p, s4)" using alloc_self_loop [OF s3(2,3) h] by blast
  then show ?thesis using s3(1) by (simp add: f a)
qed

lemma first_slot: "\<exists>p s. mini_os_slab_static_alloc 64 8 (mini_os_slab_static_zone_setup 4096 (1 * MINI_OS_SLAB_PAGE_SIZE) 64 id) = (Some p, s)"
proof -
  have h: "heads_apart 4096 1 64" by (simp add: heads_apart_def slab_sizes)
  obtain fl where fl: "slab_shared 4096 1 64 (mini_os_slab_static_zone_setup 4096 (1 * MINI_OS_SLAB_PAGE_SIZE) 64 id) Map.empty fl"
    using slab_client_shared [OF slab_client.start h] by blast
  have c: "mini_os_slab_class_of 8 = 0" "0 < MINI_OS_SLAB_CLASS_COUNT" by (simp_all add: mini_os_slab_class_of_def slab_sizes Let_def)
  have "4096 + 0 * MINI_OS_SLAB_PAGE_SIZE + 0 * slot_size_of 0 \<in> slots 4096 1 0"
    unfolding slots_def by (intro CollectI exI [of _ 0]) (simp add: slot_size_of_def slab_sizes)
  then have "fl 0 \<noteq> []" using fl c(2) by (auto simp: slab_shared_def)
  then obtain q xs where q: "fl 0 = q # xs" by (cases "fl 0") auto
  have "slab_ok 4096 1 64 (mini_os_slab_static_zone_setup 4096 (1 * MINI_OS_SLAB_PAGE_SIZE) 64 id) fl" using fl by (simp add: slab_shared_def)
  from class_alloc_ok(2) [OF this h c(2) q] show ?thesis using c by (auto simp: mini_os_slab_static_alloc_def)
qed

theorem slab_double_free_witness:
  "\<exists>s H p. slab_client 4096 (1 * MINI_OS_SLAB_PAGE_SIZE) 64 s H \<and> H p = Some 8 \<and>
     (let (r1, s1) = mini_os_slab_static_free 4096 (1 * MINI_OS_SLAB_PAGE_SIZE) 64 p s;
          (r2, s2) = mini_os_slab_static_free 4096 (1 * MINI_OS_SLAB_PAGE_SIZE) 64 p s1;
          (a, s3) = mini_os_slab_static_alloc 64 8 s2;
          (b, s4) = mini_os_slab_static_alloc 64 8 s3
      in r1 = 1 \<and> r2 = 1 \<and> a = Some p \<and> b = Some p)"
proof -
  have h: "heads_apart 4096 1 64" by (simp add: heads_apart_def slab_sizes)
  obtain p s where "mini_os_slab_static_alloc 64 8 (mini_os_slab_static_zone_setup 4096 (1 * MINI_OS_SLAB_PAGE_SIZE) 64 id) = (Some p, s)"
    using first_slot by blast
  then have c: "slab_client 4096 (1 * MINI_OS_SLAB_PAGE_SIZE) 64 s (Map.empty(p \<mapsto> 8))" by (rule slab_client.take [OF slab_client.start])
  show ?thesis by (rule exI, rule exI, rule exI, rule conjI [OF c], rule conjI [OF _ slab_double_free [OF c h, of p 8]]) simp_all
qed


subsection \<open>An allocation that interrupts another one\<close>

text \<open>
  C1. The allocation from the static zone does not mask interrupts: when an interrupt handler or another thread allocates from
  the same class between the choice of the slot and its removal, both get the same slot, and the list is left such that every
  later request of that class gets it too.
\<close>

theorem slab_alloc_race:
  assumes "slab_client base (pages * MINI_OS_SLAB_PAGE_SIZE) heads s H" "heads_apart base pages heads" "n \<le> MINI_OS_SLAB_MAX_BYTES"
    "class_peek heads (mini_os_slab_class_of n) s = Some p"
  shows "let (a, s1) = mini_os_slab_static_alloc heads n s;
             s2 = class_unlink heads (mini_os_slab_class_of n) p s1;
             (b, s3) = mini_os_slab_static_alloc heads n s2
         in a = Some p \<and> b = Some p"
proof -
  let ?c = "mini_os_slab_class_of n" let ?h = "slab_head heads ?c"
  obtain fl where fl: "slab_shared base pages heads s H fl" using slab_client_shared [OF assms(1,2)] by blast
  have c: "?c < MINI_OS_SLAB_CLASS_COUNT" using assms(3) class_of_spec(1) by blast
  have ok: "slab_ok base pages heads s fl" using fl by (simp add: slab_shared_def)
  have a: "mini_os_slab_static_alloc heads n s = mini_os_slab_class_alloc heads ?c s" for s using c by (simp add: mini_os_slab_static_alloc_def)
  obtain q xs where "fl ?c = q # xs" using class_alloc_ok(1) [OF ok assms(2) c] assms(4) by (cases "fl ?c") (auto simp: mini_os_slab_class_alloc_def)
  from class_alloc_ok(2) [OF ok assms(2) c this] have p: "p \<in> slots base pages ?c" using assms(4) by (auto simp: mini_os_slab_class_alloc_def)
  have h: "p \<noteq> ?h" using heads_not_slots [OF assms(2) c c p] by simp
  let ?s1 = "class_unlink heads ?c p s" let ?s2 = "class_unlink heads ?c p ?s1"
  have "?s2 ?h = p" "?s2 p = p" using h by (simp_all add: class_unlink_def mini_os_single_list_remove_def Let_def)
  then obtain s3 where "mini_os_slab_class_alloc heads ?c ?s2 = (Some p, s3)" using alloc_self_loop [of ?s2 heads ?c p] h by blast
  moreover have "mini_os_slab_class_alloc heads ?c s = (Some p, ?s1)" using assms(4) by (simp add: mini_os_slab_class_alloc_def)
  ultimately show ?thesis by (simp add: a)
qed

theorem slab_alloc_race_witness:
  "\<exists>p. let s = mini_os_slab_static_zone_setup 4096 (1 * MINI_OS_SLAB_PAGE_SIZE) 64 id;
            (a, s1) = mini_os_slab_static_alloc 64 8 s;
            s2 = class_unlink 64 (mini_os_slab_class_of 8) p s1;
            (b, s3) = mini_os_slab_static_alloc 64 8 s2
        in class_peek 64 (mini_os_slab_class_of 8) s = Some p \<and> a = Some p \<and> b = Some p"
proof -
  have h: "heads_apart 4096 1 64" "(8 :: nat) \<le> MINI_OS_SLAB_MAX_BYTES" by (simp_all add: heads_apart_def slab_sizes)
  obtain p s where "mini_os_slab_static_alloc 64 8 (mini_os_slab_static_zone_setup 4096 (1 * MINI_OS_SLAB_PAGE_SIZE) 64 id) = (Some p, s)"
    using first_slot by blast
  then have p: "class_peek 64 (mini_os_slab_class_of 8) (mini_os_slab_static_zone_setup 4096 (1 * MINI_OS_SLAB_PAGE_SIZE) 64 id) = Some p"
    by (auto simp: mini_os_slab_static_alloc_def mini_os_slab_class_alloc_def Let_def split: if_splits option.splits)
  show ?thesis using slab_alloc_race [OF slab_client.start h p] p by (intro exI [of _ p]) (simp add: Let_def split_def)
qed

end
