(* ===== verification/Spec2Isabelle.thy ===== *)
theory Spec2Isabelle
  imports Fifo_SPSC Double_Buffer Log_Flush Config_Slots Event_Bus Ota_Update Dev_Lifecycle Os_Slab
begin

text \<open>
  Verification of the mini_tree middleware.
\<close>

text \<open>
  C1. From the packing tool to the trial run. A host packs a firmware in any mode and layout with a key the device holds; the device
  downloads the image in parts of any size and starts the update. Both calls succeed. The next reset boots the
  partition with the new image, whatever the application does short of confirming it or choosing a partition. Without a
  confirmation the following reset returns to the old partition and records the failure; after a confirmation the device
  stays with the new one over all later resets.
\<close>

theorem update_end_to_end:
  fixes mem :: "'d \<Rightarrow> u8 list"
  assumes crypto: "compatible pc mb" "mbedtls_streams mb" "table_cache_ok cache" "length key \<in> {16, 24, 32}"
      "length rnd = (if mode = IMAGE_CHECK_GCM then 12 else 16)" "length version < 256" "length tag < 256"
    and packed: "make_image pc cache rnd fw version tag is_front mode key [] crc_defaults = Some (packed, cache')"
    and device: "flash_store_inv fl sector mem (s_dev b)" "image_area fl (flash_inactive_area_id True b) area img mem" "length packed \<le> unat (fa_size area)"
    and state: "trial_of (s_ota_state b) = stored_trial fl (s_dev b)" "ota_is_open b \<noteq> 0" "ota_is_rollback b \<noteq> 0"
      "length (s_load_buffer b) = MINI_BOOT_LOAD_MAX" "boot_key_get (s_keys b) = Some key"
    and source: "delivers hook src" "src p = packed"
    and events: "list_all quiet es" "list_all no_choice later"
  defines "ops \<equiv> Some (s_flash_state_ops (Some fl))"
  shows "\<exists>p' b1 b2. mini_boot_source_download_stream (Some fl) ops True b (Some hook) p (length packed) = Some (ERR_OK, p', b1) \<and>
    mini_boot_start_ota mb (Some fl) ops True b1 = Some (ERR_OK, b2) \<and>
    (\<exists>rcs b3. ota_run ops b2 (Ev_boot # es) = Some (rcs, b3) \<and> flash_active_area_id b3 = flash_inactive_area_id True b) \<and>
    (\<exists>rcs b3. ota_run ops b2 (Ev_boot # es @ [Ev_boot]) = Some (rcs, b3) \<and> flash_active_area_id b3 = flash_active_area_id b \<and> ota_fail_get b3 = OTA_FAIL_VERIFY) \<and>
    (\<exists>rcs b3. ota_run ops b2 (Ev_boot # es @ Ev_confirm # later) = Some (rcs, b3) \<and> flash_active_area_id b3 = flash_inactive_area_id True b)"
proof -
  let ?n = "length packed" and ?cur = "tr_current (stored_trial fl (s_dev b))"
  have n32: "?n < 2 ^ 32" using device(3) unsigned_less [of "fa_size area", where 'a = nat] by simp
  note ok = packed_verifies [OF crypto packed n32]
  have n0: "0 < ?n" using ok(2) by linarith
  have works: "flash_works fl" using device(1) by (simp add: flash_store_inv_def)
  obtain p' buf d where dl: "mini_boot_source_download_stream (Some fl) ops True b (Some hook) p ?n =
      Some (ERR_OK, p', b\<lparr>s_load_buffer := buf, s_dev := d, s_downloaded_size := ?n\<rparr>)" "take ?n (img d) = packed" "mem d = mem (s_dev b)"
    using download_law [OF device(2) works source(1) state(2) n0 device(3) _ state(4), of p ops] source(2) by auto
  let ?b1 = "b\<lparr>s_load_buffer := buf, s_dev := d, s_downloaded_size := ?n\<rparr>"
  have inv1: "flash_store_inv fl sector mem (s_dev ?b1)" and st1: "stored_trial fl (s_dev ?b1) = stored_trial fl (s_dev b)"
    using stored_same [OF device(1) dl(3)] by simp_all
  have same: "flash_inactive_area_id True ?b1 = flash_inactive_area_id True b" "ota_is_open ?b1 = ota_is_open b" "ota_is_rollback ?b1 = ota_is_rollback b"
    by (simp_all add: flash_inactive_area_id_def flag_getters)
  have a1: "image_area fl (flash_inactive_area_id True ?b1) area img mem" and o1: "ota_is_open ?b1 \<noteq> 0" "s_downloaded_size ?b1 \<noteq> 0"
    using device(2) state(2) n0 by (simp_all add: same)
  obtain crc where v: "image_verify_stream mb (Some (buf_read (take (s_downloaded_size ?b1) (img (s_dev ?b1))))) (s_downloaded_size ?b1)
      (Some \<lparr>cfg_key = boot_key_get (s_keys ?b1), cfg_mac_key = None\<rparr>) True MINI_BOOT_LOAD_MAX = Some (ERR_OK, crc)"
    using ok(1) dl(2) state(5) by auto
  obtain b2 where b2: "mini_boot_start_ota mb (Some fl) ops True ?b1 = Some (ERR_OK, b2)" "flash_store_inv fl sector mem (s_dev b2)"
    "stored_trial fl (s_dev b2) = tr_activate (\<not> ?cur) True"
    using fs.start_law [OF a1 o1 v inv1] state(1,3) unfolding ops_def same stored_fields inactive_id by (auto simp: Let_def)
  note run = fs.run_law [OF b2(2), folded ops_def, unfolded stored_fields b2(3)] and out = trial_outcomes [OF events, of "\<not> ?cur"]
  have ends: "\<exists>rcs b3. ota_run ops b2 (Ev_boot # x) = Some (rcs, b3) \<and> trial_of (s_ota_state b3) = fold tr_event (Ev_boot # x) (tr_activate (\<not> ?cur) True)" for x
    using run [of "Ev_boot # x"] by (auto simp del: ota_run.simps fold_simps)
  have new: "flash_active_area_id c = flash_inactive_area_id True b" if "tr_current (trial_of (s_ota_state c)) = (\<not> ?cur)" for c :: "'d mini_boot"
    using that by (simp add: area_ids state(1))
  have old: "flash_active_area_id c = flash_active_area_id b" if "tr_current (trial_of (s_ota_state c)) = ?cur" for c :: "'d mini_boot"
    using that by (simp add: area_ids state(1))
  have "\<exists>rcs b3. ota_run ops b2 (Ev_boot # es) = Some (rcs, b3) \<and> flash_active_area_id b3 = flash_inactive_area_id True b"
    using ends [of es] new out(1) by metis
  moreover have "\<exists>rcs b3. ota_run ops b2 (Ev_boot # es @ [Ev_boot]) = Some (rcs, b3) \<and> flash_active_area_id b3 = flash_active_area_id b \<and>
      ota_fail_get b3 = OTA_FAIL_VERIFY"
    using ends [of "es @ [Ev_boot]"] old unfolding out(2) fail_getter by (auto simp del: ota_run.simps)
  moreover have "\<exists>rcs b3. ota_run ops b2 (Ev_boot # es @ Ev_confirm # later) = Some (rcs, b3) \<and> flash_active_area_id b3 = flash_inactive_area_id True b"
    using ends [of "es @ Ev_confirm # later"] new out(3) by metis
  ultimately show ?thesis using dl(1) b2(1) by blast
qed


theorem update_end_to_end_witness:
  "\<exists>packed cache' p' b b1 b2. make_image plain_pycrypto (\<lambda>k. None) (replicate 12 7) [1, 2, 3] [0x31] [] True IMAGE_CHECK_GCM (replicate 16 9) [] crc_defaults = Some (packed, cache') \<and>
    mini_boot_source_download_stream (Some areas_flash) (Some (s_flash_state_ops (Some areas_flash))) True b (Some list_hook) packed (length packed) = Some (ERR_OK, p', b1) \<and>
    mini_boot_start_ota plain_crypto (Some areas_flash) (Some (s_flash_state_ops (Some areas_flash))) True b1 = Some (ERR_OK, b2) \<and>
    (\<exists>rcs b3. ota_run (Some (s_flash_state_ops (Some areas_flash))) b2 [Ev_boot, Ev_app, Ev_open True] = Some (rcs, b3) \<and> flash_active_area_id b3 = FLASH_AREA_ID_IMAGE_1) \<and>
    (\<exists>rcs b3. ota_run (Some (s_flash_state_ops (Some areas_flash))) b2 [Ev_boot, Ev_app, Ev_open True, Ev_boot] = Some (rcs, b3) \<and>
       flash_active_area_id b3 = FLASH_AREA_ID_IMAGE_0 \<and> ota_fail_get b3 = OTA_FAIL_VERIFY) \<and>
    (\<exists>rcs b3. ota_run (Some (s_flash_state_ops (Some areas_flash))) b2 [Ev_boot, Ev_app, Ev_open True, Ev_confirm, Ev_boot, Ev_boot, Ev_boot] = Some (rcs, b3) \<and>
       flash_active_area_id b3 = FLASH_AREA_ID_IMAGE_1)"
proof -
  define b where "b = (loaded_boot [] 0)\<lparr>s_keys := \<lparr>s_key = replicate 32 9, s_key_len = 16\<rparr>\<rparr>"
  obtain payload aux c where im: "pack_payload plain_pycrypto (replicate 12 7) [1, 2, 3] IMAGE_CHECK_GCM (replicate 16 9) (replicate 16 9) = Some (payload, aux)"
    "length aux = aux_size IMAGE_CHECK_GCM"
    "make_image plain_pycrypto (\<lambda>k. None) (replicate 12 7) [1, 2, 3] [0x31] [] True IMAGE_CHECK_GCM (replicate 16 9) [] crc_defaults =
       Some (image_bytes True IMAGE_CHECK_GCM [0x31] [] aux payload (device_crc payload), c)"
    using make_image_eq [OF plain_compatible, of "\<lambda>k. None" "replicate 16 9" "replicate 12 7" IMAGE_CHECK_GCM "[0x31]" "[]" "[1, 2, 3]" "[]" True]
    by (simp add: table_cache_ok_def) blast
  let ?im = "image_bytes True IMAGE_CHECK_GCM [0x31] [] aux payload (device_crc payload)"
  have "length payload = 3" using im(1) by (auto simp: pack_payload_def ase_gcm_encrypt_def plain_pycrypto_def)
  then have l: "length ?im \<le> unat (fa_size (area_of 1))" using length_image_bytes [OF im(2)] by (simp add: aux_size_def image_aux_len_def area_of_def)
  have f: "s_dev b = s_dev (loaded_boot [] 0)" "s_ota_state b = s_ota_state (loaded_boot [] 0)" "ota_is_open b = 1" "ota_is_rollback b = 1"
    "flash_inactive_area_id True b = 1" "length (s_load_buffer b) = MINI_BOOT_LOAD_MAX" "boot_key_get (s_keys b) = Some (replicate 16 9)"
    using loaded_state [of "[]" 0]
    by (simp_all add: b_def flag_getters keys_apart boot_key_get_def) (simp add: loaded_boot_def fresh_boot_def)
  have a: "image_area areas_flash (flash_inactive_area_id True b) (area_of 1) (area_bytes 1) (area_bytes 3)"
    unfolding f by (rule areas_image) simp
  have i: "flash_store_inv areas_flash (area_of 3) (area_bytes 3) (s_dev b)" unfolding f by (rule areas_loaded)
  have t: "trial_of (s_ota_state b) = stored_trial areas_flash (s_dev b)" unfolding f stored_loaded loaded_state ..
  have o: "flash_active_area_id b = FLASH_AREA_ID_IMAGE_0" by (simp add: area_ids f loaded_state trial_0)
  note all = update_end_to_end [OF plain_compatible plain_crypto_streams _ _ _ _ _ im(3) i a l t _ _ f(6,7) list_delivers refl,
      of "[Ev_app, Ev_open True]" "[Ev_boot, Ev_boot, Ev_boot]", unfolded f(5) o append.simps FLASH_AREA_ID_IMAGE_1_def [symmetric]]
  show ?thesis using im(3) all by (simp add: table_cache_ok_def f(3,4) del: ota_run.simps ota_codes) blast
qed

end
